(* ===== verification/Prelude.thy ===== *)
theory Prelude
  imports Main "HOL-Library.Word" "HOL-Library.Multiset"
begin

text \<open>
  Shared vocabulary of the development: the machine integers of the C++ code, the ways an
  operation can end without a result (\<open>fault\<close>), sequencing of fallible operations, 64-bit
  signed arithmetic, and reachability with inductive invariants for the step relations.
\<close>

unbundle bit_operations_syntax

named_theorems wf_intros \<open>preservation facts of the components' well-formedness predicates\<close>
named_theorems res_simps \<open>rewriting of sequenced fallible operations\<close>

section \<open>Machine integers\<close>

type_synonym u32 = "32 word"
type_synonym u64 = "64 word"

lemma uint_minus_1_u64: "uint (- 1 :: u64) = 2 ^ 64 - 1"
  by (simp add: unsigned_minus_1_eq_mask mask_eq_exp_minus_1)

text \<open>Flags: a mask set in, cleared from and read off a word.\<close>

lemma mask_bits:
  fixes x m :: "'a :: len word"
  shows "(x OR m) AND m = m" "(x AND NOT m) AND m = 0" "m AND (x OR m) = m" "m AND x AND NOT m = 0"
  by (rule bit_word_eqI; auto simp: bit_simps)+

lemma one_bit:
  fixes x :: "'a :: len word"
  shows "x AND 2 ^ n = 0 \<or> x AND 2 ^ n = 2 ^ n"
proof (cases "bit x n")
  case True
  then have "x AND 2 ^ n = 2 ^ n" by (intro bit_word_eqI) (auto simp: bit_simps)
  then show ?thesis ..
next
  case False
  then have "x AND 2 ^ n = 0" by (intro bit_word_eqI) (auto simp: bit_simps)
  then show ?thesis ..
qed

text \<open>
  \<open>s64\<close> is the value an \<open>int64_t\<close> holds after an operation with mathematical result \<open>x\<close>
  (two's complement); \<open>std::chrono\<close> counts nanoseconds in such an integer.
\<close>

definition s64 :: "int \<Rightarrow> int" where
  "s64 x = (x + 2 ^ 63) mod 2 ^ 64 - 2 ^ 63"

lemma s64_id: "- (2 ^ 63) \<le> x \<Longrightarrow> x < 2 ^ 63 \<Longrightarrow> s64 x = x"
  by (simp add: s64_def)

lemma s64_range: "- (2 ^ 63) \<le> s64 x \<and> s64 x < 2 ^ 63"
proof -
  have "0 \<le> (x + 2 ^ 63) mod 2 ^ 64" by simp
  moreover have "(x + 2 ^ 63) mod 2 ^ 64 < (2::int) ^ 64" by simp
  ultimately show ?thesis by (simp add: s64_def)
qed

lemma s64_idem [simp]: "s64 (s64 x) = s64 x"
  using s64_range [of x] by (simp add: s64_id)

text \<open>An \<open>int32_t\<close> that receives the 64-bit value \<open>x\<close>.\<close>

definition s32 :: "int \<Rightarrow> int" where
  "s32 x = (x + 2 ^ 31) mod 2 ^ 32 - 2 ^ 31"

lemma s32_id: "- (2 ^ 31) \<le> x \<Longrightarrow> x < 2 ^ 31 \<Longrightarrow> s32 x = x"
  by (simp add: s32_def)

section \<open>Faults and fallible operations\<close>

text \<open>
  What can end an operation without a result: a failed \<open>assert\<close>, a null or dangling pointer, an
  index outside a vector, a read of an uninitialised member, and a thrown exception (the
  \<open>std::logic_error\<close> of the thread class, or a call of an empty \<open>std::function\<close>).
\<close>

datatype fault =
    Assertion_failed
  | Null_pointer
  | Dangling_pointer
  | Out_of_bounds
  | Uninitialised
  | Logic_error_thrown
  | Bad_function_call

type_synonym 'a res = "fault + 'a"

definition bind_res :: "'a res \<Rightarrow> ('a \<Rightarrow> 'b res) \<Rightarrow> 'b res" where
  "bind_res m f = (case m of Inl e \<Rightarrow> Inl e | Inr x \<Rightarrow> f x)"

definition assert_res :: "bool \<Rightarrow> unit res" where
  "assert_res b = (if b then Inr () else Inl Assertion_failed)"

definition deref :: "'a option \<Rightarrow> 'a res" where
  "deref p = (case p of None \<Rightarrow> Inl Null_pointer | Some x \<Rightarrow> Inr x)"

definition at_res :: "'a list \<Rightarrow> int \<Rightarrow> 'a res" where
  "at_res xs i = (if 0 \<le> i \<and> nat i < length xs then Inr (xs ! nat i) else Inl Out_of_bounds)"

lemma bind_res_Inl [simp, res_simps]: "bind_res (Inl e) f = Inl e"
  and bind_res_Inr [simp, res_simps]: "bind_res (Inr x) f = f x"
  by (simp_all add: bind_res_def)

lemma bind_res_eq_Inr [res_simps]:
  "bind_res m f = Inr y \<longleftrightarrow> (\<exists>x. m = Inr x \<and> f x = Inr y)"
  by (cases m) simp_all

lemma bind_res_cong [fundef_cong]:
  "m = m' \<Longrightarrow> (\<And>x. m' = Inr x \<Longrightarrow> f x = f' x) \<Longrightarrow> bind_res m f = bind_res m' f'"
  by (cases m') simp_all

lemma assert_res_True [simp, res_simps]: "assert_res True = Inr ()"
  and assert_res_False [simp, res_simps]: "assert_res False = Inl Assertion_failed"
  by (simp_all add: assert_res_def)

lemma assert_res_eq_Inr [res_simps]: "assert_res b = Inr u \<longleftrightarrow> b"
  by (simp add: assert_res_def)

lemma deref_Some [simp, res_simps]: "deref (Some x) = Inr x"
  and deref_None [simp, res_simps]: "deref None = Inl Null_pointer"
  by (simp_all add: deref_def)

lemma deref_eq_Inr [res_simps]: "deref p = Inr x \<longleftrightarrow> p = Some x"
  by (cases p) simp_all

lemma at_res_in [simp]: "0 \<le> i \<Longrightarrow> nat i < length xs \<Longrightarrow> at_res xs i = Inr (xs ! nat i)"
  by (simp add: at_res_def)

lemma at_res_eq_Inr [res_simps]:
  "at_res xs i = Inr x \<longleftrightarrow> 0 \<le> i \<and> nat i < length xs \<and> x = xs ! nat i"
  by (auto simp: at_res_def)

section \<open>Reachable states and inductive invariants\<close>

inductive reach :: "('s \<Rightarrow> bool) \<Rightarrow> ('s \<Rightarrow> 's \<Rightarrow> bool) \<Rightarrow> 's \<Rightarrow> bool"
  for init :: "'s \<Rightarrow> bool" and step :: "'s \<Rightarrow> 's \<Rightarrow> bool" where
  reach_init: "init s \<Longrightarrow> reach init step s"
| reach_step: "reach init step s \<Longrightarrow> step s t \<Longrightarrow> reach init step t"

text \<open>
  The contract between a component's step relation and a predicate on its states: it holds
  initially and every step keeps it. Each component with interleaved steps interprets it.
\<close>

locale inductive_invariant =
  fixes init :: "'s \<Rightarrow> bool" and step :: "'s \<Rightarrow> 's \<Rightarrow> bool" and inv :: "'s \<Rightarrow> bool"
  assumes init_inv: "init s \<Longrightarrow> inv s"
    and step_inv: "inv s \<Longrightarrow> step s t \<Longrightarrow> inv t"
begin

lemma reach_inv: "reach init step s \<Longrightarrow> inv s"
  by (induction rule: reach.induct) (auto intro: init_inv step_inv)

lemma steps_inv: "step\<^sup>*\<^sup>* s t \<Longrightarrow> inv s \<Longrightarrow> inv t"
  by (induction rule: rtranclp_induct) (auto intro: step_inv)

end

lemma reach_rtranclp: "reach init step s \<Longrightarrow> step\<^sup>*\<^sup>* s t \<Longrightarrow> reach init step t"
  by (rotate_tac, induction rule: rtranclp_induct) (auto intro: reach_step)

section \<open>Lists\<close>

lemma takeWhile_dropWhile_split:
  "xs = takeWhile P xs @ dropWhile P xs"
  by simp

lemma sorted_wrt_snoc:
  "sorted_wrt R (xs @ [x]) \<longleftrightarrow> sorted_wrt R xs \<and> (\<forall>y\<in>set xs. R y x)"
  by (simp add: sorted_wrt_append)

lemma sum_list_update_group:
  fixes f :: "'a \<Rightarrow> 'b :: ab_group_add"
  assumes "i < length xs"
  shows "sum_list (map f (xs[i := x])) = sum_list (map f xs) - f (xs ! i) + f x"
  using assms
proof (induction xs arbitrary: i)
  case Nil
  then show ?case by simp
next
  case (Cons y ys)
  then show ?case by (cases i) (simp_all add: algebra_simps)
qed

lemma sum_list_update_add:
  fixes f :: "'a \<Rightarrow> 'b :: comm_monoid_add"
  assumes "i < length xs"
  shows "sum_list (map f (xs[i := x])) + f (xs ! i) = sum_list (map f xs) + f x"
  using assms
proof (induction xs arbitrary: i)
  case Nil
  then show ?case by simp
next
  case (Cons y ys)
  then show ?case by (cases i) (simp_all add: ac_simps)
qed

end
