(* ===== verification/Closures.thy ===== *)
theory Closures
  imports Prelude
begin

text \<open>
  The \<open>std::function<void()>\<close> values that travel between the components: timers hold them, the
  scheduler queues them, fibers run them. A null function is \<open>None\<close> of \<open>closure option\<close>.
  Fibers, schedulers, timer conditions and timers are named by their addresses.
\<close>

type_synonym fiber_ptr = nat
type_synonym sched_ptr = nat
type_synonym cond_ptr = nat
type_synonym timer_ptr = nat

datatype closure =
    User_cb nat                            \<comment> \<open>a function of the application\<close>
  | Scheduler_run sched_ptr                \<comment> \<open>\<open>std::bind(&Scheduler::run, this)\<close>\<close>
  | Scheduler_idle sched_ptr               \<comment> \<open>\<open>std::bind(&Scheduler::idle, this)\<close>\<close>
  | OnTimer_cb cond_ptr "closure option"   \<comment> \<open>\<open>std::bind(&OnTimer, weak_cond, cb)\<close>\<close>
  | Schedule_fiber_cb sched_ptr fiber_ptr  \<comment> \<open>\<open>[fiber, iom] () { iom->scheduleLock(fiber); }\<close>\<close>
  | Io_timeout_cb sched_ptr cond_ptr int u32
      \<comment> \<open>the closure of \<open>do_io\<close> and of \<open>connect_with_timeout\<close>: \<open>[winfo, fd, iom, event]\<close>\<close>

end
