(* ===== verification/Timers.thy ===== *)
theory Timers
  imports Closures
begin

text \<open>
  \<open>code/timer.h\<close> and \<open>code/timer.cpp\<close>: the timer manager and its timers. The
  \<open>std::set<std::shared_ptr<Timer>, Timer::Comparator>\<close> is the list of its timers in the set's
  order; the timer objects live in the list \<open>objs\<close>, at the index that is their address. Clock
  readings (\<open>std::chrono::system_clock::now()\<close>) are arguments, in nanoseconds.
\<close>

section \<open>Time points\<close>

type_synonym time_point = int

text \<open>
  \<open>std::chrono::milliseconds(ms)\<close> takes the \<open>uint64_t\<close> into an \<open>int64_t\<close>; adding it to a time
  point first converts it to nanoseconds. All of it is 64-bit arithmetic.
\<close>

definition ms_to_ns :: "u64 \<Rightarrow> int" where
  "ms_to_ns ms = s64 (sint ms * 1000000)"

definition tp_add :: "time_point \<Rightarrow> u64 \<Rightarrow> time_point" where
  "tp_add t ms = s64 (t + ms_to_ns ms)"

definition tp_sub :: "time_point \<Rightarrow> u64 \<Rightarrow> time_point" where
  "tp_sub t ms = s64 (t - ms_to_ns ms)"

text \<open>\<open>std::chrono::duration_cast<std::chrono::milliseconds>\<close> truncates towards zero.\<close>

definition ns_to_ms :: "int \<Rightarrow> int" where
  "ns_to_ms d = (if d < 0 then - ((- d) div 1000000) else d div 1000000)"

text \<open>Inside the range of the clock the machine arithmetic is the arithmetic of integers.\<close>

definition ms_in_range :: "time_point \<Rightarrow> u64 \<Rightarrow> bool" where
  "ms_in_range t ms \<longleftrightarrow> 0 \<le> t \<and> t + uint ms * 1000000 < 2 ^ 63"

lemma sint_small:
  assumes "uint (ms :: u64) < 2 ^ 63"
  shows "sint ms = uint ms"
proof -
  have "sint ms = signed_take_bit 63 (uint ms)"
    by (simp add: sint_uint)
  also have "\<dots> = uint ms"
    using assms by (intro signed_take_bit_int_eq_self) (simp_all add: order_trans [of _ 0])
  finally show ?thesis .
qed

lemma ms_to_ns_exact:
  assumes "uint ms * 1000000 < 2 ^ 63"
  shows "ms_to_ns ms = uint ms * 1000000"
proof -
  have "uint ms < 2 ^ 63" using assms by simp
  then have "sint ms = uint ms" by (rule sint_small)
  moreover have "s64 (uint ms * 1000000) = uint ms * 1000000"
    using assms by (intro s64_id) (simp_all add: order_trans [of _ 0])
  ultimately show ?thesis by (simp add: ms_to_ns_def)
qed

lemma tp_add_exact:
  assumes "ms_in_range t ms"
  shows "tp_add t ms = t + uint ms * 1000000"
proof -
  have "0 \<le> uint ms * 1000000" by simp
  with assms have b: "uint ms * 1000000 < 2 ^ 63" "- (2 ^ 63) \<le> t + uint ms * 1000000"
    unfolding ms_in_range_def by linarith+
  from ms_to_ns_exact [OF b(1)] b(2) assms show ?thesis
    unfolding tp_add_def ms_in_range_def by (simp only: s64_id)
qed

section \<open>The ordered set of timers\<close>

text \<open>
  A \<open>std::set\<close> whose comparator is \<open>k x < k y\<close>: two elements with the same key are equivalent,
  so \<open>insert\<close> of an element equivalent to a stored one leaves the set alone and returns the
  iterator of the stored one, and \<open>find\<close> returns the stored element equivalent to its argument.
\<close>

fun set_insert :: "('a \<Rightarrow> int) \<Rightarrow> 'a \<Rightarrow> 'a list \<Rightarrow> 'a list" where
  "set_insert k x [] = [x]"
| "set_insert k x (y # ys) =
     (if k x < k y then x # y # ys
      else if k y < k x then y # set_insert k x ys
      else y # ys)"

text \<open>The position of the iterator \<open>insert(x).first\<close>.\<close>

fun set_insert_pos :: "('a \<Rightarrow> int) \<Rightarrow> 'a \<Rightarrow> 'a list \<Rightarrow> nat" where
  "set_insert_pos k x [] = 0"
| "set_insert_pos k x (y # ys) = (if k y < k x then Suc (set_insert_pos k x ys) else 0)"

fun set_find :: "('a \<Rightarrow> int) \<Rightarrow> 'a \<Rightarrow> 'a list \<Rightarrow> 'a option" where
  "set_find k x [] = None"
| "set_find k x (y # ys) =
     (if k x < k y then None
      else if k y < k x then set_find k x ys
      else Some y)"

definition set_erase :: "'a \<Rightarrow> 'a list \<Rightarrow> 'a list" where
  "set_erase x xs = remove1 x xs"

definition ordered :: "('a \<Rightarrow> int) \<Rightarrow> 'a list \<Rightarrow> bool" where
  "ordered k xs \<longleftrightarrow> sorted_wrt (\<lambda>x y. k x < k y) xs"

lemma ordered_Nil [simp]: "ordered k []"
  and ordered_Cons [simp]: "ordered k (x # xs) \<longleftrightarrow> (\<forall>y\<in>set xs. k x < k y) \<and> ordered k xs"
  by (simp_all add: ordered_def)

lemma ordered_append:
  "ordered k (xs @ ys) \<longleftrightarrow>
     ordered k xs \<and> ordered k ys \<and> (\<forall>x\<in>set xs. \<forall>y\<in>set ys. k x < k y)"
  by (auto simp: ordered_def sorted_wrt_append)

lemma ordered_distinct: "ordered k xs \<Longrightarrow> distinct xs"
  by (induction xs) auto

lemma ordered_inj: "ordered k xs \<Longrightarrow> x \<in> set xs \<Longrightarrow> y \<in> set xs \<Longrightarrow> k x = k y \<Longrightarrow> x = y"
  by (induction xs) auto

lemma ordered_cong: "(\<And>x. x \<in> set xs \<Longrightarrow> k x = k' x) \<Longrightarrow> ordered k xs = ordered k' xs"
  by (induction xs) auto

lemma set_insert_cong:
  "(\<And>y. y \<in> set xs \<Longrightarrow> k y = k' y) \<Longrightarrow> k x = k' x \<Longrightarrow> set_insert k x xs = set_insert k' x xs"
  by (induction xs) auto

lemma set_insert_subset: "set (set_insert k x xs) \<subseteq> insert x (set xs)"
  by (induction xs) auto

lemma set_insert_superset: "set xs \<subseteq> set (set_insert k x xs)"
  by (induction xs) auto

lemma set_insert_not_Nil [simp]: "set_insert k x xs \<noteq> []"
  by (cases xs) auto

lemma set_insert_fresh:
  "\<forall>y\<in>set xs. k y \<noteq> k x \<Longrightarrow> set (set_insert k x xs) = insert x (set xs)"
  by (induction xs) auto

lemma set_insert_equiv:
  "ordered k xs \<Longrightarrow> y \<in> set xs \<Longrightarrow> k y = k x \<Longrightarrow> set_insert k x xs = xs"
  by (induction xs) auto

lemma set_of_set_insert:
  "ordered k xs \<Longrightarrow> set (set_insert k x xs) =
     (if \<exists>y\<in>set xs. k y = k x then set xs else insert x (set xs))"
  by (auto simp: set_insert_equiv set_insert_fresh)

lemma ordered_set_insert: "ordered k xs \<Longrightarrow> ordered k (set_insert k x xs)"
  by (induction xs) (use set_insert_subset in fastforce)+

lemma keys_set_insert: "k ` set (set_insert k x xs) = insert (k x) (k ` set xs)"
  by (induction xs) auto

lemma set_insert_append:
  "\<forall>y\<in>set xs. k y < k x \<Longrightarrow> set_insert k x (xs @ ys) = xs @ set_insert k x ys"
  by (induction xs) auto

lemma set_insert_pos_0: "set_insert_pos k x xs = 0 \<longleftrightarrow> xs = [] \<or> k x \<le> k (hd xs)"
  by (cases xs) auto

lemma set_find_Some: "set_find k x xs = Some y \<Longrightarrow> y \<in> set xs \<and> k y = k x"
  by (induction xs) (auto split: if_splits)

lemma set_find_None: "ordered k xs \<Longrightarrow> set_find k x xs = None \<longleftrightarrow> (\<forall>y\<in>set xs. k y \<noteq> k x)"
  by (induction xs) auto

lemma set_find_equiv:
  "ordered k xs \<Longrightarrow> y \<in> set xs \<Longrightarrow> k y = k x \<Longrightarrow> set_find k x xs = Some y"
  by (induction xs) auto

lemma set_find_self: "ordered k xs \<Longrightarrow> x \<in> set xs \<Longrightarrow> set_find k x xs = Some x"
  by (rule set_find_equiv) simp_all

lemma ordered_set_erase: "ordered k xs \<Longrightarrow> ordered k (set_erase x xs)"
  by (induction xs) (auto simp: set_erase_def dest: notin_set_remove1 set_remove1_subset [THEN subsetD])

lemma set_set_erase: "ordered k xs \<Longrightarrow> set (set_erase x xs) = set xs - {x}"
  by (simp add: set_erase_def ordered_distinct)

section \<open>Timer objects and the timer manager\<close>

record timer =
  m_recurring :: bool
  m_ms :: u64
  m_next :: time_point
  timer_cb :: "closure option"   \<comment> \<open>\<open>Timer::m_cb\<close>\<close>

record timer_manager =
  objs :: "timer list"           \<comment> \<open>the \<open>Timer\<close> objects, by address\<close>
  m_timers :: "timer_ptr list"   \<comment> \<open>the set, in its order\<close>
  m_tickled :: bool
  m_preTime :: time_point

definition next_of :: "timer_manager \<Rightarrow> timer_ptr \<Rightarrow> time_point" where
  "next_of M i = m_next (objs M ! i)"

definition upd_timer :: "timer_ptr \<Rightarrow> (timer \<Rightarrow> timer) \<Rightarrow> timer_manager \<Rightarrow> timer_manager" where
  "upd_timer i f M = M\<lparr>objs := (objs M)[i := f (objs M ! i)]\<rparr>"

text \<open>\<open>TimerManager::TimerManager()\<close>\<close>

definition new_manager :: "time_point \<Rightarrow> timer_manager" where
  "new_manager now = \<lparr>objs = [], m_timers = [], m_tickled = False, m_preTime = now\<rparr>"

text \<open>\<open>Timer::Timer\<close>\<close>

definition new_timer :: "time_point \<Rightarrow> u64 \<Rightarrow> closure option \<Rightarrow> bool \<Rightarrow> timer" where
  "new_timer now ms cb recurring =
     \<lparr>m_recurring = recurring, m_ms = ms, m_next = tp_add now ms, timer_cb = cb\<rparr>"

text \<open>
  \<open>void TimerManager::addTimer(std::shared_ptr<Timer>)\<close>. The result says whether the virtual
  \<open>onTimerInsertedAtFront()\<close> is called once the lock is released.
\<close>

definition addTimer_ptr :: "timer_ptr \<Rightarrow> timer_manager \<Rightarrow> timer_manager \<times> bool" where
  "addTimer_ptr i M =
     (let it = set_insert_pos (next_of M) i (m_timers M);
          M1 = M\<lparr>m_timers := set_insert (next_of M) i (m_timers M)\<rparr>;
          at_front = (it = 0 \<and> \<not> m_tickled M1)
      in (if at_front then M1\<lparr>m_tickled := True\<rparr> else M1, at_front))"

text \<open>\<open>std::shared_ptr<Timer> TimerManager::addTimer(ms, cb, recurring)\<close>\<close>

definition addTimer ::
  "time_point \<Rightarrow> u64 \<Rightarrow> closure option \<Rightarrow> bool \<Rightarrow> timer_manager \<Rightarrow> timer_ptr \<times> timer_manager \<times> bool"
where
  "addTimer now ms cb recurring M =
     (let i = length (objs M);
          M1 = M\<lparr>objs := objs M @ [new_timer now ms cb recurring]\<rparr>
      in (i, addTimer_ptr i M1))"

text \<open>\<open>TimerManager::addConditionTimer\<close>: the closure is \<open>std::bind(&OnTimer, weak_cond, cb)\<close>.\<close>

definition addConditionTimer ::
  "time_point \<Rightarrow> u64 \<Rightarrow> closure option \<Rightarrow> cond_ptr \<Rightarrow> bool \<Rightarrow> timer_manager
   \<Rightarrow> timer_ptr \<times> timer_manager \<times> bool"
where
  "addConditionTimer now ms cb weak_cond recurring M =
     addTimer now ms (Some (OnTimer_cb weak_cond cb)) recurring M"

text \<open>
  \<open>OnTimer\<close>: what the bound closure does when it runs; \<open>alive\<close> tells whether
  \<open>weak_cond.lock()\<close> yields the condition. The result is the closure called, if any.
\<close>

definition OnTimer :: "(cond_ptr \<Rightarrow> bool) \<Rightarrow> cond_ptr \<Rightarrow> closure option \<Rightarrow> closure option option" where
  "OnTimer alive weak_cond cb = (if alive weak_cond then Some cb else None)"

text \<open>\<open>Timer::cancel\<close>\<close>

definition timer_cancel :: "timer_ptr \<Rightarrow> timer_manager \<Rightarrow> bool \<times> timer_manager" where
  "timer_cancel i M =
     (if timer_cb (objs M ! i) = None then (False, M)
      else
        let M1 = upd_timer i (\<lambda>t. t\<lparr>timer_cb := None\<rparr>) M
        in case set_find (next_of M1) i (m_timers M1) of
             Some j \<Rightarrow> (True, M1\<lparr>m_timers := set_erase j (m_timers M1)\<rparr>)
           | None \<Rightarrow> (True, M1))"

text \<open>\<open>Timer::refresh\<close>\<close>

definition timer_refresh :: "time_point \<Rightarrow> timer_ptr \<Rightarrow> timer_manager \<Rightarrow> bool \<times> timer_manager" where
  "timer_refresh now i M =
     (if timer_cb (objs M ! i) = None then (False, M)
      else
        case set_find (next_of M) i (m_timers M) of
          None \<Rightarrow> (False, M)
        | Some j \<Rightarrow>
            let M1 = M\<lparr>m_timers := set_erase j (m_timers M)\<rparr>;
                M2 = upd_timer i (\<lambda>t. t\<lparr>m_next := tp_add now (m_ms t)\<rparr>) M1
            in (True, M2\<lparr>m_timers := set_insert (next_of M2) i (m_timers M2)\<rparr>))"

text \<open>
  \<open>Timer::reset\<close>. The first part runs under the lock and takes the timer out of the set; the
  second part runs after the lock is released and ends in \<open>m_manager->addTimer\<close>.
\<close>

definition timer_reset_take :: "timer_ptr \<Rightarrow> timer_manager \<Rightarrow> bool \<times> timer_manager" where
  "timer_reset_take i M =
     (if timer_cb (objs M ! i) = None then (False, M)
      else
        case set_find (next_of M) i (m_timers M) of
          None \<Rightarrow> (False, M)
        | Some j \<Rightarrow> (True, M\<lparr>m_timers := set_erase j (m_timers M)\<rparr>))"

definition timer_reset_put ::
  "time_point \<Rightarrow> u64 \<Rightarrow> bool \<Rightarrow> timer_ptr \<Rightarrow> timer_manager \<Rightarrow> timer_manager \<times> bool"
where
  "timer_reset_put now ms from_now i M =
     (let start = (if from_now then now else tp_sub (m_next (objs M ! i)) (m_ms (objs M ! i)));
          M1 = upd_timer i (\<lambda>t. t\<lparr>m_ms := ms, m_next := tp_add start ms\<rparr>) M
      in addTimer_ptr i M1)"

definition timer_reset ::
  "time_point \<Rightarrow> u64 \<Rightarrow> bool \<Rightarrow> timer_ptr \<Rightarrow> timer_manager \<Rightarrow> bool \<times> timer_manager \<times> bool"
where
  "timer_reset now ms from_now i M =
     (if ms = m_ms (objs M ! i) \<and> \<not> from_now then (True, M, False)
      else
        case timer_reset_take i M of
          (False, M1) \<Rightarrow> (False, M1, False)
        | (True, M1) \<Rightarrow> (True, timer_reset_put now ms from_now i M1))"

text \<open>\<open>TimerManager::detectClockRollover\<close>: more than an hour backwards.\<close>

definition detectClockRollover :: "time_point \<Rightarrow> timer_manager \<Rightarrow> bool \<times> timer_manager" where
  "detectClockRollover now M =
     (now < tp_sub (m_preTime M) (60 * 60 * 1000), M\<lparr>m_preTime := now\<rparr>)"

text \<open>\<open>TimerManager::getNextTimer\<close>; \<open>~0ull\<close> is \<open>- 1\<close>.\<close>

definition getNextTimer :: "time_point \<Rightarrow> timer_manager \<Rightarrow> u64 \<times> timer_manager" where
  "getNextTimer now M =
     (let M1 = M\<lparr>m_tickled := False\<rparr>
      in case m_timers M1 of
           [] \<Rightarrow> (- 1, M1)
         | i # _ \<Rightarrow>
             if next_of M1 i \<le> now then (0, M1)
             else (word_of_int (ns_to_ms (s64 (next_of M1 i - now))), M1))"

text \<open>\<open>TimerManager::hasTimer\<close>\<close>

definition hasTimer :: "timer_manager \<Rightarrow> bool" where
  "hasTimer M \<longleftrightarrow> m_timers M \<noteq> []"

text \<open>
  \<open>TimerManager::listExpireCb\<close>: one turn of its loop pops the front timer and, when it recurs,
  puts it back; the loop need not end, so it is a partial function. \<open>now\<close> is read before the
  lock is taken, \<open>now2\<close> by \<open>detectClockRollover\<close>.
\<close>

definition expire_one :: "time_point \<Rightarrow> timer_ptr \<Rightarrow> timer_manager \<Rightarrow> timer_manager" where
  "expire_one now i M =
     (let M1 = M\<lparr>m_timers := tl (m_timers M)\<rparr>
      in if m_recurring (objs M1 ! i) then
           let M2 = upd_timer i (\<lambda>t. t\<lparr>m_next := tp_add now (m_ms t)\<rparr>) M1
           in M2\<lparr>m_timers := set_insert (next_of M2) i (m_timers M2)\<rparr>
         else upd_timer i (\<lambda>t. t\<lparr>timer_cb := None\<rparr>) M1)"

partial_function (option) expire_loop ::
  "bool \<Rightarrow> time_point \<Rightarrow> timer_manager \<Rightarrow> closure option list
   \<Rightarrow> (timer_manager \<times> closure option list) option"
where
  "expire_loop rollover now M cbs =
     (case m_timers M of
        [] \<Rightarrow> Some (M, cbs)
      | i # _ \<Rightarrow>
          if rollover \<or> next_of M i \<le> now
          then expire_loop rollover now (expire_one now i M) (cbs @ [timer_cb (objs M ! i)])
          else Some (M, cbs))"

definition listExpireCb ::
  "time_point \<Rightarrow> time_point \<Rightarrow> timer_manager \<Rightarrow> closure option list
   \<Rightarrow> (timer_manager \<times> closure option list) option"
where
  "listExpireCb now now2 M cbs =
     (let (rollover, M1) = detectClockRollover now2 M in expire_loop rollover now M1 cbs)"

section \<open>Well-formedness\<close>

text \<open>
  The set holds addresses of timer objects, strictly ordered by their next time: this is what
  \<open>std::set\<close> needs of its comparator and elements.
\<close>

definition tm_wf :: "timer_manager \<Rightarrow> bool" where
  "tm_wf M \<longleftrightarrow> (\<forall>i\<in>set (m_timers M). i < length (objs M)) \<and> ordered (next_of M) (m_timers M)"

lemma upd_timer_frame [simp]:
  "m_timers (upd_timer i f M) = m_timers M"
  "m_tickled (upd_timer i f M) = m_tickled M"
  "m_preTime (upd_timer i f M) = m_preTime M"
  "length (objs (upd_timer i f M)) = length (objs M)"
  by (simp_all add: upd_timer_def)

lemma objs_upd_timer:
  "i < length (objs M) \<Longrightarrow>
   objs (upd_timer i f M) ! j = (if j = i then f (objs M ! i) else objs M ! j)"
  by (simp add: upd_timer_def nth_list_update)

lemma next_of_frame [simp]:
  "next_of (M\<lparr>m_timers := ts\<rparr>) = next_of M"
  "next_of (M\<lparr>m_tickled := b\<rparr>) = next_of M"
  "next_of (M\<lparr>m_preTime := t\<rparr>) = next_of M"
  by (simp_all add: next_of_def fun_eq_iff)

lemma next_of_upd_timer:
  "i < length (objs M) \<Longrightarrow>
   next_of (upd_timer i f M) = (next_of M)(i := m_next (f (objs M ! i)))"
  by (simp add: next_of_def objs_upd_timer fun_eq_iff)

lemma next_of_upd_same [simp]: "(next_of M)(i := m_next (objs M ! i)) = next_of M"
  by (auto simp: next_of_def fun_eq_iff)

lemma ordered_key_upd: "i \<notin> set xs \<Longrightarrow> ordered (k(i := v)) xs = ordered k xs"
  by (rule ordered_cong) auto

lemma set_find_erased:
  assumes "ordered k xs" and "set_find k x xs = Some y"
  shows "x \<notin> set (set_erase y xs)"
proof (cases "x \<in> set xs")
  case True
  with assms have "y = x" using set_find_self by fastforce
  with assms(1) show ?thesis by (simp add: set_set_erase)
next
  case False
  with assms(1) show ?thesis by (simp add: set_set_erase)
qed

lemma tm_wf_frame [simp]:
  "tm_wf (M\<lparr>m_tickled := b\<rparr>) = tm_wf M"
  "tm_wf (M\<lparr>m_preTime := t\<rparr>) = tm_wf M"
  by (simp_all add: tm_wf_def)

lemma tm_wf_new_manager [wf_intros]: "tm_wf (new_manager now)"
  by (simp add: tm_wf_def new_manager_def)

lemma tm_wf_erase [wf_intros]:
  "tm_wf M \<Longrightarrow> tm_wf (M\<lparr>m_timers := set_erase i (m_timers M)\<rparr>)"
  by (auto simp: tm_wf_def ordered_set_erase set_set_erase)

lemma tm_wf_insert [wf_intros]:
  "tm_wf M \<Longrightarrow> i < length (objs M) \<Longrightarrow>
   tm_wf (M\<lparr>m_timers := set_insert (next_of M) i (m_timers M)\<rparr>)"
  using set_insert_subset [of "next_of M" i "m_timers M"]
  by (auto simp: tm_wf_def ordered_set_insert)

lemma tm_wf_upd_timer [wf_intros]:
  "tm_wf M \<Longrightarrow> i < length (objs M) \<Longrightarrow>
   i \<notin> set (m_timers M) \<or> m_next (f (objs M ! i)) = m_next (objs M ! i) \<Longrightarrow>
   tm_wf (upd_timer i f M)"
  by (elim disjE) (simp_all add: tm_wf_def next_of_upd_timer ordered_key_upd)

lemma addTimer_ptr_fst:
  "fst (addTimer_ptr i M) =
     M\<lparr>m_timers := set_insert (next_of M) i (m_timers M),
       m_tickled := (m_tickled M \<or> set_insert_pos (next_of M) i (m_timers M) = 0)\<rparr>"
  by (simp add: addTimer_ptr_def Let_def)

lemma addTimer_ptr_snd:
  "snd (addTimer_ptr i M) \<longleftrightarrow>
     (m_timers M = [] \<or> next_of M i \<le> next_of M (hd (m_timers M))) \<and> \<not> m_tickled M"
  by (simp add: addTimer_ptr_def Let_def set_insert_pos_0)

lemma addTimer_ptr_armed:
  "i \<in> set (m_timers (fst (addTimer_ptr i M))) \<or>
   (\<exists>j\<in>set (m_timers M). next_of (fst (addTimer_ptr i M)) j = next_of (fst (addTimer_ptr i M)) i)"
proof -
  have "next_of (fst (addTimer_ptr i M)) = next_of M"
    by (simp add: addTimer_ptr_fst next_of_def fun_eq_iff)
  then show ?thesis
    using set_insert_fresh [of "m_timers M" "next_of M" i] by (auto simp: addTimer_ptr_fst)
qed

lemma tm_wf_addTimer_ptr [wf_intros]:
  "tm_wf M \<Longrightarrow> i < length (objs M) \<Longrightarrow> tm_wf (fst (addTimer_ptr i M))"
  using tm_wf_insert [of M i] by (simp add: addTimer_ptr_fst tm_wf_def next_of_def)

text \<open>A freshly allocated object is not in the set and leaves the others alone.\<close>

lemma tm_wf_alloc [wf_intros]: "tm_wf M \<Longrightarrow> tm_wf (M\<lparr>objs := objs M @ [t]\<rparr>)"
proof -
  assume wf: "tm_wf M"
  have "ordered (next_of (M\<lparr>objs := objs M @ [t]\<rparr>)) (m_timers M) = ordered (next_of M) (m_timers M)"
    by (rule ordered_cong) (use wf in \<open>auto simp: tm_wf_def next_of_def nth_append\<close>)
  with wf show ?thesis by (auto simp: tm_wf_def)
qed

lemma tm_wf_addTimer [wf_intros]:
  "tm_wf M \<Longrightarrow> tm_wf (fst (snd (addTimer now ms cb r M)))"
  by (simp add: addTimer_def Let_def tm_wf_addTimer_ptr tm_wf_alloc)

lemma tm_wf_cancel [wf_intros]:
  "tm_wf M \<Longrightarrow> i < length (objs M) \<Longrightarrow> tm_wf (snd (timer_cancel i M))"
  by (auto simp: timer_cancel_def Let_def intro!: wf_intros split: option.splits
      simp del: upd_timer_frame(1))

lemma tm_wf_reset_take [wf_intros]:
  "tm_wf M \<Longrightarrow> tm_wf (snd (timer_reset_take i M))"
  by (auto simp: timer_reset_take_def intro!: wf_intros split: option.splits)

lemma reset_take_not_in:
  "tm_wf M \<Longrightarrow> timer_reset_take i M = (True, M1) \<Longrightarrow> i \<notin> set (m_timers M1) \<and> objs M1 = objs M"
  by (auto simp: timer_reset_take_def tm_wf_def set_find_erased split: option.splits if_splits)

lemma tm_wf_reset_put [wf_intros]:
  "tm_wf M \<Longrightarrow> i < length (objs M) \<Longrightarrow> i \<notin> set (m_timers M) \<Longrightarrow>
   tm_wf (fst (timer_reset_put now ms from_now i M))"
  by (auto simp: timer_reset_put_def Let_def intro!: tm_wf_addTimer_ptr tm_wf_upd_timer)

lemma tm_wf_reset [wf_intros]:
  assumes "tm_wf M" and "i < length (objs M)"
  shows "tm_wf (fst (snd (timer_reset now ms from_now i M)))"
proof (cases "timer_reset_take i M")
  case (Pair b M1)
  with assms have "tm_wf M1" using tm_wf_reset_take [of M i] by simp
  moreover have "i \<notin> set (m_timers M1) \<and> objs M1 = objs M" if b
    using reset_take_not_in [OF assms(1), of i M1] Pair that by simp
  ultimately show ?thesis
    using assms Pair by (auto simp: timer_reset_def intro!: tm_wf_reset_put split: bool.splits)
qed

lemma tm_wf_refresh [wf_intros]:
  assumes "tm_wf M" and "i < length (objs M)"
  shows "tm_wf (snd (timer_refresh now i M))"
proof -
  have "i \<notin> set (set_erase j (m_timers M))"
    if "set_find (next_of M) i (m_timers M) = Some j" for j
    using assms(1) that by (auto simp: tm_wf_def set_find_erased)
  then show ?thesis
    using assms
    by (auto simp: timer_refresh_def Let_def split: option.splits simp del: upd_timer_frame(1)
        intro!: tm_wf_insert tm_wf_upd_timer tm_wf_erase)
qed

lemma tm_wf_getNextTimer [wf_intros]: "tm_wf M \<Longrightarrow> tm_wf (snd (getNextTimer now M))"
  by (simp add: getNextTimer_def Let_def split: list.splits)

lemma tm_wf_expire_one [wf_intros]:
  assumes "tm_wf M" and "m_timers M = i # rest"
  shows "tm_wf (expire_one now i M)"
proof -
  have i: "i < length (objs M)" "i \<notin> set rest" and "tm_wf (M\<lparr>m_timers := rest\<rparr>)"
    using assms by (auto simp: tm_wf_def)
  with assms(2) show ?thesis
    by (auto simp: expire_one_def Let_def simp del: upd_timer_frame(1)
        intro!: tm_wf_insert tm_wf_upd_timer)
qed

lemma expire_loop_wf:
  assumes "expire_loop ro now M cbs = Some (M', cbs')"
  shows "tm_wf M \<longrightarrow> tm_wf M'"
proof -
  define P where "P \<equiv> \<lambda>(ro :: bool) (now :: time_point) M (cbs :: closure option list)
    (r :: timer_manager \<times> closure option list). tm_wf M \<longrightarrow> tm_wf (fst r)"
  have "P ro now M cbs (M', cbs')"
  proof (rule expire_loop.raw_induct [of P, OF _ assms])
    fix f ro now M cbs r
    assume IH: "\<And>ro now M cbs r. f ro now M cbs = Some r \<Longrightarrow> P ro now M cbs r"
      and eq: "(case m_timers M of [] \<Rightarrow> Some (M, cbs)
        | i # x \<Rightarrow> if ro \<or> next_of M i \<le> now
            then f ro now (expire_one now i M) (cbs @ [timer_cb (objs M ! i)])
            else Some (M, cbs)) = Some r"
    show "P ro now M cbs r"
      using eq by (auto simp: P_def split: list.splits if_splits
          dest!: IH intro: tm_wf_expire_one)
  qed
  then show ?thesis by (simp add: P_def)
qed

section \<open>Expiry\<close>

text \<open>What becomes of a timer that \<open>listExpireCb\<close> takes out of the set.\<close>

definition expired_timer :: "time_point \<Rightarrow> timer \<Rightarrow> timer" where
  "expired_timer now t =
     (if m_recurring t then t\<lparr>m_next := tp_add now (m_ms t)\<rparr> else t\<lparr>timer_cb := None\<rparr>)"

definition due :: "time_point \<Rightarrow> timer_manager \<Rightarrow> timer_ptr list" where
  "due now M = filter (\<lambda>i. next_of M i \<le> now) (m_timers M)"

definition pending :: "time_point \<Rightarrow> timer_manager \<Rightarrow> timer_ptr list" where
  "pending now M = filter (\<lambda>i. now < next_of M i) (m_timers M)"

lemma ordered_split:
  "ordered k xs \<Longrightarrow> xs = filter (\<lambda>x. k x \<le> c) xs @ filter (\<lambda>x. c < k x) xs"
proof (induction xs)
  case Nil
  then show ?case by simp
next
  case (Cons x xs)
  show ?case
  proof (cases "k x \<le> c")
    case True
    with Cons show ?thesis by (simp flip: not_less)
  next
    case False
    with Cons.prems have "filter (\<lambda>x. k x \<le> c) xs = []" and "filter (\<lambda>x. c < k x) xs = xs"
      by (auto simp: filter_empty_conv filter_id_conv)
    with False show ?thesis by simp
  qed
qed

lemma m_timers_split: "tm_wf M \<Longrightarrow> m_timers M = due now M @ pending now M"
  unfolding due_def pending_def tm_wf_def by (blast intro: ordered_split)

lemma objs_expire_one:
  "i < length (objs M) \<Longrightarrow>
   objs (expire_one now i M) ! j =
     (if j = i then expired_timer now (objs M ! i) else objs M ! j)"
  by (simp add: expire_one_def Let_def expired_timer_def upd_timer_def nth_list_update)

lemma expire_one_frame [simp]:
  "length (objs (expire_one now i M)) = length (objs M)"
  "m_tickled (expire_one now i M) = m_tickled M"
  "m_preTime (expire_one now i M) = m_preTime M"
  by (simp_all add: expire_one_def Let_def)

lemma next_of_expire_one:
  "i < length (objs M) \<Longrightarrow> j \<noteq> i \<Longrightarrow> next_of (expire_one now i M) j = next_of M j"
  by (simp add: next_of_def objs_expire_one)

lemma m_timers_expire_one:
  assumes "i < length (objs M)" and "m_timers M = i # ds @ rs" and "i \<notin> set (ds @ rs)"
    and "m_recurring (objs M ! i) \<Longrightarrow>
         \<forall>j\<in>set ds. next_of M j < tp_add now (m_ms (objs M ! i))"
  shows "m_timers (expire_one now i M) =
    ds @ (if m_recurring (objs M ! i)
          then set_insert ((next_of M)(i := tp_add now (m_ms (objs M ! i)))) i rs else rs)"
proof -
  have "\<forall>j\<in>set ds. ((next_of M)(i := v)) j < ((next_of M)(i := v)) i"
    if "\<forall>j\<in>set ds. next_of M j < v" for v
    using that assms(3) by auto
  with assms show ?thesis
    by (simp add: expire_one_def Let_def next_of_upd_timer set_insert_append del: fun_upd_apply)
qed

lemma expire_one_rest:
  fixes now :: time_point and i :: timer_ptr
  defines "rs1 \<equiv> \<lambda>M rs. if m_recurring (objs M ! i)
      then set_insert ((next_of M)(i := tp_add now (m_ms (objs M ! i)))) i rs else rs"
  assumes "i < length (objs M)" and "i \<notin> set rs"
  shows "set rs \<subseteq> set (rs1 M rs)"
    and "set (rs1 M rs) \<subseteq> set rs \<union> {j. j = i \<and> m_recurring (objs M ! i)}"
    and "next_of (expire_one now i M) ` set (rs1 M rs) = next_of M ` set rs \<union>
           {t. t = tp_add now (m_ms (objs M ! i)) \<and> m_recurring (objs M ! i)}"
proof -
  let ?k = "(next_of M)(i := tp_add now (m_ms (objs M ! i)))"
  show "set rs \<subseteq> set (rs1 M rs)" and "set (rs1 M rs) \<subseteq> set rs \<union> {j. j = i \<and> m_recurring (objs M ! i)}"
    by (auto simp: rs1_def dest: set_insert_superset [THEN subsetD]
        set_insert_subset [THEN subsetD])
  show "next_of (expire_one now i M) ` set (rs1 M rs) = next_of M ` set rs \<union>
      {t. t = tp_add now (m_ms (objs M ! i)) \<and> m_recurring (objs M ! i)}"
  proof (cases "m_recurring (objs M ! i)")
    case True
    have "next_of (expire_one now i M) = ?k"
      using assms(2) True by (auto simp: next_of_def objs_expire_one expired_timer_def)
    moreover have "?k ` set rs = next_of M ` set rs"
      using assms(3) by (intro image_cong) auto
    ultimately have "next_of (expire_one now i M) ` set (set_insert ?k i rs) =
        insert (?k i) (next_of M ` set rs)"
      by (simp only: keys_set_insert)
    with True show ?thesis by (auto simp: rs1_def)
  next
    case False
    then have "next_of (expire_one now i M) ` set rs = next_of M ` set rs"
      using assms(2,3) by (intro image_cong refl next_of_expire_one) auto
    with False show ?thesis by (simp add: rs1_def)
  qed
qed

text \<open>
  What the loop achieves for the timers \<open>ds\<close> that go round it, with \<open>rs\<close> those that stay: the
  objects, the members of the set and their times.
\<close>

definition recurring_in :: "timer_manager \<Rightarrow> timer_ptr list \<Rightarrow> timer_ptr set" where
  "recurring_in M ds = {i. i \<in> set ds \<and> m_recurring (objs M ! i)}"

definition expire_post ::
  "time_point \<Rightarrow> timer_manager \<Rightarrow> timer_ptr list \<Rightarrow> timer_ptr list \<Rightarrow> timer_manager \<Rightarrow> bool"
where
  "expire_post now M ds rs M' \<longleftrightarrow>
     tm_wf M' \<and> length (objs M') = length (objs M)
     \<and> (\<forall>j. objs M' ! j = (if j \<in> set ds then expired_timer now (objs M ! j) else objs M ! j))
     \<and> set rs \<subseteq> set (m_timers M')
     \<and> set (m_timers M') \<subseteq> set rs \<union> recurring_in M ds
     \<and> next_of M' ` set (m_timers M') =
         next_of M ` set rs \<union> (\<lambda>i. tp_add now (m_ms (objs M ! i))) ` recurring_in M ds
     \<and> m_tickled M' = m_tickled M \<and> m_preTime M' = m_preTime M"

lemma expire_post_Nil: "tm_wf M \<Longrightarrow> m_timers M = rs \<Longrightarrow> expire_post now M [] rs M"
  by (auto simp: expire_post_def recurring_in_def)

lemma expire_post_Cons:
  assumes i: "i < length (objs M)" "i \<notin> set ds" "i \<notin> set rs"
    and post: "expire_post now (expire_one now i M) ds
      (if m_recurring (objs M ! i)
       then set_insert ((next_of M)(i := tp_add now (m_ms (objs M ! i)))) i rs else rs) M'"
  shows "expire_post now M (i # ds) rs M'"
proof -
  let ?M1 = "expire_one now i M"
  note rest = expire_one_rest [OF i(1,3), of now]
  have same: "objs ?M1 ! j = objs M ! j" if "j \<in> set ds" for j
    using i that by (auto simp: objs_expire_one)
  then have recs: "recurring_in ?M1 ds = recurring_in M ds"
    by (auto simp: recurring_in_def)
  have img: "(\<lambda>i. tp_add now (m_ms (objs ?M1 ! i))) ` recurring_in M ds =
      (\<lambda>i. tp_add now (m_ms (objs M ! i))) ` recurring_in M ds"
    using same by (intro image_cong) (auto simp: recurring_in_def)
  have Cons: "recurring_in M (i # ds) =
      {j. j = i \<and> m_recurring (objs M ! i)} \<union> recurring_in M ds"
    by (auto simp: recurring_in_def)
  show ?thesis
    using post rest(1,2) i unfolding expire_post_def recs img rest(3) Cons
    by (auto simp: objs_expire_one)
qed

text \<open>
  The situation at the head of the loop: the timers \<open>ds\<close> have to go round it, \<open>rs\<close> stay, and a
  recurring one of \<open>ds\<close> will not be due again. Each turn keeps it.
\<close>

definition to_expire ::
  "bool \<Rightarrow> time_point \<Rightarrow> timer_ptr list \<Rightarrow> timer_ptr list \<Rightarrow> timer_manager \<Rightarrow> bool"
where
  "to_expire ro now ds rs M \<longleftrightarrow>
     tm_wf M \<and> m_timers M = ds @ rs \<and> (\<forall>i\<in>set ds. ro \<or> next_of M i \<le> now)
     \<and> (rs = [] \<or> \<not> ro \<and> (\<forall>i\<in>set rs. now < next_of M i))
     \<and> (\<forall>i\<in>set ds. m_recurring (objs M ! i) \<longrightarrow> \<not> ro \<and> now < tp_add now (m_ms (objs M ! i)))"

lemma to_expire_step:
  assumes "to_expire ro now (i # ds) rs M"
  shows "to_expire ro now ds
    (if m_recurring (objs M ! i)
     then set_insert ((next_of M)(i := tp_add now (m_ms (objs M ! i)))) i rs else rs)
    (expire_one now i M)"
proof -
  let ?M1 = "expire_one now i M" and ?t = "tp_add now (m_ms (objs M ! i))"
  let ?rs1 = "if m_recurring (objs M ! i) then set_insert ((next_of M)(i := ?t)) i rs else rs"
  note as = assms [unfolded to_expire_def]
  then have i: "i < length (objs M)" "i \<notin> set (ds @ rs)"
    by (auto simp: tm_wf_def)
  have nx: "next_of ?M1 j = (if j = i then m_next (expired_timer now (objs M ! i)) else next_of M j)"
    for j using i(1) by (simp add: next_of_def objs_expire_one)
  have "m_timers ?M1 = ds @ ?rs1"
    using as i by (intro m_timers_expire_one) fastforce+
  moreover have "?rs1 = [] \<or> \<not> ro \<and> (\<forall>j\<in>set ?rs1. now < next_of ?M1 j)"
    using as i(2) set_insert_subset [of "(next_of M)(i := ?t)" i rs]
    by (auto simp: nx expired_timer_def)
  moreover have "tm_wf ?M1"
    using as by (intro tm_wf_expire_one [where rest = "ds @ rs"]) simp_all
  ultimately show ?thesis
    using as i unfolding to_expire_def by (auto simp: nx objs_expire_one)
qed

lemma expire_loop_fold:
  assumes "to_expire ro now ds rs M"
  shows "expire_loop ro now M cbs =
           Some (fold (expire_one now) ds M, cbs @ map (\<lambda>i. timer_cb (objs M ! i)) ds)"
    and "expire_post now M ds rs (fold (expire_one now) ds M)"
  using assms
proof (induction ds arbitrary: M rs cbs)
  case Nil
  {
    case 1
    then show ?case
      unfolding to_expire_def by (subst expire_loop.simps) (auto split: list.splits)
  next
    case 2
    then show ?case by (simp add: expire_post_Nil to_expire_def)
  }
next
  case (Cons i ds)
  have as: "m_timers M = i # ds @ rs" "ro \<or> next_of M i \<le> now"
    and i: "i < length (objs M)" "i \<notin> set ds" "i \<notin> set rs" if "to_expire ro now (i # ds) rs M"
    for M :: timer_manager and rs
    using that by (auto simp: to_expire_def tm_wf_def)
  {
    case 1
    have "map (\<lambda>j. timer_cb (objs (expire_one now i M) ! j)) ds =
        map (\<lambda>j. timer_cb (objs M ! j)) ds"
      using i(1,2) [OF 1] by (auto simp: objs_expire_one)
    with as [OF 1] Cons.IH(1) [OF to_expire_step [OF 1], of "cbs @ [timer_cb (objs M ! i)]"]
    show ?case by (subst expire_loop.simps) simp
  next
    case 2
    then show ?case
      using expire_post_Cons [OF i [OF 2]] Cons.IH(2) [OF to_expire_step [OF 2]] by simp
  }
qed

lemma expire_loop_due:
  assumes "to_expire ro now ds rs M"
  shows "\<exists>M'. expire_loop ro now M cbs = Some (M', cbs @ map (\<lambda>i. timer_cb (objs M ! i)) ds)
         \<and> expire_post now M ds rs M'"
  using expire_loop_fold [OF assms] by blast

text \<open>\<open>tm_wf\<close> and the members of the set after the whole loop, for \<open>listExpireCb\<close>.\<close>

lemma due_frame [simp]:
  "due now (M\<lparr>m_preTime := t\<rparr>) = due now M"
  "pending now (M\<lparr>m_preTime := t\<rparr>) = pending now M"
  by (simp_all add: due_def pending_def)

lemma listExpireCb_due:
  assumes "tm_wf M" and "tp_sub (m_preTime M) (60 * 60 * 1000) \<le> now2"
    and "\<forall>i\<in>set (due now M). m_recurring (objs M ! i) \<longrightarrow> now < tp_add now (m_ms (objs M ! i))"
  shows "\<exists>M'. listExpireCb now now2 M cbs =
           Some (M', cbs @ map (\<lambda>i. timer_cb (objs M ! i)) (due now M))
         \<and> expire_post now (M\<lparr>m_preTime := now2\<rparr>) (due now M) (pending now M) M'"
proof -
  let ?M1 = "M\<lparr>m_preTime := now2\<rparr>"
  have "\<exists>M'. expire_loop False now ?M1 cbs =
      Some (M', cbs @ map (\<lambda>i. timer_cb (objs ?M1 ! i)) (due now M))
    \<and> expire_post now ?M1 (due now M) (pending now M) M'"
    using assms(1,3) m_timers_split [OF assms(1)]
    by (intro expire_loop_due) (auto simp: to_expire_def due_def pending_def)
  with assms(2) show ?thesis
    by (simp add: listExpireCb_def detectClockRollover_def not_less [THEN iffD2])
qed

section \<open>Steps and reachable managers\<close>

text \<open>
  Every operation of the manager and of a timer, as one step under the manager's lock (the two
  halves of \<open>reset\<close> together).
\<close>

inductive tm_step :: "timer_manager \<Rightarrow> timer_manager \<Rightarrow> bool" where
  add: "tm_step M (fst (snd (addTimer now ms cb r M)))"
| add_cond: "tm_step M (fst (snd (addConditionTimer now ms cb w r M)))"
| cancel: "i < length (objs M) \<Longrightarrow> tm_step M (snd (timer_cancel i M))"
| refresh: "i < length (objs M) \<Longrightarrow> tm_step M (snd (timer_refresh now i M))"
| reset: "i < length (objs M) \<Longrightarrow> tm_step M (fst (snd (timer_reset now ms from_now i M)))"
| get_next: "tm_step M (snd (getNextTimer now M))"
| expire: "listExpireCb now now2 M cbs = Some (M', cbs') \<Longrightarrow> tm_step M M'"

definition tm_init :: "timer_manager \<Rightarrow> bool" where
  "tm_init M \<longleftrightarrow> (\<exists>now. M = new_manager now)"

lemma listExpireCb_wf [wf_intros]:
  "tm_wf M \<Longrightarrow> listExpireCb now now2 M cbs = Some (M', cbs') \<Longrightarrow> tm_wf M'"
  using expire_loop_wf [of _ now "M\<lparr>m_preTime := now2\<rparr>" cbs M' cbs']
  by (simp add: listExpireCb_def detectClockRollover_def)

lemma tm_wf_step: "tm_step M M' \<Longrightarrow> tm_wf M \<Longrightarrow> tm_wf M'"
  by (induction rule: tm_step.induct)
    (auto simp: addConditionTimer_def intro: tm_wf_addTimer tm_wf_cancel tm_wf_refresh
      tm_wf_reset tm_wf_getNextTimer listExpireCb_wf)

interpretation timer_inv: inductive_invariant tm_init tm_step tm_wf
  by unfold_locales (auto simp: tm_init_def tm_wf_new_manager intro: tm_wf_step)

text \<open>A closure once taken from a timer never comes back, and no step but \<open>addTimer\<close> adds timers.\<close>

definition retired :: "timer_ptr \<Rightarrow> timer_manager \<Rightarrow> bool" where
  "retired i M \<longleftrightarrow> tm_wf M \<and> i < length (objs M) \<and> timer_cb (objs M ! i) = None
     \<and> i \<notin> set (m_timers M)"

lemma not_in_insert: "i \<notin> set xs \<Longrightarrow> i \<noteq> x \<Longrightarrow> i \<notin> set (set_insert k x xs)"
  using set_insert_subset [of k x xs] by auto

lemma not_in_erase: "i \<notin> set xs \<Longrightarrow> i \<notin> set (set_erase x xs)"
  by (auto simp: set_erase_def dest: set_remove1_subset [THEN subsetD])

lemma retired_addTimer: "retired i M \<Longrightarrow> retired i (fst (snd (addTimer now ms cb r M)))"
  using tm_wf_addTimer [of M now ms cb r]
  by (auto simp: retired_def addTimer_def Let_def addTimer_ptr_fst nth_append
      intro!: not_in_insert dest: not_in_insert)

lemma retired_cancel: "retired i M \<Longrightarrow> j < length (objs M) \<Longrightarrow> retired i (snd (timer_cancel j M))"
  using tm_wf_cancel [of M j]
  by (auto simp: retired_def timer_cancel_def Let_def objs_upd_timer not_in_erase
      split: option.splits)

lemma retired_refresh:
  "retired i M \<Longrightarrow> j < length (objs M) \<Longrightarrow> retired i (snd (timer_refresh now j M))"
  using tm_wf_refresh [of M j now]
  by (cases "i = j") (auto simp: retired_def timer_refresh_def Let_def objs_upd_timer
      not_in_erase not_in_insert split: option.splits)

lemma retired_reset:
  "retired i M \<Longrightarrow> j < length (objs M) \<Longrightarrow> retired i (fst (snd (timer_reset now ms fn j M)))"
  using tm_wf_reset [of M j now ms fn]
  by (cases "i = j") (auto simp: retired_def timer_reset_def timer_reset_take_def
      timer_reset_put_def addTimer_ptr_fst Let_def objs_upd_timer not_in_erase not_in_insert
      split: option.splits bool.splits if_splits)

lemma retired_getNextTimer: "retired i M \<Longrightarrow> retired i (snd (getNextTimer now M))"
  by (simp add: retired_def getNextTimer_def Let_def split: list.splits)

lemma retired_expire_one:
  assumes "retired i M" and "m_timers M = j # rest"
  shows "retired i (expire_one now j M)"
proof -
  have j: "j < length (objs M)" and "i \<noteq> j" and "i \<notin> set rest"
    using assms by (auto simp: retired_def tm_wf_def)
  then have "i \<notin> set (m_timers (expire_one now j M))"
    using assms(2) by (auto simp: expire_one_def Let_def not_in_insert)
  moreover have "tm_wf (expire_one now j M)"
    using assms by (simp add: retired_def tm_wf_expire_one)
  ultimately show ?thesis
    using assms(1) j \<open>i \<noteq> j\<close> by (simp add: retired_def objs_expire_one)
qed

lemma expire_loop_inv:
  assumes step: "\<And>M j rest. Q M \<Longrightarrow> m_timers M = j # rest \<Longrightarrow> Q (expire_one now j M)"
    and "expire_loop ro now M cbs = Some (M', cbs')" and "Q M"
  shows "Q M'"
proof -
  define P where "P \<equiv> \<lambda>(ro :: bool) (n :: time_point) M (cbs :: closure option list)
    (r :: timer_manager \<times> closure option list). n = now \<longrightarrow> Q M \<longrightarrow> Q (fst r)"
  have "P ro now M cbs (M', cbs')"
  proof (rule expire_loop.raw_induct [of P, OF _ assms(2)])
    fix f ro n M cbs r
    assume IH: "\<And>ro n M cbs r. f ro n M cbs = Some r \<Longrightarrow> P ro n M cbs r"
      and eq: "(case m_timers M of [] \<Rightarrow> Some (M, cbs)
        | i # x \<Rightarrow> if ro \<or> next_of M i \<le> n
            then f ro n (expire_one n i M) (cbs @ [timer_cb (objs M ! i)])
            else Some (M, cbs)) = Some r"
    show "P ro n M cbs r"
      using eq by (auto simp: P_def split: list.splits if_splits dest!: IH dest: step)
  qed
  with assms(3) show ?thesis by (simp add: P_def)
qed

lemma retired_expire:
  "retired i M \<Longrightarrow> listExpireCb now now2 M cbs = Some (M', cbs') \<Longrightarrow> retired i M'"
  using expire_loop_inv [of "retired i" now _ "M\<lparr>m_preTime := now2\<rparr>" cbs M' cbs']
    retired_expire_one [of i]
  by (auto simp: listExpireCb_def detectClockRollover_def) (simp_all add: retired_def)

lemma retired_step: "tm_step M M' \<Longrightarrow> retired i M \<Longrightarrow> retired i M'"
  by (induction rule: tm_step.induct)
    (auto simp: addConditionTimer_def intro: retired_addTimer retired_cancel retired_refresh
      retired_reset retired_getNextTimer retired_expire)

interpretation retired_inv: inductive_invariant "retired i" tm_step "retired i" for i
  by unfold_locales (auto intro: retired_step)

text \<open>A loop that cannot end: every timer recurs and is due again as soon as it is put back.\<close>

definition stuck :: "bool \<Rightarrow> time_point \<Rightarrow> timer_manager \<Rightarrow> bool" where
  "stuck ro now M \<longleftrightarrow> tm_wf M \<and> m_timers M \<noteq> [] \<and>
     (\<forall>i\<in>set (m_timers M). m_recurring (objs M ! i) \<and>
        (ro \<or> next_of M i \<le> now \<and> tp_add now (m_ms (objs M ! i)) \<le> now))"

lemma stuck_expire_one:
  assumes "stuck ro now M" and "m_timers M = i # rest"
  shows "stuck ro now (expire_one now i M)"
proof -
  have i: "i < length (objs M)" "m_recurring (objs M ! i)"
    using assms by (auto simp: stuck_def tm_wf_def)
  have sub: "set (m_timers (expire_one now i M)) \<subseteq> set (m_timers M)"
      and ne: "m_timers (expire_one now i M) \<noteq> []"
    using assms(2) i set_insert_subset by (fastforce simp: expire_one_def Let_def)+
  have "tm_wf (expire_one now i M)"
    using assms by (simp add: stuck_def tm_wf_expire_one)
  with sub ne show ?thesis
    using assms(1) i by (auto simp: stuck_def objs_expire_one expired_timer_def next_of_def)
qed

lemma stuck_loop: "stuck ro now M \<Longrightarrow> expire_loop ro now M cbs = None"
proof (rule ccontr)
  assume st: "stuck ro now M" and "expire_loop ro now M cbs \<noteq> None"
  then obtain r where r: "expire_loop ro now M cbs = Some r" by auto
  define P where "P \<equiv> \<lambda>ro now M (cbs :: closure option list)
    (r :: timer_manager \<times> closure option list). \<not> stuck ro now M"
  have "P ro now M cbs r"
  proof (rule expire_loop.raw_induct [of P, OF _ r])
    fix f ro n M cbs r
    assume IH: "\<And>ro n M cbs r. f ro n M cbs = Some r \<Longrightarrow> P ro n M cbs r"
      and eq: "(case m_timers M of [] \<Rightarrow> Some (M, cbs)
        | i # x \<Rightarrow> if ro \<or> next_of M i \<le> n
            then f ro n (expire_one n i M) (cbs @ [timer_cb (objs M ! i)])
            else Some (M, cbs)) = Some r"
    show "P ro n M cbs r"
      using eq by (auto simp: P_def split: list.splits if_splits dest!: IH
          dest: stuck_expire_one) (auto simp: stuck_def)
  qed
  with st show False by (simp add: P_def)
qed

section \<open>Properties\<close>

text \<open>
  Managers for the concrete instances: two timers of 5 ms and one of 9 ms, armed at time 0 and
  10 ns later, recurring or not.
\<close>

definition ex_manager :: "bool \<Rightarrow> timer_manager" where
  "ex_manager r =
     \<lparr>objs = [new_timer 0 5 (Some (User_cb 1)) r, new_timer 10 5 (Some (User_cb 2)) r,
              new_timer 0 9 (Some (User_cb 3)) r],
      m_timers = [0, 1, 2], m_tickled = False, m_preTime = 0\<rparr>"

lemmas time_eval = tp_add_def tp_sub_def ms_to_ns_def s64_def

lemma ex_manager_wf: "tm_wf (ex_manager r)"
  by (simp add: tm_wf_def ex_manager_def next_of_def new_timer_def time_eval)

text \<open>
  In every state the operations can reach, the set of timers is strictly ordered by next
  time and holds only existing timers, so \<open>*begin()\<close> is the earliest one and \<open>find\<close>, \<open>insert\<close>
  and \<open>erase\<close> are used within the contract of \<open>std::set\<close> although \<open>refresh\<close>, \<open>reset\<close> and
  \<open>listExpireCb\<close> change the keys of timers.
\<close>

theorem timers_stay_ordered:
  "reach tm_init tm_step M \<Longrightarrow> tm_wf M"
  by (rule timer_inv.reach_inv)

theorem timers_stay_ordered_witness:
  "tm_wf (fst (snd (addTimer 7 3 None True (new_manager 0))))"
proof -
  have "reach tm_init tm_step (new_manager 0)"
    by (rule reach_init) (auto simp: tm_init_def)
  then have "reach tm_init tm_step (fst (snd (addTimer 7 3 None True (new_manager 0))))"
    by (rule reach_step) (rule tm_step.add)
  then show ?thesis by (rule timers_stay_ordered)
qed

text \<open>
  C9: with no clock rollover, and when adding its period to the current time takes every due
  recurring timer past it (a positive period that does not overflow), \<open>listExpireCb\<close> ends, and
  appends exactly the closures of the timers that are due, earliest first. Afterwards the times
  in the set are those of the timers that were not due and, for each due recurring timer, one
  period from now: every one of these times has its timer, nothing else is in the set, and a
  due one-shot timer has given up its closure. (Of timers that would get the same time, only
  one is in the set.)
\<close>

theorem listExpireCb_delivers_due:
  assumes "tm_wf M" and "tp_sub (m_preTime M) (60 * 60 * 1000) \<le> now2"
    and "\<forall>i\<in>set (due now M). m_recurring (objs M ! i) \<longrightarrow> now < tp_add now (m_ms (objs M ! i))"
  shows "\<exists>M'. listExpireCb now now2 M cbs =
             Some (M', cbs @ map (\<lambda>i. timer_cb (objs M ! i)) (due now M))
           \<and> tm_wf M' \<and> m_preTime M' = now2
           \<and> set (pending now M) \<subseteq> set (m_timers M')
           \<and> set (m_timers M') \<subseteq> set (pending now M) \<union> recurring_in M (due now M)
           \<and> next_of M' ` set (m_timers M') =
               next_of M ` set (pending now M)
               \<union> (\<lambda>i. tp_add now (m_ms (objs M ! i))) ` recurring_in M (due now M)
           \<and> (\<forall>i\<in>set (m_timers M'). now < next_of M' i)
           \<and> (\<forall>i\<in>set (due now M). m_recurring (objs M ! i) \<longrightarrow>
                next_of M' i = tp_add now (m_ms (objs M ! i))
                \<and> timer_cb (objs M' ! i) = timer_cb (objs M ! i))
           \<and> (\<forall>i\<in>set (due now M). \<not> m_recurring (objs M ! i) \<longrightarrow> timer_cb (objs M' ! i) = None)"
proof -
  obtain M' where M': "listExpireCb now now2 M cbs =
        Some (M', cbs @ map (\<lambda>i. timer_cb (objs M ! i)) (due now M))"
      "expire_post now (M\<lparr>m_preTime := now2\<rparr>) (due now M) (pending now M) M'"
    using listExpireCb_due [OF assms] by blast
  have rec: "recurring_in (M\<lparr>m_preTime := now2\<rparr>) ds = recurring_in M ds" for ds
    by (simp add: recurring_in_def)
  have nx: "next_of (M\<lparr>m_preTime := now2\<rparr>) = next_of M"
    by (simp add: next_of_def fun_eq_iff)
  have img: "next_of M' ` set (m_timers M') = next_of M ` set (pending now M)
      \<union> (\<lambda>i. tp_add now (m_ms (objs M ! i))) ` recurring_in M (due now M)"
    using M'(2) by (simp add: expire_post_def rec nx)
  have "now < next_of M' i" if "i \<in> set (m_timers M')" for i
  proof -
    have "next_of M' i \<in> next_of M' ` set (m_timers M')" using that by simp
    then show ?thesis
      unfolding img using assms(3) by (auto simp: pending_def recurring_in_def)
  qed
  with M' img show ?thesis
    by (intro exI [of _ M']) (auto simp: expire_post_def rec expired_timer_def next_of_def)
qed

theorem listExpireCb_delivers_due_witness:
  "\<exists>M'. listExpireCb 6000000 0 (ex_manager True) [] = Some (M', [Some (User_cb 1), Some (User_cb 2)])"
proof -
  have "due 6000000 (ex_manager True) = [0, 1]"
    by (simp add: due_def ex_manager_def next_of_def new_timer_def time_eval)
  then show ?thesis
    using listExpireCb_delivers_due [of "ex_manager True" 0 6000000 "[]"] ex_manager_wf [of True]
    by (auto simp: ex_manager_def new_timer_def time_eval)
qed

text \<open>
  The loop of \<open>listExpireCb\<close> never ends when the set is not empty, all of its timers recur,
  and either the clock was found to have rolled back or the timers are due and their period,
  added to the current time, does not get past it (a period of 0, or one that overflows).
\<close>

theorem listExpireCb_diverges:
  assumes "tm_wf M" and "m_timers M \<noteq> []"
    and "\<forall>i\<in>set (m_timers M). m_recurring (objs M ! i)"
    and "now2 < tp_sub (m_preTime M) (60 * 60 * 1000)
         \<or> (\<forall>i\<in>set (m_timers M). next_of M i \<le> now \<and> tp_add now (m_ms (objs M ! i)) \<le> now)"
  shows "listExpireCb now now2 M cbs = None"
proof -
  have "stuck (now2 < tp_sub (m_preTime M) (60 * 60 * 1000)) now (M\<lparr>m_preTime := now2\<rparr>)"
    using assms by (auto simp: stuck_def)
  then show ?thesis
    by (simp add: listExpireCb_def detectClockRollover_def stuck_loop)
qed

theorem listExpireCb_diverges_witness:
  "listExpireCb 0 (- 7200000000000) (ex_manager True) [] = None"
  by (rule listExpireCb_diverges [OF ex_manager_wf])
    (auto simp: ex_manager_def new_timer_def time_eval)

text \<open>
  After a clock rollover of more than an hour, if no timer recurs, \<open>listExpireCb\<close> delivers
  every timer, due or not, in the order of their times, and empties the set.
\<close>

theorem listExpireCb_rollover_flushes:
  assumes "tm_wf M" and "now2 < tp_sub (m_preTime M) (60 * 60 * 1000)"
    and "\<forall>i\<in>set (m_timers M). \<not> m_recurring (objs M ! i)"
  shows "\<exists>M'. listExpireCb now now2 M cbs =
             Some (M', cbs @ map (\<lambda>i. timer_cb (objs M ! i)) (m_timers M))
           \<and> m_timers M' = []"
proof -
  have "\<exists>M'. expire_loop True now (M\<lparr>m_preTime := now2\<rparr>) cbs =
      Some (M', cbs @ map (\<lambda>i. timer_cb (objs (M\<lparr>m_preTime := now2\<rparr>) ! i)) (m_timers M))
    \<and> expire_post now (M\<lparr>m_preTime := now2\<rparr>) (m_timers M) [] M'"
    by (rule expire_loop_due) (use assms in \<open>auto simp: to_expire_def\<close>)
  moreover have "recurring_in (M\<lparr>m_preTime := now2\<rparr>) (m_timers M) = {}"
    using assms(3) by (auto simp: recurring_in_def)
  ultimately show ?thesis
    using assms(2) by (auto simp: listExpireCb_def detectClockRollover_def expire_post_def)
qed

theorem listExpireCb_rollover_flushes_witness:
  "\<exists>M'. listExpireCb 0 (- 7200000000000) (ex_manager False) [] =
     Some (M', [Some (User_cb 1), Some (User_cb 2), Some (User_cb 3)])"
  using listExpireCb_rollover_flushes [OF ex_manager_wf [of False], of "- 7200000000000" 0 "[]"]
  by (auto simp: ex_manager_def new_timer_def time_eval)

text \<open>
  Two different recurring timers of the same period that are due in the same call do not
  both survive it: they are put back with the same time, the set takes them for equal, and the
  one put back second is gone from the set although it still has its closure.
\<close>

theorem equal_periods_lose_a_timer:
  assumes "tm_wf M" and "tp_sub (m_preTime M) (60 * 60 * 1000) \<le> now2"
    and "\<forall>i\<in>set (due now M). m_recurring (objs M ! i) \<longrightarrow> now < tp_add now (m_ms (objs M ! i))"
    and "i \<in> set (due now M)" and "j \<in> set (due now M)" and "i \<noteq> j"
    and "m_recurring (objs M ! i)" and "m_recurring (objs M ! j)"
    and "m_ms (objs M ! i) = m_ms (objs M ! j)"
  shows "\<exists>M' cbs'. listExpireCb now now2 M cbs = Some (M', cbs')
           \<and> \<not> (i \<in> set (m_timers M') \<and> j \<in> set (m_timers M'))
           \<and> timer_cb (objs M' ! i) = timer_cb (objs M ! i)
           \<and> timer_cb (objs M' ! j) = timer_cb (objs M ! j)"
proof -
  obtain M' where M': "listExpireCb now now2 M cbs =
        Some (M', cbs @ map (\<lambda>i. timer_cb (objs M ! i)) (due now M))"
      "expire_post now (M\<lparr>m_preTime := now2\<rparr>) (due now M) (pending now M) M'"
    using listExpireCb_due [OF assms(1-3)] by blast
  then have "objs M' ! i = expired_timer now (objs M ! i)"
      and "objs M' ! j = expired_timer now (objs M ! j)" and "tm_wf M'"
    using assms(4,5) by (simp_all add: expire_post_def)
  moreover from this have "next_of M' i = next_of M' j"
    using assms(7-9) by (simp add: next_of_def expired_timer_def)
  ultimately show ?thesis
    using M'(1) assms(6-8) ordered_inj [of "next_of M'" "m_timers M'" i j]
    by (auto simp: tm_wf_def expired_timer_def)
qed

theorem equal_periods_lose_a_timer_witness:
  "\<exists>M' cbs'. listExpireCb 6000000 0 (ex_manager True) [] = Some (M', cbs')
     \<and> \<not> (0 \<in> set (m_timers M') \<and> 1 \<in> set (m_timers M'))
     \<and> timer_cb (objs M' ! 1) = Some (User_cb 2)"
proof -
  have "due 6000000 (ex_manager True) = [0, 1]"
    by (simp add: due_def ex_manager_def next_of_def new_timer_def time_eval)
  then show ?thesis
    using equal_periods_lose_a_timer [of "ex_manager True" 0 6000000 0 1 "[]"]
      ex_manager_wf [of True]
    by (auto simp: ex_manager_def new_timer_def time_eval)
qed

text \<open>
  \<open>addTimer\<close> arms a new timer at \<open>now + ms\<close>. If no stored timer has exactly that time it
  joins the set and the others stay; if one has, the set does not change and the new timer is
  returned to the caller without being armed. \<open>onTimerInsertedAtFront\<close> is called exactly when
  nothing stored is earlier and the front has not been announced since the last
  \<open>getNextTimer\<close>.
\<close>

theorem addTimer_arms_unless_same_time:
  assumes "tm_wf M" and "addTimer now ms cb r M = (i, M', front)"
  shows "objs M' = objs M @ [new_timer now ms cb r] \<and> i = length (objs M)
       \<and> set (m_timers M') =
           (if \<exists>j\<in>set (m_timers M). next_of M j = tp_add now ms then set (m_timers M)
            else insert i (set (m_timers M)))
       \<and> (front \<longleftrightarrow> \<not> m_tickled M \<and> (\<forall>j\<in>set (m_timers M). tp_add now ms \<le> next_of M j))
       \<and> m_tickled M' = (m_tickled M \<or> front)"
proof -
  let ?M1 = "M\<lparr>objs := objs M @ [new_timer now ms cb r]\<rparr>" and ?i = "length (objs M)"
  have old: "next_of ?M1 j = next_of M j" if "j \<in> set (m_timers M)" for j
    using assms(1) that by (auto simp: next_of_def nth_append tm_wf_def)
  have new: "next_of ?M1 ?i = tp_add now ms"
    by (simp add: next_of_def new_timer_def)
  have ord: "ordered (next_of ?M1) (m_timers M)"
    using tm_wf_alloc [OF assms(1)] by (simp add: tm_wf_def)
  have i: "i = ?i" and M': "M' = fst (addTimer_ptr ?i ?M1)" and fr: "front = snd (addTimer_ptr ?i ?M1)"
    using assms(2) by (auto simp: addTimer_def Let_def)
  have "set (m_timers M') = (if \<exists>j\<in>set (m_timers M). next_of M j = tp_add now ms
      then set (m_timers M) else insert i (set (m_timers M)))"
    using set_insert_fresh [of "m_timers M" "next_of ?M1" ?i] set_insert_equiv [OF ord, of _ ?i] old new
    by (auto simp: M' i addTimer_ptr_fst)
  moreover have pos0: "set_insert_pos (next_of ?M1) ?i (m_timers M) = 0 \<longleftrightarrow>
      (\<forall>j\<in>set (m_timers M). tp_add now ms \<le> next_of M j)"
    using ord old new by (cases "m_timers M") (auto simp: order_le_less_trans less_imp_le)
  ultimately show ?thesis
    by (auto simp: i M' fr addTimer_ptr_fst addTimer_ptr_def Let_def)
qed

theorem addTimer_arms_unless_same_time_witness:
  "\<exists>M'. addTimer 4 5 None False (ex_manager False) = (3, M', False)
     \<and> set (m_timers M') = {0, 1, 2, 3}"
proof -
  obtain i M' front where a: "addTimer 4 5 None False (ex_manager False) = (i, M', front)"
    by (cases "addTimer 4 5 None False (ex_manager False)") auto
  from addTimer_arms_unless_same_time [OF ex_manager_wf a] a show ?thesis
    by (auto simp: ex_manager_def next_of_def new_timer_def time_eval)
qed

text \<open>
  \<open>cancel\<close> of an armed timer returns true, takes that timer and no other out of the set,
  and drops its closure; a second \<open>cancel\<close> returns false and changes nothing.
\<close>

theorem cancel_disarms:
  assumes "tm_wf M" and "i \<in> set (m_timers M)" and "timer_cb (objs M ! i) \<noteq> None"
  shows "\<exists>M'. timer_cancel i M = (True, M')
           \<and> set (m_timers M') = set (m_timers M) - {i}
           \<and> timer_cb (objs M' ! i) = None
           \<and> (\<forall>j. j \<noteq> i \<longrightarrow> objs M' ! j = objs M ! j)
           \<and> timer_cancel i M' = (False, M')"
proof -
  let ?M1 = "upd_timer i (\<lambda>t. t\<lparr>timer_cb := None\<rparr>) M"
  have i: "i < length (objs M)" and ord: "ordered (next_of M) (m_timers M)"
    using assms(1,2) by (auto simp: tm_wf_def)
  have "set_find (next_of M) i (m_timers M) = Some i"
    using ord assms(2) by (rule set_find_self)
  then have "timer_cancel i M = (True, ?M1\<lparr>m_timers := set_erase i (m_timers M)\<rparr>)"
    using assms(3) i by (simp add: timer_cancel_def Let_def next_of_upd_timer)
  then show ?thesis
    using i ord by (auto simp: set_set_erase objs_upd_timer timer_cancel_def)
qed

theorem cancel_disarms_witness:
  "\<exists>M'. timer_cancel 1 (ex_manager False) = (True, M') \<and> set (m_timers M') = {0, 2}"
  using cancel_disarms [OF ex_manager_wf, of 1 False]
  by (fastforce simp: ex_manager_def new_timer_def)

text \<open>
  A timer that is out of the set and has given up its closure (cancelled, or a one-shot timer
  that has fired) stays so whatever operations follow: it never fires again, and later
  \<open>refresh\<close>, \<open>reset\<close> or \<open>cancel\<close> calls on it do not arm it.
\<close>

theorem retired_timers_stay_retired:
  assumes "tm_wf M" and "i < length (objs M)" and "timer_cb (objs M ! i) = None"
    and "i \<notin> set (m_timers M)" and "tm_step\<^sup>*\<^sup>* M M'"
  shows "timer_cb (objs M' ! i) = None \<and> i \<notin> set (m_timers M')"
proof -
  have "retired i M" using assms(1-4) by (simp add: retired_def)
  with assms(5) have "retired i M'" by (rule retired_inv.steps_inv)
  then show ?thesis by (simp add: retired_def)
qed

theorem retired_timers_stay_retired_witness:
  "\<exists>M. timer_cancel 1 (ex_manager False) = (True, M)
     \<and> 1 \<notin> set (m_timers (fst (snd (timer_reset 9 4 True 1 M))))"
proof -
  let ?M = "\<lparr>objs = [new_timer 0 5 (Some (User_cb 1)) False, new_timer 10 5 None False,
              new_timer 0 9 (Some (User_cb 3)) False],
      m_timers = [0, 2], m_tickled = False, m_preTime = 0\<rparr>"
  have M: "timer_cancel 1 (ex_manager False) = (True, ?M)"
    by (simp add: timer_cancel_def ex_manager_def new_timer_def upd_timer_def next_of_def
        set_erase_def time_eval)
  then have wf: "tm_wf ?M"
    using tm_wf_cancel [OF ex_manager_wf [of False], of 1] by (simp add: ex_manager_def)
  have "tm_step\<^sup>*\<^sup>* ?M (fst (snd (timer_reset 9 4 True 1 ?M)))"
    by (intro r_into_rtranclp tm_step.reset) simp
  from retired_timers_stay_retired [OF wf _ _ _ this, of 1] M show ?thesis
    by (auto simp: new_timer_def)
qed

text \<open>
  The two locked sections of \<open>reset\<close> are not one: if another thread cancels the timer
  between them, \<open>cancel\<close> reports success, and yet the timer ends up armed (unless another timer
  has the very same time), with no closure and out of reach of any further \<open>cancel\<close>.
\<close>

theorem reset_cancel_race:
  assumes "tm_wf M" and "i \<in> set (m_timers M)" and "timer_cb (objs M ! i) \<noteq> None"
  shows "\<exists>M1 M2 M3 front.
           timer_reset_take i M = (True, M1) \<and> timer_cancel i M1 = (True, M2)
         \<and> timer_reset_put now ms from_now i M2 = (M3, front)
         \<and> timer_cb (objs M3 ! i) = None
         \<and> (i \<in> set (m_timers M3) \<or> (\<exists>j\<in>set (m_timers M2). next_of M3 j = next_of M3 i))
         \<and> timer_cancel i M3 = (False, M3)"
proof -
  have i: "i < length (objs M)" and ord: "ordered (next_of M) (m_timers M)"
    using assms(1,2) by (auto simp: tm_wf_def)
  have "set_find (next_of M) i (m_timers M) = Some i"
    using ord assms(2) by (rule set_find_self)
  then have M1: "timer_reset_take i M = (True, M\<lparr>m_timers := set_erase i (m_timers M)\<rparr>)"
    using assms(3) by (simp add: timer_reset_take_def)
  define M1 where "M1 = M\<lparr>m_timers := set_erase i (m_timers M)\<rparr>"
  define M2 where "M2 = snd (timer_cancel i M1)"
  have obj1: "objs M1 = objs M" by (simp add: M1_def)
  have M2: "timer_cancel i M1 = (True, M2)" and len2: "length (objs M2) = length (objs M)"
      and cb2: "timer_cb (objs M2 ! i) = None"
    using assms(3) i
    by (auto simp: M2_def timer_cancel_def Let_def obj1 objs_upd_timer split: option.splits)
  define M3 where "M3 = fst (timer_reset_put now ms from_now i M2)"
  have cb3: "timer_cb (objs M3 ! i) = None"
    using cb2 i len2 by (simp add: M3_def timer_reset_put_def Let_def addTimer_ptr_fst objs_upd_timer)
  have "i \<in> set (m_timers M3) \<or> (\<exists>j\<in>set (m_timers M2). next_of M3 j = next_of M3 i)"
    using addTimer_ptr_armed [of i "upd_timer i _ M2"]
    by (simp add: M3_def timer_reset_put_def Let_def)
  moreover have "timer_cancel i M3 = (False, M3)"
    using cb3 by (simp add: timer_cancel_def)
  ultimately show ?thesis
    using M1 M2 cb3 unfolding M1_def [symmetric] M3_def
    by (metis prod.collapse)
qed

theorem reset_cancel_race_witness:
  "\<exists>M1 M2. timer_reset_take 0 (ex_manager True) = (True, M1) \<and> timer_cancel 0 M1 = (True, M2)
     \<and> 0 \<in> set (m_timers (fst (timer_reset_put 0 3 True 0 M2)))"
proof -
  obtain M1 M2 where r: "timer_reset_take 0 (ex_manager True) = (True, M1)"
      "timer_cancel 0 M1 = (True, M2)"
    using reset_cancel_race [OF ex_manager_wf, of 0 True 0 3 True]
    by (auto simp: ex_manager_def new_timer_def)
  then have "M1 = (ex_manager True)\<lparr>m_timers := [1, 2]\<rparr>"
    by (simp add: timer_reset_take_def ex_manager_def new_timer_def next_of_def set_erase_def
        time_eval)
  with r show ?thesis
    by (auto simp: timer_cancel_def ex_manager_def new_timer_def next_of_def upd_timer_def
        timer_reset_put_def addTimer_ptr_fst Let_def time_eval)
qed

text \<open>
  \<open>cancel\<close> of a timer that is not in the set (because \<open>addTimer\<close> found another one with the
  same time) disarms that other timer, which keeps its closure and never fires.
\<close>

theorem cancel_may_disarm_another:
  assumes "tm_wf M" and "i < length (objs M)" and "i \<notin> set (m_timers M)"
    and "timer_cb (objs M ! i) \<noteq> None" and "j \<in> set (m_timers M)" and "next_of M j = next_of M i"
  shows "\<exists>M'. timer_cancel i M = (True, M') \<and> set (m_timers M') = set (m_timers M) - {j}
           \<and> timer_cb (objs M' ! j) = timer_cb (objs M ! j)"
proof -
  have ord: "ordered (next_of M) (m_timers M)" using assms(1) by (simp add: tm_wf_def)
  have "set_find (next_of M) i (m_timers M) = Some j"
    using ord assms(5,6) by (rule set_find_equiv)
  moreover have "j \<noteq> i" using assms(3,5) by auto
  ultimately show ?thesis
    using assms(2,4) ord
    by (auto simp: timer_cancel_def Let_def next_of_upd_timer objs_upd_timer set_set_erase)
qed

theorem cancel_may_disarm_another_witness:
  "\<exists>M M'. addTimer 0 5 (Some (User_cb 4)) False (ex_manager False) = (3, M, True)
     \<and> timer_cancel 3 M = (True, M') \<and> 0 \<notin> set (m_timers M')"
proof -
  let ?M = "(ex_manager False)\<lparr>objs := objs (ex_manager False) @
      [new_timer 0 5 (Some (User_cb 4)) False], m_tickled := True\<rparr>"
  have add: "addTimer 0 5 (Some (User_cb 4)) False (ex_manager False) = (3, ?M, True)"
    by (simp add: addTimer_def addTimer_ptr_def ex_manager_def next_of_def new_timer_def Let_def
        time_eval)
  have wf: "tm_wf ?M"
    using tm_wf_addTimer [OF ex_manager_wf [of False], of 0 5 "Some (User_cb 4)" False]
    by (simp only: add fst_conv snd_conv)
  obtain M' where "timer_cancel 3 ?M = (True, M')" "0 \<notin> set (m_timers M')"
    using cancel_may_disarm_another [OF wf, of 3 0]
    by (auto simp: ex_manager_def next_of_def new_timer_def time_eval)
  with add show ?thesis by blast
qed

lemma getNextTimer_spec:
  assumes "tm_wf M" and "0 \<le> now" and "\<forall>i\<in>set (m_timers M). next_of M i < 2 ^ 63"
    and "getNextTimer now M = (w, M')"
  shows "M' = M\<lparr>m_tickled := False\<rparr>
       \<and> (w = - 1 \<longleftrightarrow> m_timers M = [])
       \<and> (\<forall>i\<in>set (m_timers M). now + uint w * 1000000 \<le> max now (next_of M i))
       \<and> (m_timers M \<noteq> [] \<longrightarrow>
            (\<exists>i\<in>set (m_timers M). next_of M i < now + (uint w + 1) * 1000000))"
proof (cases "m_timers M")
  case Nil
  with assms(4) show ?thesis by (auto simp: getNextTimer_def Let_def)
next
  case (Cons i rest)
  have M': "M' = M\<lparr>m_tickled := False\<rparr>"
    using assms(4) Cons by (auto simp: getNextTimer_def Let_def split: if_splits)
  have first: "\<forall>j\<in>set (m_timers M). next_of M i \<le> next_of M j"
    using assms(1) Cons by (auto simp: tm_wf_def)
  define d where "d = next_of M i - now"
  have d: "d < 2 ^ 63" using assms(2,3) Cons by (simp add: d_def)
  have w: "w = (if d \<le> 0 then 0 else word_of_int (d div 1000000))"
    using assms(4) Cons d
    by (auto simp: getNextTimer_def Let_def ns_to_ms_def s64_id d_def split: if_splits)
  have uw: "uint w = (if d \<le> 0 then 0 else d div 1000000)"
    using d by (auto simp: w uint_word_of_int take_bit_eq_mod)
  then have "uint w < 2 ^ 63" using d by auto
  then have "w \<noteq> - 1" by (auto simp: uint_minus_1_u64)
  moreover have "now + uint w * 1000000 \<le> max now (next_of M i)"
      and "next_of M i < now + (uint w + 1) * 1000000"
    using uw by (auto simp: d_def)
  ultimately show ?thesis
    using M' first Cons by (auto intro: order_trans [OF _ max.mono [OF order_refl]])
qed

text \<open>
  \<open>getNextTimer\<close> is the time to the earliest timer in whole milliseconds, rounded down: a
  caller that waits that long does not oversleep it and wakes less than a millisecond early; it
  is 0 when that timer is due, and the sentinel \<open>~0ull\<close> exactly when there is no timer, which is
  what \<open>IOManager::stopping\<close> tests.
\<close>

theorem getNextTimer_never_oversleeps:
  assumes "tm_wf M" and "0 \<le> now" and "\<forall>i\<in>set (m_timers M). next_of M i < 2 ^ 63"
    and "getNextTimer now M = (w, M')"
  shows "M' = M\<lparr>m_tickled := False\<rparr>
       \<and> (w = - 1 \<longleftrightarrow> m_timers M = [])
       \<and> (\<forall>i\<in>set (m_timers M). now + uint w * 1000000 \<le> max now (next_of M i))
       \<and> (m_timers M \<noteq> [] \<longrightarrow>
            (\<exists>i\<in>set (m_timers M). next_of M i < now + (uint w + 1) * 1000000))"
  by (rule getNextTimer_spec [OF assms])

theorem getNextTimer_never_oversleeps_witness:
  "fst (getNextTimer 1500000 (ex_manager False)) \<noteq> - 1"
  using getNextTimer_never_oversleeps [OF ex_manager_wf [of False], of 1500000]
  by (cases "getNextTimer 1500000 (ex_manager False)")
    (simp add: ex_manager_def next_of_def new_timer_def time_eval)

text \<open>
  What \<open>refresh\<close> and \<open>reset\<close> share: a timer taken out of the set, given a new time and put
  back.
\<close>

definition rearmed :: "timer_ptr \<Rightarrow> u64 \<Rightarrow> time_point \<Rightarrow> timer_manager \<Rightarrow> timer_manager \<Rightarrow> bool" where
  "rearmed i ms t M M' \<longleftrightarrow>
     objs M' = (objs M)[i := (objs M ! i)\<lparr>m_ms := ms, m_next := t\<rparr>]
     \<and> set (m_timers M') =
         (if \<exists>j\<in>set (m_timers M) - {i}. next_of M j = t then set (m_timers M) - {i}
          else set (m_timers M))"

lemma rearm:
  assumes "tm_wf M" and "i \<in> set (m_timers M)"
  defines "M1 \<equiv> M\<lparr>m_timers := set_erase i (m_timers M)\<rparr>"
  assumes "objs N = (objs M)[i := (objs M ! i)\<lparr>m_ms := ms, m_next := t\<rparr>]"
    and "m_timers N = set_insert (next_of N) i (m_timers M1)"
  shows "rearmed i ms t M N"
proof -
  have ord: "ordered (next_of M) (m_timers M)" and i: "i < length (objs M)"
    using assms(1,2) by (auto simp: tm_wf_def)
  have s1: "set (m_timers M1) = set (m_timers M) - {i}"
    using ord by (simp add: M1_def set_set_erase)
  have nx: "next_of N = (next_of M)(i := t)"
    using assms(4) i by (auto simp: next_of_def fun_eq_iff nth_list_update)
  have "ordered (next_of N) (m_timers M1)"
    using ord s1 by (simp add: nx ordered_key_upd) (simp add: M1_def ordered_set_erase)
  then have "set (m_timers N) = (if \<exists>j\<in>set (m_timers M) - {i}. next_of N j = next_of N i
      then set (m_timers M) - {i} else insert i (set (m_timers M) - {i}))"
    unfolding assms(5) by (simp only: set_of_set_insert s1)
  with assms(2,4) show ?thesis by (auto simp: rearmed_def nx)
qed

text \<open>
  \<open>refresh\<close> and \<open>reset\<close> of an armed timer succeed and move only that timer: \<open>refresh\<close> to
  \<open>now + ms\<close> with its own period, \<open>reset\<close> to the new period counted from now or, without
  \<open>from_now\<close>, from the moment the old period was counted from. The timer leaves the set only if
  another one already has the new time.
\<close>

theorem refresh_reset_rearm:
  assumes "tm_wf M" and "i \<in> set (m_timers M)" and "timer_cb (objs M ! i) \<noteq> None"
    and "ms \<noteq> m_ms (objs M ! i) \<or> from_now"
  shows "\<exists>M1 M2 front. timer_refresh now i M = (True, M1)
           \<and> rearmed i (m_ms (objs M ! i)) (tp_add now (m_ms (objs M ! i))) M M1
           \<and> timer_reset now ms from_now i M = (True, M2, front)
           \<and> rearmed i ms (tp_add (if from_now then now
                            else tp_sub (next_of M i) (m_ms (objs M ! i))) ms) M M2"
proof -
  obtain c where c: "timer_cb (objs M ! i) = Some c" using assms(3) by auto
  have i: "i < length (objs M)" and find: "set_find (next_of M) i (m_timers M) = Some i"
    using assms(1,2) by (auto simp: tm_wf_def set_find_self)
  then have take: "timer_reset_take i M = (True, M\<lparr>m_timers := set_erase i (m_timers M)\<rparr>)"
      and "timer_refresh now i M = (True, snd (timer_refresh now i M))"
    using assms(3) by (simp_all add: timer_reset_take_def timer_refresh_def Let_def)
  moreover have "rearmed i (m_ms (objs M ! i)) (tp_add now (m_ms (objs M ! i))) M
      (snd (timer_refresh now i M))"
    using assms(1,2) find c
    by (intro rearm) (simp_all add: timer_refresh_def Let_def upd_timer_def next_of_def [abs_def])
  moreover obtain M2 front where put: "timer_reset now ms from_now i M = (True, M2, front)"
    using take assms(4) by (fastforce simp: timer_reset_def)
  moreover have "rearmed i ms (tp_add (if from_now then now
      else tp_sub (next_of M i) (m_ms (objs M ! i))) ms) M M2"
  proof -
    have "M2 = fst (timer_reset_put now ms from_now i (M\<lparr>m_timers := set_erase i (m_timers M)\<rparr>))"
      using put take assms(4) by (auto simp: timer_reset_def split: if_splits)
    then show ?thesis
      using assms(1,2) by (intro rearm)
        (simp_all add: timer_reset_put_def Let_def addTimer_ptr_fst upd_timer_def
          next_of_def [abs_def])
  qed
  ultimately show ?thesis by blast
qed

theorem refresh_reset_rearm_witness:
  "fst (timer_refresh 1 1 (ex_manager False)) \<and> fst (timer_reset 1 7 False 1 (ex_manager False))"
  using refresh_reset_rearm [OF ex_manager_wf [of False], of 1 7 False 1]
  by (auto simp: ex_manager_def new_timer_def)

end
