(* ===== verification/Alarm_Table.thy ===== *)
theory Alarm_Table
  imports Timers
begin

text \<open>
  What users of \<open>code/timer.h\<close> see of a timer manager: a table of alarms by their time. The set of
  pointers, the timer objects and the order of changes to keys are details; every operation
  of the manager is an operation of the table. The locale \<open>alarm_service\<close> states this contract.
\<close>

section \<open>The table of alarms\<close>

text \<open>An alarm is a closure and, when it recurs, its period.\<close>

type_synonym alarm = "closure option \<times> u64 option"
type_synonym alarm_table = "time_point \<rightharpoonup> alarm"

definition mk_alarm :: "closure option \<Rightarrow> u64 \<Rightarrow> bool \<Rightarrow> alarm" where
  "mk_alarm cb ms recurring = (cb, if recurring then Some ms else None)"

definition alarm_of :: "timer \<Rightarrow> alarm" where
  "alarm_of t = mk_alarm (timer_cb t) (m_ms t) (m_recurring t)"

definition alarms :: "timer_manager \<Rightarrow> alarm_table" where
  "alarms M = map_of (map (\<lambda>i. (next_of M i, alarm_of (objs M ! i))) (m_timers M))"

text \<open>
  Arming takes a free time and leaves a taken one alone. An alarm that fires leaves the table;
  when it recurs it is armed again, one period from now.
\<close>

definition at_arm :: "time_point \<Rightarrow> alarm \<Rightarrow> alarm_table \<Rightarrow> alarm_table" where
  "at_arm t a A = (if A t = None then A(t \<mapsto> a) else A)"

definition at_fire :: "time_point \<Rightarrow> time_point \<Rightarrow> alarm_table \<Rightarrow> alarm_table" where
  "at_fire now t A =
     (case A t of
        Some (cb, Some ms) \<Rightarrow> at_arm (tp_add now ms) (cb, Some ms) (A(t := None))
      | _ \<Rightarrow> A(t := None))"

text \<open>The times that expire, in order; all of them when the clock has rolled back.\<close>

definition at_due :: "bool \<Rightarrow> time_point \<Rightarrow> alarm_table \<Rightarrow> time_point list" where
  "at_due rollover now A = sorted_list_of_set {t \<in> dom A. rollover \<or> t \<le> now}"

definition at_closures :: "alarm_table \<Rightarrow> time_point list \<Rightarrow> closure option list" where
  "at_closures A ts = map (\<lambda>t. fst (the (A t))) ts"

definition at_expire :: "bool \<Rightarrow> time_point \<Rightarrow> alarm_table \<Rightarrow> alarm_table" where
  "at_expire rollover now A = fold (at_fire now) (at_due rollover now A) A"

text \<open>No alarm that expires will be due again at once.\<close>

definition at_settles :: "bool \<Rightarrow> time_point \<Rightarrow> alarm_table \<Rightarrow> bool" where
  "at_settles rollover now A \<longleftrightarrow>
     (\<forall>t cb ms. A t = Some (cb, Some ms) \<and> (rollover \<or> t \<le> now)
        \<longrightarrow> \<not> rollover \<and> now < tp_add now ms)"

text \<open>To the contrary: every alarm will always be due again at once.\<close>

definition at_spins :: "bool \<Rightarrow> time_point \<Rightarrow> alarm_table \<Rightarrow> bool" where
  "at_spins rollover now A \<longleftrightarrow> A \<noteq> Map.empty \<and>
     (\<forall>t cb p. A t = Some (cb, p) \<longrightarrow>
        (\<exists>ms. p = Some ms \<and> (rollover \<or> t \<le> now \<and> tp_add now ms \<le> now)))"

definition at_wait :: "time_point \<Rightarrow> alarm_table \<Rightarrow> u64" where
  "at_wait now A =
     (if A = Map.empty then - 1
      else if Min (dom A) \<le> now then 0
      else word_of_int (ns_to_ms (s64 (Min (dom A) - now))))"

lemma at_arm_keeps: "A t = Some a \<Longrightarrow> at_arm u b A t = Some a"
  by (auto simp: at_arm_def)

lemma at_arm_free: "A t = None \<Longrightarrow> at_arm t a A = A(t \<mapsto> a)"
  by (simp add: at_arm_def)

lemma at_fire_other: "A t = Some a \<Longrightarrow> t \<noteq> u \<Longrightarrow> at_fire now u A t = Some a"
  by (auto simp: at_fire_def at_arm_def split: option.splits)

lemma fold_fire_other: "A t = Some a \<Longrightarrow> t \<notin> set ts \<Longrightarrow> fold (at_fire now) ts A t = Some a"
  by (induction ts arbitrary: A) (auto simp: at_fire_other)

text \<open>A time that fires, or was free, is free after the whole turn unless something recurs to it.\<close>

lemma fold_fire_clears:
  assumes "t \<notin> set ts \<longrightarrow> A t = None" and "distinct ts"
    and "\<forall>u\<in>set ts. A u \<noteq> None \<and> (\<forall>cb ms. A u = Some (cb, Some ms) \<longrightarrow> tp_add now ms \<noteq> t)"
  shows "fold (at_fire now) ts A t = None"
  using assms
proof (induction ts arbitrary: A)
  case Nil
  then show ?case by simp
next
  case (Cons u ts)
  have "at_fire now u A t = None" if "t \<notin> set ts"
    using Cons.prems(1,3) that
    by (auto simp: at_fire_def at_arm_def split: option.splits if_splits)
  moreover have "at_fire now u A v = A v" if "v \<in> set ts" for v
    using Cons.prems(2,3) that at_fire_other [of A v _ u now] by fastforce
  ultimately show ?case
    using Cons.prems(2,3) by (auto intro!: Cons.IH)
qed

lemma distinct_at_due [simp]: "distinct (at_due ro now A)"
  by (simp add: at_due_def)

section \<open>The table of a manager\<close>

lemma distinct_keys: "ordered k xs \<Longrightarrow> distinct (map k xs)"
  by (induction xs) auto

lemma alarms_Some:
  assumes "tm_wf M"
  shows "alarms M t = Some a \<longleftrightarrow>
    (\<exists>i\<in>set (m_timers M). next_of M i = t \<and> alarm_of (objs M ! i) = a)"
proof -
  have "distinct (map fst (map (\<lambda>i. (next_of M i, alarm_of (objs M ! i))) (m_timers M)))"
    using assms distinct_keys [of "next_of M" "m_timers M"] by (simp add: tm_wf_def comp_def)
  then show ?thesis by (auto simp: alarms_def map_of_eq_Some_iff)
qed

lemma alarms_None: "alarms M t = None \<longleftrightarrow> (\<forall>i\<in>set (m_timers M). next_of M i \<noteq> t)"
  by (simp add: alarms_def map_of_eq_None_iff image_image) blast

lemma dom_alarms: "dom (alarms M) = next_of M ` set (m_timers M)"
  by (auto simp: alarms_def dom_map_of_conv_image_fst image_iff)

lemma finite_dom_alarms [simp]: "finite (dom (alarms M))"
  by (simp add: dom_alarms)

lemma alarms_member:
  "tm_wf M \<Longrightarrow> i \<in> set (m_timers M) \<Longrightarrow> alarms M (next_of M i) = Some (alarm_of (objs M ! i))"
  by (auto simp: alarms_Some)

lemma alarms_eqI:
  assumes "tm_wf M"
    and "\<And>t a. A t = Some a \<longleftrightarrow>
           (\<exists>i\<in>set (m_timers M). next_of M i = t \<and> alarm_of (objs M ! i) = a)"
  shows "alarms M = A"
proof
  fix t
  have "\<And>a. alarms M t = Some a \<longleftrightarrow> A t = Some a"
    using assms by (simp add: alarms_Some)
  then show "alarms M t = A t" by (metis option.exhaust)
qed

lemma alarms_frame [simp]:
  "alarms (M\<lparr>m_tickled := b\<rparr>) = alarms M"
  "alarms (M\<lparr>m_preTime := t\<rparr>) = alarms M"
  by (simp_all add: alarms_def next_of_def)

lemma alarms_insert:
  assumes "tm_wf M" and "i < length (objs M)"
  shows "alarms (M\<lparr>m_timers := set_insert (next_of M) i (m_timers M)\<rparr>) =
    at_arm (next_of M i) (alarm_of (objs M ! i)) (alarms M)"
proof (rule alarms_eqI)
  have "set (set_insert (next_of M) i (m_timers M)) =
      (if \<exists>j\<in>set (m_timers M). next_of M j = next_of M i then set (m_timers M)
       else insert i (set (m_timers M)))"
    using assms(1) by (intro set_of_set_insert) (simp add: tm_wf_def)
  moreover have "alarms M (next_of M i) = None \<longleftrightarrow>
      \<not> (\<exists>j\<in>set (m_timers M). next_of M j = next_of M i)"
    by (simp add: alarms_None)
  ultimately show "at_arm (next_of M i) (alarm_of (objs M ! i)) (alarms M) t = Some a \<longleftrightarrow>
      (\<exists>j\<in>set (m_timers (M\<lparr>m_timers := set_insert (next_of M) i (m_timers M)\<rparr>)).
         next_of (M\<lparr>m_timers := set_insert (next_of M) i (m_timers M)\<rparr>) j = t
         \<and> alarm_of (objs (M\<lparr>m_timers := set_insert (next_of M) i (m_timers M)\<rparr>) ! j) = a)" for t a
    using assms(1) by (auto simp: at_arm_def alarms_Some)
qed (rule tm_wf_insert [OF assms])

lemma alarms_erase:
  assumes "tm_wf M" and "j \<in> set (m_timers M)"
  shows "alarms (M\<lparr>m_timers := set_erase j (m_timers M)\<rparr>) = (alarms M)(next_of M j := None)"
proof (rule alarms_eqI)
  have "ordered (next_of M) (m_timers M)" using assms(1) by (simp add: tm_wf_def)
  then have "set (set_erase j (m_timers M)) = {i \<in> set (m_timers M). next_of M i \<noteq> next_of M j}"
    using assms(2) by (auto simp: set_set_erase dest: ordered_inj)
  then show "((alarms M)(next_of M j := None)) t = Some a \<longleftrightarrow>
      (\<exists>i\<in>set (m_timers (M\<lparr>m_timers := set_erase j (m_timers M)\<rparr>)).
         next_of (M\<lparr>m_timers := set_erase j (m_timers M)\<rparr>) i = t
         \<and> alarm_of (objs (M\<lparr>m_timers := set_erase j (m_timers M)\<rparr>) ! i) = a)" for t a
    using assms(1) by (auto simp: alarms_Some)
qed (rule tm_wf_erase [OF assms(1)])

lemma alarms_upd_timer:
  assumes "i \<notin> set (m_timers M)"
  shows "alarms (upd_timer i f M) = alarms M"
proof -
  have "(objs M)[i := f (objs M ! i)] ! j = objs M ! j" if "j \<in> set (m_timers M)" for j
    using that assms by (metis nth_list_update_neq)
  then show ?thesis
    unfolding alarms_def next_of_def upd_timer_def
    by (intro arg_cong [of _ _ map_of] map_cong) auto
qed

lemma alarms_alloc: "tm_wf M \<Longrightarrow> alarms (M\<lparr>objs := objs M @ [t]\<rparr>) = alarms M"
  unfolding alarms_def next_of_def
  by (intro arg_cong [of _ _ map_of] map_cong) (auto simp: nth_append tm_wf_def)

lemma set_find_alarms:
  "tm_wf M \<Longrightarrow> set_find (next_of M) i (m_timers M) = None \<longleftrightarrow> alarms M (next_of M i) = None"
  by (auto simp: set_find_None alarms_None tm_wf_def)

text \<open>Taking out what \<open>find\<close> returned frees the time of the timer asked for.\<close>

lemma alarms_take:
  assumes "tm_wf M" and "set_find (next_of M) i (m_timers M) = Some j"
  defines "N \<equiv> M\<lparr>m_timers := set_erase j (m_timers M)\<rparr>"
  shows "alarms N = (alarms M)(next_of M i := None)" and "tm_wf N" and "i \<notin> set (m_timers N)"
proof -
  have j: "j \<in> set (m_timers M)" "next_of M j = next_of M i"
    using set_find_Some [OF assms(2)] by auto
  show "alarms N = (alarms M)(next_of M i := None)"
    using alarms_erase [OF assms(1) j(1)] j(2) by (simp add: N_def)
  show "tm_wf N" unfolding N_def by (rule tm_wf_erase [OF assms(1)])
  show "i \<notin> set (m_timers N)"
    using assms(1) set_find_erased [OF _ assms(2)] by (simp add: N_def tm_wf_def)
qed

text \<open>A timer outside the set that is given a new time, perhaps a new period, and put back.\<close>

lemma alarms_put_back:
  fixes f :: "timer \<Rightarrow> timer"
  assumes "tm_wf N" and "i < length (objs N)" and "i \<notin> set (m_timers N)"
  defines "U \<equiv> upd_timer i f N"
  shows "alarms (U\<lparr>m_timers := set_insert (next_of U) i (m_timers U)\<rparr>) =
    at_arm (m_next (f (objs N ! i))) (alarm_of (f (objs N ! i))) (alarms N)"
proof -
  have "tm_wf U" and "i < length (objs U)"
    using assms by (simp_all add: U_def tm_wf_upd_timer)
  moreover have "objs U ! i = f (objs N ! i)" and "alarms U = alarms N"
    using assms(2,3) by (simp_all add: U_def objs_upd_timer alarms_upd_timer)
  ultimately show ?thesis by (simp add: alarms_insert next_of_def)
qed

section \<open>The operations on the table\<close>

text \<open>
  A timer in hand: an object that has not given up its closure. \<open>cancel\<close>, \<open>refresh\<close> and \<open>reset\<close>
  act on whatever alarm the table has at its time.
\<close>

definition holds :: "timer_manager \<Rightarrow> timer_ptr \<Rightarrow> time_point \<Rightarrow> bool" where
  "holds M i t \<longleftrightarrow> i < length (objs M) \<and> timer_cb (objs M ! i) \<noteq> None \<and> next_of M i = t"

lemma alarms_new_manager: "alarms (new_manager now) = Map.empty"
  by (simp add: alarms_def new_manager_def)

lemma alarms_addTimer_ptr:
  "tm_wf M \<Longrightarrow> i < length (objs M) \<Longrightarrow>
   alarms (fst (addTimer_ptr i M)) = at_arm (next_of M i) (alarm_of (objs M ! i)) (alarms M)"
  using alarms_insert [of M i] by (simp add: addTimer_ptr_fst alarms_def next_of_def)

lemma alarms_addTimer:
  assumes "tm_wf M"
  shows "alarms (fst (snd (addTimer now ms cb r M))) =
    at_arm (tp_add now ms) (mk_alarm cb ms r) (alarms M)"
  using alarms_addTimer_ptr [OF tm_wf_alloc [OF assms], of "length (objs M)"]
  by (simp add: addTimer_def Let_def alarms_alloc [OF assms] next_of_def new_timer_def alarm_of_def)

lemma alarms_cancel:
  assumes "tm_wf M" and "holds M i t"
  shows "\<exists>M'. timer_cancel i M = (True, M') \<and> alarms M' = (alarms M)(t := None)"
proof -
  let ?f = "\<lambda>t. t\<lparr>timer_cb := None\<rparr>"
  have t: "t = next_of M i" and i: "i < length (objs M)" and cb: "timer_cb (objs M ! i) \<noteq> None"
    using assms(2) by (auto simp: holds_def)
  have nx: "next_of (upd_timer i ?f M) = next_of M"
    using i by (simp add: next_of_upd_timer)
  show ?thesis
  proof (cases "set_find (next_of M) i (m_timers M)")
    case None
    then have "alarms M t = None" "i \<notin> set (m_timers M)"
      using assms(1) t by (auto simp: set_find_alarms alarms_None)
    with None cb show ?thesis
      by (simp add: timer_cancel_def Let_def nx alarms_upd_timer fun_upd_idem)
  next
    case (Some j)
    have "(upd_timer i ?f M)\<lparr>m_timers := set_erase j (m_timers M)\<rparr> =
        upd_timer i ?f (M\<lparr>m_timers := set_erase j (m_timers M)\<rparr>)"
      by (simp add: upd_timer_def)
    with alarms_take [OF assms(1) Some] Some cb t show ?thesis
      by (simp add: timer_cancel_def Let_def nx alarms_upd_timer)
  qed
qed

lemma alarms_refresh:
  assumes "tm_wf M" and "holds M i t"
  shows "alarms (snd (timer_refresh now i M)) =
    (if alarms M t = None then alarms M
     else at_arm (tp_add now (m_ms (objs M ! i))) (alarm_of (objs M ! i)) ((alarms M)(t := None)))"
proof -
  have i: "i < length (objs M)" and t: "t = next_of M i" and cb: "timer_cb (objs M ! i) \<noteq> None"
    using assms(2) by (auto simp: holds_def)
  note fnd = set_find_alarms [OF assms(1), of i, folded t]
  show ?thesis
  proof (cases "set_find (next_of M) i (m_timers M)")
    case None
    with fnd cb show ?thesis by (simp add: timer_refresh_def)
  next
    case (Some j)
    note N = alarms_take [OF assms(1) Some]
    with alarms_put_back [OF N(2) _ N(3), of "\<lambda>t. t\<lparr>m_next := tp_add now (m_ms t)\<rparr>"] fnd Some cb i t
    show ?thesis by (auto simp: timer_refresh_def Let_def alarm_of_def)
  qed
qed

lemma alarms_reset:
  assumes "tm_wf M" and "holds M i t"
  shows "alarms (fst (snd (timer_reset now ms from_now i M))) =
    (if alarms M t = None \<or> ms = m_ms (objs M ! i) \<and> \<not> from_now then alarms M
     else at_arm (tp_add (if from_now then now else tp_sub t (m_ms (objs M ! i))) ms)
            (mk_alarm (timer_cb (objs M ! i)) ms (m_recurring (objs M ! i)))
            ((alarms M)(t := None)))"
proof -
  have i: "i < length (objs M)" and t: "t = next_of M i" and cb: "timer_cb (objs M ! i) \<noteq> None"
    using assms(2) by (auto simp: holds_def)
  note fnd = set_find_alarms [OF assms(1), of i, folded t]
  show ?thesis
  proof (cases "set_find (next_of M) i (m_timers M)")
    case None
    with fnd cb show ?thesis by (simp add: timer_reset_def timer_reset_take_def)
  next
    case (Some j)
    let ?s = "tp_add (if from_now then now else tp_sub t (m_ms (objs M ! i))) ms"
    note N = alarms_take [OF assms(1) Some]
    with alarms_put_back [OF N(2) _ N(3), of "\<lambda>t. t\<lparr>m_ms := ms, m_next := ?s\<rparr>"] fnd Some cb i t
    show ?thesis
      by (auto simp: timer_reset_def timer_reset_take_def timer_reset_put_def addTimer_ptr_fst Let_def
          alarm_of_def alarms_def next_of_def)
  qed
qed

text \<open>The earliest alarm is what \<open>getNextTimer\<close> and \<open>hasTimer\<close> speak of.\<close>

lemma alarms_empty: "alarms M = Map.empty \<longleftrightarrow> m_timers M = []"
  using dom_alarms [of M] by (metis dom_eq_empty_conv image_is_empty set_empty)

lemma alarms_getNextTimer:
  assumes "tm_wf M"
  shows "fst (getNextTimer now M) = at_wait now (alarms M)"
    and "alarms (snd (getNextTimer now M)) = alarms M"
proof -
  have "Min (dom (alarms M)) = next_of M i" if "m_timers M = i # rest" for i rest
    using assms that by (intro Min_eqI) (auto simp: dom_alarms tm_wf_def)
  then show "fst (getNextTimer now M) = at_wait now (alarms M)"
    by (auto simp: getNextTimer_def at_wait_def alarms_empty Let_def split: list.splits)
  show "alarms (snd (getNextTimer now M)) = alarms M"
    by (simp add: getNextTimer_def Let_def split: list.splits)
qed

section \<open>Expiry on the table\<close>

lemma alarms_expire_one:
  assumes "tm_wf M" and "m_timers M = i # rest"
  shows "alarms (expire_one now i M) = at_fire now (next_of M i) (alarms M)"
proof -
  let ?N = "M\<lparr>m_timers := rest\<rparr>"
  have i: "i \<in> set (m_timers M)" "i < length (objs M)" "i \<notin> set rest"
    and rest: "rest = set_erase i (m_timers M)"
    using assms by (auto simp: tm_wf_def set_erase_def)
  have N: "tm_wf ?N" "alarms ?N = (alarms M)(next_of M i := None)"
    unfolding rest using assms(1) i(1) by (simp_all add: tm_wf_erase alarms_erase)
  show ?thesis
    using alarms_put_back [OF N(1), of i "\<lambda>t. t\<lparr>m_next := tp_add now (m_ms t)\<rparr>"]
      alarms_upd_timer [of i ?N] alarms_member [OF assms(1) i(1)] N(2) i(2,3) assms(2)
    by (simp add: expire_one_def Let_def at_fire_def alarm_of_def mk_alarm_def)
qed

lemma alarms_fold_expire:
  "to_expire ro now ds rs M \<Longrightarrow>
   alarms (fold (expire_one now) ds M) = fold (at_fire now) (map (next_of M) ds) (alarms M)"
proof (induction ds arbitrary: M rs)
  case Nil
  then show ?case by simp
next
  case (Cons i ds)
  have M: "tm_wf M" "m_timers M = i # ds @ rs" and i: "i < length (objs M)" "i \<notin> set ds"
    using Cons.prems by (auto simp: to_expire_def tm_wf_def)
  have "map (next_of (expire_one now i M)) ds = map (next_of M) ds"
    by (rule map_cong [OF refl], rule next_of_expire_one [OF i(1)]) (use i(2) in auto)
  with Cons.IH [OF to_expire_step [OF Cons.prems]] alarms_expire_one [OF M] show ?case by simp
qed

lemma at_due_alarms:
  assumes "to_expire ro now ds rs M"
  shows "at_due ro now (alarms M) = map (next_of M) ds"
proof -
  have "ordered (next_of M) ds"
    using assms ordered_append [of "next_of M" ds rs] by (auto simp: to_expire_def tm_wf_def)
  then have "sorted (map (next_of M) ds)" "distinct (map (next_of M) ds)"
    by (auto simp: ordered_def sorted_wrt_map distinct_keys [unfolded ordered_def]
        intro: sorted_wrt_mono_rel [rotated])
  moreover have "{t \<in> dom (alarms M). ro \<or> t \<le> now} = set (map (next_of M) ds)"
    using assms by (auto simp: dom_alarms to_expire_def)
  ultimately show ?thesis
    unfolding at_due_def by (simp only: sorted_list_of_set.idem_if_sorted_distinct)
qed

lemma at_closures_alarms:
  assumes "tm_wf M" and "set ds \<subseteq> set (m_timers M)"
  shows "at_closures (alarms M) (map (next_of M) ds) = map (\<lambda>i. timer_cb (objs M ! i)) ds"
  using assms alarms_member [OF assms(1)]
  by (auto simp: at_closures_def alarm_of_def mk_alarm_def subset_iff)

lemma to_expire_table:
  assumes "tm_wf M" and "at_settles ro now (alarms M)"
  shows "\<exists>ds rs. to_expire ro now ds rs (M\<lparr>m_preTime := t\<rparr>)"
proof -
  have *: "\<not> ro \<and> now < tp_add now (m_ms (objs M ! i))"
    if "i \<in> set (m_timers M)" "m_recurring (objs M ! i)" "ro \<or> next_of M i \<le> now" for i
  proof -
    have "alarms M (next_of M i) = Some (timer_cb (objs M ! i), Some (m_ms (objs M ! i)))"
      using alarms_member [OF assms(1) that(1)] that(2) by (simp add: alarm_of_def mk_alarm_def)
    with assms(2) that(3) show ?thesis unfolding at_settles_def by blast
  qed
  then have "to_expire ro now (if ro then m_timers M else due now M)
      (if ro then [] else pending now M) (M\<lparr>m_preTime := t\<rparr>)"
  proof (cases ro)
    case False
    have "m_timers (M\<lparr>m_preTime := t\<rparr>) = due now M @ pending now M"
      using m_timers_split [OF assms(1)] by simp
    moreover have "\<forall>i\<in>set (due now M). i \<in> set (m_timers M) \<and> next_of M i \<le> now"
        and "\<forall>i\<in>set (pending now M). now < next_of M i"
      by (auto simp: due_def pending_def)
    ultimately show ?thesis
      using assms(1) * False by (simp add: to_expire_def)
  qed (use assms(1) in \<open>auto simp: to_expire_def\<close>)
  then show ?thesis by blast
qed

lemma alarms_listExpireCb:
  assumes "tm_wf M" and "ro = fst (detectClockRollover now2 M)" and "at_settles ro now (alarms M)"
  shows "\<exists>M'. listExpireCb now now2 M cbs =
           Some (M', cbs @ at_closures (alarms M) (at_due ro now (alarms M)))
         \<and> tm_wf M' \<and> alarms M' = at_expire ro now (alarms M)"
proof -
  let ?M1 = "M\<lparr>m_preTime := now2\<rparr>"
  obtain ds rs where te: "to_expire ro now ds rs ?M1"
    using to_expire_table [OF assms(1,3)] by blast
  then have "set ds \<subseteq> set (m_timers ?M1)" by (auto simp: to_expire_def)
  then have "at_closures (alarms M) (at_due ro now (alarms M)) =
      map (\<lambda>i. timer_cb (objs ?M1 ! i)) ds"
    using assms(1) at_due_alarms [OF te] at_closures_alarms [of ?M1 ds] by simp
  moreover have "listExpireCb now now2 M cbs = expire_loop ro now ?M1 cbs"
    by (simp add: listExpireCb_def detectClockRollover_def assms(2))
  ultimately show ?thesis
    using expire_loop_fold [OF te] alarms_fold_expire [OF te] at_due_alarms [OF te]
    by (simp add: at_expire_def expire_post_def)
qed

text \<open>The tables on which the loop never ends: there is always an alarm that is due and recurs.\<close>

lemma listExpireCb_spins:
  assumes "tm_wf M" and "at_spins (fst (detectClockRollover now2 M)) now (alarms M)"
  shows "listExpireCb now now2 M cbs = None"
proof (rule listExpireCb_diverges [OF assms(1)])
  have *: "m_recurring (objs M ! i) \<and> (fst (detectClockRollover now2 M)
      \<or> next_of M i \<le> now \<and> tp_add now (m_ms (objs M ! i)) \<le> now)"
    if "i \<in> set (m_timers M)" for i
    using assms(2) alarms_member [OF assms(1) that]
    by (fastforce simp: at_spins_def alarm_of_def mk_alarm_def split: if_splits)
  then show "\<forall>i\<in>set (m_timers M). m_recurring (objs M ! i)" by blast
  show "m_timers M \<noteq> []"
    using assms(2) by (simp add: at_spins_def alarms_empty)
  show "now2 < tp_sub (m_preTime M) (60 * 60 * 1000)
      \<or> (\<forall>i\<in>set (m_timers M). next_of M i \<le> now \<and> tp_add now (m_ms (objs M ! i)) \<le> now)"
    using * by (auto simp: detectClockRollover_def)
qed

section \<open>The contract with users of timers\<close>

text \<open>
  What \<open>IOManager\<close> and the hooked calls rely on: arming and giving back a handle, disarming by
  the handle, and collecting what has expired, each as an operation of the table.
\<close>

locale alarm_service =
  fixes inv :: "'m \<Rightarrow> bool"
    and table :: "'m \<Rightarrow> alarm_table"
    and handle :: "'m \<Rightarrow> 'h \<Rightarrow> time_point \<Rightarrow> bool"
    and rolled :: "time_point \<Rightarrow> 'm \<Rightarrow> bool"
    and arm :: "time_point \<Rightarrow> u64 \<Rightarrow> closure option \<Rightarrow> bool \<Rightarrow> 'm \<Rightarrow> 'h \<times> 'm \<times> bool"
    and disarm :: "'h \<Rightarrow> 'm \<Rightarrow> bool \<times> 'm"
    and expire :: "time_point \<Rightarrow> time_point \<Rightarrow> 'm \<Rightarrow> closure option list
      \<Rightarrow> ('m \<times> closure option list) option"
  assumes finite_table: "finite (dom (table M))"
    and arm_law: "inv M \<Longrightarrow> arm now ms cb r M = (h, M', front) \<Longrightarrow>
      inv M' \<and> table M' = at_arm (tp_add now ms) (mk_alarm cb ms r) (table M)
      \<and> (cb \<noteq> None \<longrightarrow> handle M' h (tp_add now ms))"
    and disarm_law: "inv M \<Longrightarrow> handle M h t \<Longrightarrow>
      \<exists>M'. disarm h M = (True, M') \<and> inv M' \<and> table M' = (table M)(t := None)"
    and expire_law: "inv M \<Longrightarrow> at_settles (rolled now2 M) now (table M) \<Longrightarrow>
      \<exists>M'. expire now now2 M cbs =
             Some (M', cbs @ at_closures (table M) (at_due (rolled now2 M) now (table M)))
         \<and> inv M' \<and> table M' = at_expire (rolled now2 M) now (table M)"
begin

lemma due_iff: "t \<in> set (at_due ro now (table M)) \<longleftrightarrow> table M t \<noteq> None \<and> (ro \<or> t \<le> now)"
  using finite_table [of M] by (auto simp: at_due_def)

text \<open>An alarm that was armed at a free time and is disarmed by its handle leaves no trace.\<close>

lemma arm_disarm:
  assumes "inv M" and "arm now ms (Some c) r M = (h, M1, front)" and "table M (tp_add now ms) = None"
  shows "\<exists>M2. disarm h M1 = (True, M2) \<and> inv M2 \<and> table M2 = table M"
proof -
  have M1: "inv M1" "handle M1 h (tp_add now ms)"
      "table M1 = (table M)(tp_add now ms \<mapsto> mk_alarm (Some c) ms r)"
    using arm_law [OF assms(1,2)] assms(3) by (simp_all add: at_arm_free)
  from disarm_law [OF M1(1,2)] M1(3) assms(3) show ?thesis
    by (auto simp: fun_upd_idem)
qed

text \<open>An alarm stays while others are armed and while only earlier ones expire.\<close>

lemma arm_keeps:
  "inv M \<Longrightarrow> arm now ms cb r M = (h, M', front) \<Longrightarrow> table M t = Some a \<Longrightarrow> table M' t = Some a"
  using arm_law by (simp add: at_arm_keeps)

lemma expire_keeps:
  assumes "inv M" and "at_settles (rolled now2 M) now (table M)" and "\<not> rolled now2 M" and "now < t"
    and "expire now now2 M cbs = Some (M', cbs')" and "table M t = Some a"
  shows "table M' t = Some a"
proof -
  have "t \<notin> set (at_due (rolled now2 M) now (table M))" using assms(3,4) by (simp add: due_iff)
  then have "at_expire (rolled now2 M) now (table M) t = Some a"
    using assms(6) by (simp add: at_expire_def fold_fire_other)
  with expire_law [OF assms(1,2), of cbs] assms(5) show ?thesis by auto
qed

text \<open>When its time has come it is delivered, and its time is free again.\<close>

lemma expire_delivers:
  assumes "inv M" and "at_settles (rolled now2 M) now (table M)" and "t \<le> now"
    and "table M t = Some (cb, p)"
  shows "\<exists>M' xs ys. expire now now2 M cbs = Some (M', cbs @ xs @ cb # ys) \<and> inv M' \<and> table M' t = None"
proof -
  let ?ts = "at_due (rolled now2 M) now (table M)"
  have "t \<in> set ?ts" using assms(3,4) by (simp add: due_iff)
  then obtain us vs where ts: "?ts = us @ t # vs" by (meson split_list)
  then have "at_closures (table M) ?ts =
      at_closures (table M) us @ cb # at_closures (table M) vs"
    using assms(4) by (simp add: at_closures_def)
  moreover have "at_expire (rolled now2 M) now (table M) t = None"
    unfolding at_expire_def
  proof (rule fold_fire_clears)
    show "\<forall>u\<in>set ?ts. table M u \<noteq> None \<and>
        (\<forall>cb ms. table M u = Some (cb, Some ms) \<longrightarrow> tp_add now ms \<noteq> t)"
    proof (intro ballI conjI allI impI)
      fix u cb ms assume u: "u \<in> set ?ts" "table M u = Some (cb, Some ms)"
      with assms(2) have "now < tp_add now ms" unfolding at_settles_def due_iff by blast
      with assms(3) show "tp_add now ms \<noteq> t" by simp
    qed (simp add: due_iff)
  qed (use \<open>t \<in> set ?ts\<close> in auto)
  ultimately obtain M' where "expire now now2 M cbs =
        Some (M', cbs @ at_closures (table M) us @ cb # at_closures (table M) vs)"
      "inv M'" "table M' t = None"
    using expire_law [OF assms(1,2), of cbs] by auto
  then show ?thesis by blast
qed

end

text \<open>The manager of the code provides this service.\<close>

lemma holds_addTimer:
  "addTimer now ms cb r M = (i, M', front) \<Longrightarrow> cb \<noteq> None \<Longrightarrow> holds M' i (tp_add now ms)"
  by (auto simp: addTimer_def Let_def addTimer_ptr_fst holds_def next_of_def new_timer_def
      dest!: arg_cong [of _ _ fst])

interpretation timer_service: alarm_service tm_wf alarms holds
    "\<lambda>now2 M. fst (detectClockRollover now2 M)" addTimer timer_cancel listExpireCb
proof
  show "\<exists>M'. timer_cancel i M = (True, M') \<and> tm_wf M' \<and> alarms M' = (alarms M)(t := None)"
    if "tm_wf M" "holds M i t" for M i t
    using alarms_cancel [OF that] tm_wf_cancel [OF that(1), of i] that(2) by (auto simp: holds_def)
  show "tm_wf M' \<and> alarms M' = at_arm (tp_add now ms) (mk_alarm cb ms r) (alarms M)
      \<and> (cb \<noteq> None \<longrightarrow> holds M' i (tp_add now ms))"
    if "tm_wf M" "addTimer now ms cb r M = (i, M', front)" for M now ms cb r i M' front
    using alarms_addTimer [OF that(1), of now ms cb r] tm_wf_addTimer [OF that(1), of now ms cb r]
      holds_addTimer [OF that(2)] that(2) by simp
qed (auto intro: alarms_listExpireCb)

section \<open>What users see\<close>

text \<open>
  Steps of other users: they arm what they like, move or cancel timers they hold at another
  time, ask for the next time, and collect what expires before \<open>t\<close>.
\<close>

inductive other_use :: "time_point \<Rightarrow> timer_manager \<Rightarrow> timer_manager \<Rightarrow> bool" for t where
  arm: "other_use t M (fst (snd (addTimer now ms cb r M)))"
| cancel: "holds M i u \<Longrightarrow> u \<noteq> t \<Longrightarrow> other_use t M (snd (timer_cancel i M))"
| refresh: "holds M i u \<Longrightarrow> u \<noteq> t \<Longrightarrow> other_use t M (snd (timer_refresh now i M))"
| reset: "holds M i u \<Longrightarrow> u \<noteq> t \<Longrightarrow> other_use t M (fst (snd (timer_reset now ms from_now i M)))"
| ask: "other_use t M (snd (getNextTimer now M))"
| expire: "now < t \<Longrightarrow> \<not> fst (detectClockRollover now2 M) \<Longrightarrow> at_settles False now (alarms M) \<Longrightarrow>
    listExpireCb now now2 M cbs = Some (M', cbs') \<Longrightarrow> other_use t M M'"

lemma other_use_wf: "other_use t M M' \<Longrightarrow> tm_wf M \<Longrightarrow> tm_wf M'"
  by (induction rule: other_use.induct)
    (auto simp: holds_def intro: tm_wf_addTimer tm_wf_cancel tm_wf_refresh tm_wf_reset
      tm_wf_getNextTimer listExpireCb_wf)

lemma other_use_keeps:
  assumes "other_use t M M'" and "tm_wf M" and "alarms M t = Some a"
  shows "alarms M' t = Some a"
  using assms
proof cases
  case (cancel i u)
  with assms alarms_cancel [OF assms(2), of i u] show ?thesis by auto
next
  case (expire now now2 cbs cbs')
  then show ?thesis
    using timer_service.expire_keeps [OF assms(2) _ _ expire(1) expire(4) assms(3)] by simp
qed (use assms(2,3) in \<open>auto simp: alarms_addTimer alarms_refresh alarms_reset alarms_getNextTimer
       intro!: at_arm_keeps\<close>)

interpretation alarm_kept: inductive_invariant "\<lambda>M. tm_wf M \<and> alarms M t = Some a" "other_use t"
    "\<lambda>M. tm_wf M \<and> alarms M t = Some a" for t a
  by unfold_locales (auto intro: other_use_wf other_use_keeps)

text \<open>
  C6: the timer manager is a table of alarms by time. A new manager is the empty table; \<open>addTimer\<close>
  arms its time unless that is taken; \<open>cancel\<close> frees the time of the timer held; \<open>refresh\<close> and
  \<open>reset\<close> free it and arm the new time, if an alarm was there; \<open>getNextTimer\<close> reads the earliest
  time and \<open>hasTimer\<close> whether there is one.
\<close>

theorem timers_refine_alarm_table:
  assumes "tm_wf M" and "holds M i t"
  shows "alarms (new_manager now) = Map.empty
    \<and> alarms (fst (snd (addTimer now ms cb r M))) = at_arm (tp_add now ms) (mk_alarm cb ms r) (alarms M)
    \<and> (\<exists>M'. timer_cancel i M = (True, M') \<and> alarms M' = (alarms M)(t := None))
    \<and> alarms (snd (timer_refresh now i M)) =
        (if alarms M t = None then alarms M
         else at_arm (tp_add now (m_ms (objs M ! i))) (alarm_of (objs M ! i)) ((alarms M)(t := None)))
    \<and> alarms (fst (snd (timer_reset now ms from_now i M))) =
        (if alarms M t = None \<or> ms = m_ms (objs M ! i) \<and> \<not> from_now then alarms M
         else at_arm (tp_add (if from_now then now else tp_sub t (m_ms (objs M ! i))) ms)
                (mk_alarm (timer_cb (objs M ! i)) ms (m_recurring (objs M ! i)))
                ((alarms M)(t := None)))
    \<and> fst (getNextTimer now M) = at_wait now (alarms M)
    \<and> alarms (snd (getNextTimer now M)) = alarms M
    \<and> (hasTimer M \<longleftrightarrow> alarms M \<noteq> Map.empty)"
  using alarms_addTimer [OF assms(1)] alarms_cancel [OF assms] alarms_refresh [OF assms]
    alarms_reset [OF assms] alarms_getNextTimer [OF assms(1)]
  by (simp add: alarms_new_manager hasTimer_def alarms_empty)

lemma ex_alarms:
  "alarms (ex_manager r) =
     [5000000 \<mapsto> mk_alarm (Some (User_cb 1)) 5 r, 5000010 \<mapsto> mk_alarm (Some (User_cb 2)) 5 r,
      9000000 \<mapsto> mk_alarm (Some (User_cb 3)) 9 r]"
  by (auto simp: alarms_def ex_manager_def next_of_def new_timer_def alarm_of_def time_eval fun_eq_iff)

theorem timers_refine_alarm_table_witness:
  "\<exists>M'. timer_cancel 1 (ex_manager True) = (True, M') \<and> alarms M' 5000010 = None
      \<and> alarms M' 5000000 = Some (Some (User_cb 1), Some 5)"
proof -
  have "holds (ex_manager True) 1 5000010"
    by (simp add: holds_def ex_manager_def next_of_def new_timer_def time_eval)
  from timers_refine_alarm_table [OF ex_manager_wf this, THEN conjunct2, THEN conjunct2, THEN conjunct1]
  show ?thesis by (auto simp: ex_alarms mk_alarm_def)
qed

text \<open>
  C7: \<open>listExpireCb\<close> is the table's expiry, as long as no recurring alarm is due again at once.
  It appends the closures of the times that are due in their order, and they leave the table in
  that order, a recurring alarm being armed again one period from now unless that time is
  taken. After a clock rollover every time counts as due, and the condition is that no alarm
  recurs: all are handed out then and none is armed again. When, to the contrary, all alarms
  recur and the clock has rolled over, or all are due and their periods do not get past the
  current time, \<open>listExpireCb\<close> does not return.
\<close>

theorem listExpireCb_refines_alarm_table:
  assumes "tm_wf M"
  shows "(at_settles (fst (detectClockRollover now2 M)) now (alarms M) \<longrightarrow>
           (\<exists>M'. listExpireCb now now2 M cbs =
               Some (M', cbs @ at_closures (alarms M)
                           (at_due (fst (detectClockRollover now2 M)) now (alarms M)))
             \<and> tm_wf M' \<and> alarms M' = at_expire (fst (detectClockRollover now2 M)) now (alarms M)))
    \<and> (at_spins (fst (detectClockRollover now2 M)) now (alarms M) \<longrightarrow>
         listExpireCb now now2 M cbs = None)"
  using timer_service.expire_law [OF assms] listExpireCb_spins [OF assms] by blast

theorem listExpireCb_refines_alarm_table_witness:
  "\<exists>M'. listExpireCb 5000000 0 (ex_manager True) [] = Some (M', [Some (User_cb 1)])
      \<and> alarms M' 10000000 = Some (Some (User_cb 1), Some 5)"
proof -
  have ro: "\<not> fst (detectClockRollover 0 (ex_manager True))"
    by (simp add: detectClockRollover_def ex_manager_def time_eval)
  have "{t \<in> dom (alarms (ex_manager True)). t \<le> 5000000} = {5000000}"
    by (auto simp: ex_alarms mk_alarm_def split: if_splits)
  then have due: "at_due False 5000000 (alarms (ex_manager True)) = [5000000]"
    by (simp add: at_due_def)
  have "at_settles False 5000000 (alarms (ex_manager True))"
    by (auto simp: at_settles_def ex_alarms mk_alarm_def time_eval split: if_splits)
  moreover have "at_closures (alarms (ex_manager True)) [5000000] = [Some (User_cb 1)]"
    by (simp add: at_closures_def ex_alarms mk_alarm_def)
  moreover have "at_expire False 5000000 (alarms (ex_manager True)) 10000000 =
      Some (Some (User_cb 1), Some 5)"
    unfolding at_expire_def due by (simp add: at_fire_def at_arm_def ex_alarms mk_alarm_def time_eval)
  ultimately show ?thesis
    using listExpireCb_refines_alarm_table [OF ex_manager_wf, of 0 True 5000000 "[]"] ro due by auto
qed

text \<open>
  C8: an alarm in the table is delivered. Other users of the manager may arm what they like,
  cancel, refresh and reset timers whose time is another one, ask for the next time, and
  collect, without a clock rollover, what expires earlier. Once the alarm's time has come
  \<open>listExpireCb\<close> hands out its closure, and no alarm is left at its time, provided that no
  recurring alarm is due again at once. (A user who cancels a timer that has the same time, though
  it is not in the set, takes the alarm away: \<open>cancel_may_disarm_another\<close>.)
\<close>

theorem armed_alarm_is_delivered:
  assumes "tm_wf M" and "alarms M t = Some (cb, p)" and "(other_use t)\<^sup>*\<^sup>* M M'" and "t \<le> now"
    and "at_settles (fst (detectClockRollover now2 M')) now (alarms M')"
  shows "\<exists>M'' xs ys. listExpireCb now now2 M' cbs = Some (M'', cbs @ xs @ cb # ys)
           \<and> alarms M'' t = None"
proof -
  have "tm_wf M' \<and> alarms M' t = Some (cb, p)"
    using alarm_kept.steps_inv [OF assms(3)] assms(1,2) by blast
  then show ?thesis
    using timer_service.expire_delivers [OF _ assms(5,4)] by blast
qed

theorem armed_alarm_is_delivered_witness:
  "\<exists>M'' xs ys. listExpireCb 6000000 0 (fst (snd (addTimer 7 3 None False (ex_manager False)))) [] =
      Some (M'', xs @ Some (User_cb 2) # ys)"
proof -
  let ?M = "fst (snd (addTimer 7 3 None False (ex_manager False)))"
  have "(other_use 5000010)\<^sup>*\<^sup>* (ex_manager False) ?M"
    by (rule r_into_rtranclp) (rule other_use.arm)
  moreover have "fst (detectClockRollover 0 ?M) = False"
    by (simp add: detectClockRollover_def addTimer_def addTimer_ptr_fst ex_manager_def time_eval Let_def)
  moreover have "at_settles False 6000000 (alarms ?M)"
    by (auto simp: alarms_addTimer [OF ex_manager_wf] at_settles_def ex_alarms at_arm_def mk_alarm_def
        split: if_splits)
  ultimately show ?thesis
    using armed_alarm_is_delivered [OF ex_manager_wf [of False], where M' = ?M and t = 5000010
        and now = 6000000 and cb = "Some (User_cb 2)" and p = None and ?now2.0 = 0 and cbs = "[]"]
    by (auto simp: ex_alarms mk_alarm_def)
qed

text \<open>
  A timer that is added at a free time and cancelled leaves the manager as it was for every
  user: the same alarms at the same times.
\<close>

theorem cancelled_timer_leaves_no_trace:
  assumes "tm_wf M" and "addTimer now ms (Some c) r M = (i, M1, front)"
    and "alarms M (tp_add now ms) = None"
  shows "\<exists>M2. timer_cancel i M1 = (True, M2) \<and> tm_wf M2 \<and> alarms M2 = alarms M"
  by (rule timer_service.arm_disarm [OF assms])

theorem cancelled_timer_leaves_no_trace_witness:
  "\<exists>i M1 front M2. addTimer 4 5 (Some (User_cb 9)) True (ex_manager False) = (i, M1, front)
     \<and> timer_cancel i M1 = (True, M2) \<and> alarms M2 = alarms (ex_manager False)"
proof -
  obtain i M1 front where a: "addTimer 4 5 (Some (User_cb 9)) True (ex_manager False) = (i, M1, front)"
    by (cases "addTimer 4 5 (Some (User_cb 9)) True (ex_manager False)") auto
  have "alarms (ex_manager False) (tp_add 4 5) = None"
    by (simp add: ex_alarms time_eval)
  from cancelled_timer_leaves_no_trace [OF ex_manager_wf a this] a show ?thesis by blast
qed

end
