(* ===== verification/Fibers.thy ===== *)
theory Fibers
  imports Closures
begin

text \<open>
  \<open>code/fiber.h\<close> and \<open>code/fiber.cpp\<close>: fibers as one thread sees them. The thread-local
  pointers, the static counters and the fiber objects are the fields of one record. A
  \<open>ucontext_t\<close> is modelled by where it continues: at the entry \<open>MainFunc\<close> of its fiber, or in the
  flow of control that was saved into it; a flow is named by the stack it runs on.
\<close>

section \<open>State\<close>

text \<open>\<open>Fiber::State\<close>; \<open>TERM\<close> is a word of Isabelle's syntax, so it is \<open>TERMINATED\<close> here.\<close>

datatype fiber_state = READY | RUNNING | TERMINATED

datatype flow = On_thread | On_stack fiber_ptr

datatype ucontext = Fresh | Saved flow

record fiber =
  m_id :: u64
  m_stacksize :: u32
  fiber_st :: fiber_state          \<comment> \<open>\<open>Fiber::m_state\<close>\<close>
  m_ctx :: ucontext
  m_stack :: bool                  \<comment> \<open>whether a stack is allocated\<close>
  fiber_cb :: "closure option"     \<comment> \<open>\<open>Fiber::m_cb\<close>\<close>
  m_runInScheduler :: "bool option"  \<comment> \<open>\<open>None\<close>: never initialised\<close>

record fiber_world =
  fibers :: "fiber_ptr \<Rightarrow> fiber option"
  fresh_ptr :: fiber_ptr           \<comment> \<open>the address the next allocation returns\<close>
  s_fiber_id :: u64
  s_fiber_cnt :: u64
  t_fiber :: "fiber_ptr option"
  t_thread_fiber :: "fiber_ptr option"
  t_scheduler_fiber :: "fiber_ptr option"
  cur :: flow                      \<comment> \<open>the flow of control this thread executes\<close>

section \<open>Operations\<close>

definition fiber_at :: "fiber_ptr \<Rightarrow> fiber_world \<Rightarrow> fiber res" where
  "fiber_at p w = (case fibers w p of None \<Rightarrow> Inl Dangling_pointer | Some f \<Rightarrow> Inr f)"

definition upd_fiber :: "fiber_ptr \<Rightarrow> (fiber \<Rightarrow> fiber) \<Rightarrow> fiber_world \<Rightarrow> fiber_world" where
  "upd_fiber p g w = w\<lparr>fibers := (fibers w)(p := map_option g (fibers w p))\<rparr>"

definition SetThis :: "fiber_ptr option \<Rightarrow> fiber_world \<Rightarrow> fiber_world" where
  "SetThis p w = w\<lparr>t_fiber := p\<rparr>"

definition SetSchedulerFiber :: "fiber_ptr option \<Rightarrow> fiber_world \<Rightarrow> fiber_world" where
  "SetSchedulerFiber p w = w\<lparr>t_scheduler_fiber := p\<rparr>"

text \<open>\<open>Fiber::Fiber()\<close>: the main fiber of a thread. It leaves \<open>m_runInScheduler\<close> unset.\<close>

definition main_fiber :: "fiber_world \<Rightarrow> fiber" where
  "main_fiber w = \<lparr>m_id = s_fiber_id w, m_stacksize = 0, fiber_st = RUNNING,
     m_ctx = Saved (cur w), m_stack = False, fiber_cb = None, m_runInScheduler = None\<rparr>"

definition new_main_fiber :: "fiber_world \<Rightarrow> fiber_ptr \<times> fiber_world" where
  "new_main_fiber w =
     (let p = fresh_ptr w; w1 = SetThis (Some p) w
      in (p, w1\<lparr>fibers := (fibers w1)(p := Some (main_fiber w1)), fresh_ptr := Suc p,
               s_fiber_id := s_fiber_id w1 + 1, s_fiber_cnt := s_fiber_cnt w1 + 1\<rparr>))"

text \<open>\<open>Fiber::Fiber(cb, stacksize, run_in_scheduler)\<close>; the stack size is cut to 32 bits.\<close>

definition child_fiber :: "closure option \<Rightarrow> u64 \<Rightarrow> bool \<Rightarrow> fiber_world \<Rightarrow> fiber" where
  "child_fiber cb stacksize run_in_scheduler w =
     \<lparr>m_id = s_fiber_id w, m_stacksize = (if stacksize \<noteq> 0 then ucast stacksize else 128000),
      fiber_st = READY, m_ctx = Fresh, m_stack = True, fiber_cb = cb,
      m_runInScheduler = Some run_in_scheduler\<rparr>"

definition new_fiber ::
  "closure option \<Rightarrow> u64 \<Rightarrow> bool \<Rightarrow> fiber_world \<Rightarrow> fiber_ptr \<times> fiber_world"
where
  "new_fiber cb stacksize run_in_scheduler w =
     (let p = fresh_ptr w
      in (p, w\<lparr>fibers := (fibers w)(p := Some (child_fiber cb stacksize run_in_scheduler w)),
              fresh_ptr := Suc p, s_fiber_id := s_fiber_id w + 1,
              s_fiber_cnt := s_fiber_cnt w + 1\<rparr>))"

text \<open>\<open>Fiber::~Fiber()\<close>\<close>

definition delete_fiber :: "fiber_ptr \<Rightarrow> fiber_world \<Rightarrow> fiber_world" where
  "delete_fiber p w = w\<lparr>fibers := (fibers w)(p := None), s_fiber_cnt := s_fiber_cnt w - 1\<rparr>"

text \<open>\<open>Fiber::reset\<close>\<close>

definition fiber_reset :: "fiber_ptr \<Rightarrow> closure option \<Rightarrow> fiber_world \<Rightarrow> fiber_world res" where
  "fiber_reset p cb w =
     bind_res (fiber_at p w) (\<lambda>f.
     bind_res (assert_res (m_stack f \<and> fiber_st f = TERMINATED)) (\<lambda>_.
     Inr (upd_fiber p (\<lambda>f. f\<lparr>fiber_st := READY, fiber_cb := cb, m_ctx := Fresh\<rparr>) w)))"

text \<open>\<open>swapcontext(&p->m_ctx, &q->m_ctx)\<close>: saves the executing flow in \<open>p\<close>, continues in \<open>q\<close>.\<close>

definition continue_in :: "fiber_ptr \<Rightarrow> ucontext \<Rightarrow> flow" where
  "continue_in q c = (case c of Fresh \<Rightarrow> On_stack q | Saved fl \<Rightarrow> fl)"

definition swapcontext :: "fiber_ptr \<Rightarrow> fiber_ptr \<Rightarrow> fiber_world \<Rightarrow> fiber_world res" where
  "swapcontext p q w =
     bind_res (fiber_at p w) (\<lambda>_.
     let w1 = upd_fiber p (\<lambda>f. f\<lparr>m_ctx := Saved (cur w)\<rparr>) w in
     bind_res (fiber_at q w1) (\<lambda>g. Inr (w1\<lparr>cur := continue_in q (m_ctx g)\<rparr>)))"

text \<open>The fiber that \<open>resume\<close> and \<open>yield\<close> trade places with.\<close>

definition partner :: "fiber \<Rightarrow> fiber_world \<Rightarrow> fiber_ptr option res" where
  "partner f w =
     (case m_runInScheduler f of
        None \<Rightarrow> Inl Uninitialised
      | Some b \<Rightarrow> Inr (if b then t_scheduler_fiber w else t_thread_fiber w))"

text \<open>\<open>Fiber::resume\<close>\<close>

definition resume :: "fiber_ptr \<Rightarrow> fiber_world \<Rightarrow> fiber_world res" where
  "resume p w =
     bind_res (fiber_at p w) (\<lambda>f.
     bind_res (assert_res (fiber_st f = READY)) (\<lambda>_.
     let w1 = upd_fiber p (\<lambda>f. f\<lparr>fiber_st := RUNNING\<rparr>) w in
     bind_res (partner f w1) (\<lambda>q.
     let w2 = SetThis (Some p) w1 in
     bind_res (deref q) (\<lambda>q. swapcontext q p w2))))"

text \<open>\<open>Fiber::yield\<close>\<close>

definition fiber_yield :: "fiber_ptr \<Rightarrow> fiber_world \<Rightarrow> fiber_world res" where
  "fiber_yield p w =
     bind_res (fiber_at p w) (\<lambda>f.
     bind_res (assert_res (fiber_st f = RUNNING \<or> fiber_st f = TERMINATED)) (\<lambda>_.
     let w1 = (if fiber_st f \<noteq> TERMINATED then upd_fiber p (\<lambda>f. f\<lparr>fiber_st := READY\<rparr>) w else w) in
     bind_res (partner f w1) (\<lambda>q.
     let w2 = SetThis q w1 in
     bind_res (deref q) (\<lambda>q. swapcontext p q w2))))"

text \<open>\<open>Fiber::GetThis\<close>: makes the main fiber, also the scheduler fiber, on first use.\<close>

definition GetThis :: "fiber_world \<Rightarrow> (fiber_ptr \<times> fiber_world) res" where
  "GetThis w =
     (case t_fiber w of
        Some p \<Rightarrow> bind_res (fiber_at p w) (\<lambda>_. Inr (p, w))
      | None \<Rightarrow>
          let (p, w1) = new_main_fiber w;
              w2 = w1\<lparr>t_thread_fiber := Some p, t_scheduler_fiber := Some p\<rparr>
          in bind_res (assert_res (t_fiber w2 = Some p)) (\<lambda>_. Inr (p, w2)))"

text \<open>\<open>Fiber::GetFiberId\<close>\<close>

definition GetFiberId :: "fiber_world \<Rightarrow> u64 res" where
  "GetFiberId w =
     (case t_fiber w of
        Some p \<Rightarrow> bind_res (fiber_at p w) (\<lambda>f. Inr (m_id f))
      | None \<Rightarrow> Inr (- 1))"

text \<open>
  \<open>Fiber::MainFunc\<close>: up to the call of the closure, which it returns, and from the closure's
  return to the final \<open>yield\<close>.
\<close>

definition MainFunc_enter :: "fiber_world \<Rightarrow> (fiber_ptr \<times> closure \<times> fiber_world) res" where
  "MainFunc_enter w =
     bind_res (GetThis w) (\<lambda>(p, w1).
     bind_res (fiber_at p w1) (\<lambda>f.
     case fiber_cb f of None \<Rightarrow> Inl Bad_function_call | Some cb \<Rightarrow> Inr (p, cb, w1)))"

definition MainFunc_leave :: "fiber_ptr \<Rightarrow> fiber_world \<Rightarrow> fiber_world res" where
  "MainFunc_leave p w =
     bind_res (fiber_at p w) (\<lambda>_.
     fiber_yield p (upd_fiber p (\<lambda>f. f\<lparr>fiber_cb := None, fiber_st := TERMINATED\<rparr>) w))"

section \<open>Basic facts\<close>

named_theorems fiber_defs \<open>the operations on fibers, for unfolding\<close>

lemma fiber_at_Some [simp]: "fibers w p = Some f \<Longrightarrow> fiber_at p w = Inr f"
  by (simp add: fiber_at_def)

lemma fiber_at_eq_Inr [res_simps]: "fiber_at p w = Inr f \<longleftrightarrow> fibers w p = Some f"
  by (simp add: fiber_at_def split: option.splits)

lemma upd_fiber_sel [simp]:
  "fibers (upd_fiber p g w) = (fibers w)(p := map_option g (fibers w p))"
  "fresh_ptr (upd_fiber p g w) = fresh_ptr w"
  "s_fiber_id (upd_fiber p g w) = s_fiber_id w"
  "s_fiber_cnt (upd_fiber p g w) = s_fiber_cnt w"
  "t_fiber (upd_fiber p g w) = t_fiber w"
  "t_thread_fiber (upd_fiber p g w) = t_thread_fiber w"
  "t_scheduler_fiber (upd_fiber p g w) = t_scheduler_fiber w"
  "cur (upd_fiber p g w) = cur w"
  by (simp_all add: upd_fiber_def)

lemma SetThis_sel [simp]:
  "fibers (SetThis p w) = fibers w"
  "fresh_ptr (SetThis p w) = fresh_ptr w"
  "s_fiber_id (SetThis p w) = s_fiber_id w"
  "s_fiber_cnt (SetThis p w) = s_fiber_cnt w"
  "t_fiber (SetThis p w) = p"
  "t_thread_fiber (SetThis p w) = t_thread_fiber w"
  "t_scheduler_fiber (SetThis p w) = t_scheduler_fiber w"
  "cur (SetThis p w) = cur w"
  by (simp_all add: SetThis_def)

lemma partner_frame [simp]:
  "partner f (upd_fiber p g w) = partner f w"
  "partner f (SetThis o' w) = partner f w"
  by (simp_all add: partner_def split: option.splits)

lemma partner_eq_Inr [res_simps]:
  "partner f w = Inr q \<longleftrightarrow> (\<exists>b. m_runInScheduler f = Some b
     \<and> q = (if b then t_scheduler_fiber w else t_thread_fiber w))"
  by (auto simp: partner_def split: option.splits)

lemmas [fiber_defs] = resume_def fiber_yield_def swapcontext_def Let_def

text \<open>What \<open>resume\<close> and \<open>yield\<close> do when they succeed, field by field.\<close>

lemma resume_eq:
  assumes "fibers w p = Some f" and "fiber_st f = READY" and "m_runInScheduler f = Some b"
    and "(if b then t_scheduler_fiber w else t_thread_fiber w) = Some q"
    and "q \<noteq> p" and "fibers w q = Some g"
  shows "resume p w = Inr (w\<lparr>
      t_fiber := Some p,
      fibers := (fibers w)(p \<mapsto> f\<lparr>fiber_st := RUNNING\<rparr>, q \<mapsto> g\<lparr>m_ctx := Saved (cur w)\<rparr>),
      cur := continue_in p (m_ctx f)\<rparr>)"
  using assms
  by (cases b) (simp_all add: fiber_defs partner_def upd_fiber_def SetThis_def fiber_at_def)

lemma yield_eq:
  assumes "fibers w p = Some f" and "fiber_st f \<noteq> READY" and "m_runInScheduler f = Some b"
    and "(if b then t_scheduler_fiber w else t_thread_fiber w) = Some q"
    and "q \<noteq> p" and "fibers w q = Some g"
  shows "fiber_yield p w = Inr (w\<lparr>
      t_fiber := Some q,
      fibers := (fibers w)(p \<mapsto>
        (if fiber_st f = TERMINATED then f else f\<lparr>fiber_st := READY\<rparr>)\<lparr>m_ctx := Saved (cur w)\<rparr>),
      cur := continue_in q (m_ctx g)\<rparr>)"
  using assms
  by (cases b; cases "fiber_st f")
    (simp_all add: fiber_defs partner_def upd_fiber_def SetThis_def fiber_at_def)

section \<open>The chain of running fibers\<close>

text \<open>
  The flow a fiber's code runs in: the thread's own stack for its main fiber, else its stack.
\<close>

definition home :: "fiber_ptr \<Rightarrow> fiber_ptr \<Rightarrow> flow" where
  "home m p = (if p = m then On_thread else On_stack p)"

text \<open>
  The fibers that have been resumed and not given control back: the main fiber \<open>m\<close>, the current
  fiber \<open>c\<close>, and the scheduler fiber \<open>s\<close> when the current one was resumed by it.
\<close>

definition chain :: "fiber_ptr \<Rightarrow> fiber_ptr \<Rightarrow> fiber_ptr \<Rightarrow> fiber_world \<Rightarrow> fiber_ptr set" where
  "chain m s c w =
     {m, c} \<union> (case fibers w c of
        Some f \<Rightarrow> if m_runInScheduler f = Some True then {s} else {}
      | None \<Rightarrow> {})"

definition fiber_ok :: "fiber_ptr \<Rightarrow> fiber_ptr \<Rightarrow> fiber_ptr \<Rightarrow> fiber_world \<Rightarrow> fiber_ptr \<Rightarrow> fiber \<Rightarrow> bool" where
  "fiber_ok m s c w p f \<longleftrightarrow>
     p < fresh_ptr w
     \<and> (fiber_st f = RUNNING \<longleftrightarrow> p \<in> chain m s c w)
     \<and> (if p = m then m_runInScheduler f = None else m_stack f \<and> m_runInScheduler f \<noteq> None)
     \<and> (p = s \<longrightarrow> m_runInScheduler f \<noteq> Some True)
     \<and> (p \<noteq> c \<longrightarrow> fiber_st f \<noteq> TERMINATED \<longrightarrow>
          m_ctx f = Saved (home m p) \<or> p \<notin> chain m s c w \<and> m_ctx f = Fresh)"

definition thread_ok :: "fiber_ptr \<Rightarrow> fiber_ptr \<Rightarrow> fiber_ptr \<Rightarrow> fiber_world \<Rightarrow> bool" where
  "thread_ok m s c w \<longleftrightarrow>
     t_thread_fiber w = Some m \<and> t_scheduler_fiber w = Some s \<and> t_fiber w = Some c
     \<and> fibers w m \<noteq> None \<and> fibers w s \<noteq> None \<and> fibers w c \<noteq> None
     \<and> cur w = home m c
     \<and> (\<forall>p f. fibers w p = Some f \<longrightarrow> fiber_ok m s c w p f)"

definition fiber_inv :: "fiber_world \<Rightarrow> bool" where
  "fiber_inv w \<longleftrightarrow> (\<exists>m s c. thread_ok m s c w)"

text \<open>
  The steps of a thread that keeps the discipline of the code: \<open>resume\<close> is called from the fiber
  the resumed one will yield to (\<open>Scheduler::run\<close> on the scheduler fiber, \<open>Scheduler::stop\<close> on
  the main fiber); \<open>yield\<close> and the end of \<open>MainFunc\<close> happen on the current fiber; the scheduler
  fiber is set from the main fiber, to a fiber that trades with the main one.
\<close>

inductive fiber_step :: "fiber_world \<Rightarrow> fiber_world \<Rightarrow> bool" where
  create: "new_fiber cb ss b w = (p, w') \<Longrightarrow> fiber_step w w'"
| resume: "t_fiber w = Some q \<Longrightarrow> fibers w p = Some f \<Longrightarrow> partner f w = Inr (Some q) \<Longrightarrow>
    resume p w = Inr w' \<Longrightarrow> fiber_step w w'"
| yield: "t_fiber w = Some p \<Longrightarrow> fiber_yield p w = Inr w' \<Longrightarrow> fiber_step w w'"
| leave: "t_fiber w = Some p \<Longrightarrow> MainFunc_leave p w = Inr w' \<Longrightarrow> fiber_step w w'"
| reset: "fiber_reset p cb w = Inr w' \<Longrightarrow> fiber_step w w'"
| set_scheduler: "t_fiber w = t_thread_fiber w \<Longrightarrow> fibers w p = Some f \<Longrightarrow>
    m_runInScheduler f = Some False \<Longrightarrow> fiber_step w (SetSchedulerFiber (Some p) w)"
| delete: "Some p \<notin> {t_fiber w, t_thread_fiber w, t_scheduler_fiber w} \<Longrightarrow>
    fiber_step w (delete_fiber p w)"

definition fiber_init :: "fiber_world \<Rightarrow> bool" where
  "fiber_init w \<longleftrightarrow> (\<exists>w0 p. fibers w0 = (\<lambda>_. None) \<and> t_fiber w0 = None \<and> cur w0 = On_thread
     \<and> GetThis w0 = Inr (p, w))"

lemma chain_cong:
  "fibers w' c = fibers w c \<Longrightarrow> chain m s c w' = chain m s c w"
  by (simp add: chain_def)

lemma fiber_inv_init: "fiber_init w \<Longrightarrow> fiber_inv w"
  by (auto simp: fiber_init_def fiber_inv_def thread_ok_def fiber_ok_def chain_def home_def
      GetThis_def new_main_fiber_def main_fiber_def Let_def fiber_at_def assert_res_def
      split: if_splits)

lemma thread_okD:
  assumes "thread_ok m s c w" and "fibers w p = Some f"
  shows "fiber_ok m s c w p f"
  using assms by (auto simp: thread_ok_def)

lemma thread_ok_current:
  assumes "thread_ok m s c w"
  obtains fm fs fc where "fibers w m = Some fm" "fibers w s = Some fs" "fibers w c = Some fc"
    and "m_runInScheduler fm = None" "fiber_st fm = RUNNING" "fiber_st fc = RUNNING"
    and "m_runInScheduler fs \<noteq> Some True"
proof -
  obtain fm fs fc where "fibers w m = Some fm" "fibers w s = Some fs" "fibers w c = Some fc"
    using assms by (auto simp: thread_ok_def)
  with thread_okD [OF assms this(1)] thread_okD [OF assms this(2)] thread_okD [OF assms this(3)]
  show ?thesis by (intro that) (auto simp: fiber_ok_def chain_def)
qed

lemma fiber_inv_create:
  assumes "thread_ok m s c w" and "new_fiber cb ss b w = (p, w')"
  shows "thread_ok m s c w'"
proof -
  have lt: "q < fresh_ptr w" if "fibers w q = Some g" for q g
    using thread_okD [OF assms(1) that] by (simp add: fiber_ok_def)
  then have old: "m < p" "s < p" "c < p" and fresh: "p = fresh_ptr w"
    using assms by (auto simp: thread_ok_def new_fiber_def Let_def)
  then have ch: "chain m s c w' = chain m s c w"
    using assms(2) by (intro chain_cong) (auto simp: new_fiber_def Let_def)
  have "fiber_ok m s c w' q g" if g: "fibers w' q = Some g" for q g
  proof (cases "q = p")
    case True
    with g assms(2) old show ?thesis
      by (auto simp: fiber_ok_def ch new_fiber_def Let_def child_fiber_def chain_def
          split: option.splits)
  next
    case False
    with g assms(2) have "fibers w q = Some g" and "fresh_ptr w < fresh_ptr w'"
      by (auto simp: new_fiber_def Let_def)
    with thread_okD [OF assms(1) this(1)] show ?thesis by (simp add: fiber_ok_def ch)
  qed
  with assms old fresh show ?thesis
    by (auto simp: thread_ok_def new_fiber_def Let_def)
qed

lemma thread_ok_resume:
  assumes ok: "thread_ok m s c w" and f: "fibers w p = Some f"
    and partner: "partner f w = Inr (Some c)" and res: "resume p w = Inr w'"
  shows "thread_ok m s p w'"
proof -
  obtain fm fs fc where cur: "fibers w m = Some fm" "fibers w s = Some fs" "fibers w c = Some fc"
      "m_runInScheduler fm = None" "fiber_st fm = RUNNING" "fiber_st fc = RUNNING"
      "m_runInScheduler fs \<noteq> Some True"
    using ok by (rule thread_ok_current)
  have ready: "fiber_st f = READY"
    using res f by (auto simp: fiber_defs res_simps)
  obtain b where b: "m_runInScheduler f = Some b"
      "(if b then t_scheduler_fiber w else t_thread_fiber w) = Some c"
    using partner by (auto simp: res_simps)
  have c: "c = (if b then s else m)" using b(2) ok by (auto simp: thread_ok_def split: if_splits)
  have ne: "c \<noteq> p" "m \<noteq> p" "b \<Longrightarrow> s \<noteq> p" using ready cur f b(1) c by auto
  have w': "w' = w\<lparr>t_fiber := Some p,
      fibers := (fibers w)(p \<mapsto> f\<lparr>fiber_st := RUNNING\<rparr>, c \<mapsto> fc\<lparr>m_ctx := Saved (cur w)\<rparr>),
      cur := continue_in p (m_ctx f)\<rparr>"
    using res resume_eq [OF f ready b ne(1) cur(3)] by simp
  have old: "chain m s c w = {m, c}"
    using c cur by (cases b) (auto simp: chain_def)
  have new: "chain m s p w' = {m, p, c}"
    using c b(1) ne by (auto simp: chain_def w')
  have ctx: "m_ctx f = Saved (On_stack p) \<or> m_ctx f = Fresh"
    using thread_okD [OF ok f] ne ready by (auto simp: fiber_ok_def home_def)
  have "fiber_ok m s p w' q g" if g: "fibers w' q = Some g" for q g
  proof -
    consider "q = p" | "q = c" | "q \<noteq> p" "q \<noteq> c" by blast
    then show ?thesis
    proof cases
      case 1
      with g ne have "g = f\<lparr>fiber_st := RUNNING\<rparr>" by (simp add: w')
      then show ?thesis
        using thread_okD [OF ok f] 1 b(1) ne new by (auto simp: fiber_ok_def w')
    next
      case 2
      with g ne have "g = fc\<lparr>m_ctx := Saved (cur w)\<rparr>" by (simp add: w')
      then show ?thesis
        using thread_okD [OF ok cur(3)] 2 ok new cur(6)
        by (auto simp: fiber_ok_def w' thread_ok_def)
    next
      case 3
      with g have "fibers w q = Some g" by (simp add: w')
      then show ?thesis
        using thread_okD [OF ok, of q g] 3 new old by (auto simp: fiber_ok_def w')
    qed
  qed
  with ok ctx ne cur show ?thesis
    by (auto simp: thread_ok_def w' home_def continue_in_def)
qed

lemma thread_ok_switch_back:
  assumes ok: "thread_ok m s c w" and f: "fibers w c = Some f"
    and f': "m_runInScheduler f' = m_runInScheduler f" "m_stack f' = m_stack f"
      "fiber_st f' \<noteq> READY"
    and res: "fiber_yield c (w\<lparr>fibers := (fibers w)(c \<mapsto> f')\<rparr>) = Inr w'"
  shows "\<exists>q. thread_ok m s q w'"
proof -
  let ?w = "w\<lparr>fibers := (fibers w)(c \<mapsto> f')\<rparr>"
  obtain fm fs fc where cur: "fibers w m = Some fm" "fibers w s = Some fs" "fibers w c = Some fc"
      "m_runInScheduler fm = None" "fiber_st fm = RUNNING" "fiber_st fc = RUNNING"
      "m_runInScheduler fs \<noteq> Some True"
    using ok by (rule thread_ok_current)
  obtain b where b: "m_runInScheduler f = Some b"
    using res f' by (auto simp: fiber_defs res_simps)
  define q where "q = (if b then s else m)"
  have ne: "c \<noteq> m" "q \<noteq> c" using b f cur by (auto simp: q_def split: if_splits)
  obtain g where g: "fibers w q = Some g" using cur by (cases b) (auto simp: q_def)
  have tq: "(if b then t_scheduler_fiber ?w else t_thread_fiber ?w) = Some q"
    using ok by (auto simp: thread_ok_def q_def)
  have w': "w' = ?w\<lparr>t_fiber := Some q, fibers := (fibers ?w)(c \<mapsto>
        (if fiber_st f' = TERMINATED then f' else f'\<lparr>fiber_st := READY\<rparr>)\<lparr>m_ctx := Saved (cur ?w)\<rparr>),
      cur := continue_in q (m_ctx g)\<rparr>"
    using res yield_eq [of ?w c f' b q g] f'(1,3) b tq ne g by simp
  have old: "chain m s c w = {m, q, c}"
    using f b by (auto simp: chain_def q_def)
  have new: "chain m s q w' = {m, q}"
    using cur ne g by (auto simp: chain_def w' q_def split: if_splits)
  have run: "fiber_st g = RUNNING" and gctx: "m_ctx g = Saved (home m q)"
    using thread_okD [OF ok g] old ne by (auto simp: fiber_ok_def)
  have "fiber_ok m s q w' r h" if h: "fibers w' r = Some h" for r h
  proof (cases "r = c")
    case True
    with h have hdef: "h = (if fiber_st f' = TERMINATED then f' else f'\<lparr>fiber_st := READY\<rparr>)\<lparr>m_ctx := Saved (cur w)\<rparr>"
      by (simp add: w')
    have "m_runInScheduler h = Some b" "m_stack h = m_stack f" "fiber_st h \<noteq> RUNNING"
        "m_ctx h = Saved (home m c)"
      using f' b ok by (cases "fiber_st f'"; simp add: hdef thread_ok_def)+
    then show ?thesis
      using thread_okD [OF ok f] True new ne b by (auto simp: fiber_ok_def w')
  next
    case False
    with h have "fibers w r = Some h" by (simp add: w')
    then show ?thesis
      using thread_okD [OF ok, of r h] False new old by (auto simp: fiber_ok_def w')
  qed
  moreover have "cur w' = home m q" using gctx by (simp add: w' continue_in_def)
  ultimately have "thread_ok m s q w'"
    using ok cur g ne by (auto simp: thread_ok_def w')
  then show ?thesis by blast
qed

lemma thread_ok_yield:
  assumes "thread_ok m s c w" and "fiber_yield c w = Inr w'"
  shows "\<exists>q. thread_ok m s q w'"
proof -
  obtain fc where c: "fibers w c = Some fc" "fiber_st fc = RUNNING"
    using assms(1) by (rule thread_ok_current)
  moreover from c have "w\<lparr>fibers := (fibers w)(c \<mapsto> fc)\<rparr> = w" by (simp add: fun_upd_idem)
  ultimately show ?thesis
    using thread_ok_switch_back [OF assms(1) c(1), of fc w'] assms(2) by simp
qed

lemma thread_ok_leave:
  assumes "thread_ok m s c w" and "MainFunc_leave c w = Inr w'"
  shows "\<exists>q. thread_ok m s q w'"
proof -
  obtain fc where c: "fibers w c = Some fc"
    using assms(1) by (rule thread_ok_current)
  show ?thesis
    using thread_ok_switch_back [OF assms(1) c, of "fc\<lparr>fiber_cb := None, fiber_st := TERMINATED\<rparr>" w']
      assms(2) c by (simp add: MainFunc_leave_def upd_fiber_def)
qed

lemma thread_ok_reset:
  assumes ok: "thread_ok m s c w" and "fiber_reset p cb w = Inr w'"
  shows "thread_ok m s c w'"
proof -
  obtain f where f: "fibers w p = Some f" "m_stack f" "fiber_st f = TERMINATED"
      and w': "w' = upd_fiber p (\<lambda>f. f\<lparr>fiber_st := READY, fiber_cb := cb, m_ctx := Fresh\<rparr>) w"
    using assms(2) by (auto simp: fiber_reset_def res_simps)
  have pc: "p \<notin> chain m s c w" using thread_okD [OF ok f(1)] f(3) by (simp add: fiber_ok_def)
  then have ch: "chain m s c w' = chain m s c w"
    by (intro chain_cong) (auto simp: w' chain_def)
  have "fiber_ok m s c w' q g" if "fibers w' q = Some g" for q g
    using that thread_okD [OF ok, of q] f pc ch
    by (cases "q = p") (auto simp: fiber_ok_def w' chain_def)
  with ok f show ?thesis by (auto simp: thread_ok_def w')
qed

lemma thread_ok_set_scheduler:
  assumes ok: "thread_ok m s m w" and p: "fibers w p = Some f" "m_runInScheduler f = Some False"
  shows "thread_ok m p m (SetSchedulerFiber (Some p) w)"
proof -
  obtain fm where m: "fibers w m = Some fm" "m_runInScheduler fm = None"
    using ok by (rule thread_ok_current)
  have "chain m s' m w' = {m}" if "fibers w' = fibers w" for s' w'
    using m that by (simp add: chain_def)
  then show ?thesis
    using ok p by (auto simp: thread_ok_def fiber_ok_def SetSchedulerFiber_def)
qed

lemma thread_ok_delete:
  assumes "thread_ok m s c w" and "p \<noteq> m" "p \<noteq> s" "p \<noteq> c"
  shows "thread_ok m s c (delete_fiber p w)"
proof -
  have "chain m s c (delete_fiber p w) = chain m s c w"
    using assms(4) by (intro chain_cong) (simp add: delete_fiber_def)
  then show ?thesis
    using assms by (auto simp: thread_ok_def delete_fiber_def fiber_ok_def)
qed

lemma fiber_inv_step: "fiber_step w w' \<Longrightarrow> fiber_inv w \<Longrightarrow> fiber_inv w'"
proof (induction rule: fiber_step.induct)
  case (create cb ss b w p w')
  then show ?case by (auto simp: fiber_inv_def intro: fiber_inv_create)
next
  case (resume w q p f w')
  then obtain m s where "thread_ok m s q w" by (auto simp: fiber_inv_def thread_ok_def)
  with resume show ?case using thread_ok_resume [of m s q w p f w'] by (auto simp: fiber_inv_def)
next
  case (yield w p w')
  then obtain m s c where "thread_ok m s c w" by (auto simp: fiber_inv_def)
  with yield show ?case using thread_ok_yield [of m s c w w'] by (auto simp: fiber_inv_def thread_ok_def)
next
  case (leave w p w')
  then obtain m s c where "thread_ok m s c w" by (auto simp: fiber_inv_def)
  with leave show ?case using thread_ok_leave [of m s c w w'] by (auto simp: fiber_inv_def thread_ok_def)
next
  case (reset p cb w w')
  then show ?case by (auto simp: fiber_inv_def intro: thread_ok_reset)
next
  case (set_scheduler w p f)
  then obtain m s c where ok: "thread_ok m s c w" by (auto simp: fiber_inv_def)
  with set_scheduler(1) have "c = m" by (auto simp: thread_ok_def)
  with ok set_scheduler show ?case by (auto simp: fiber_inv_def intro: thread_ok_set_scheduler)
next
  case (delete p w)
  then obtain m s c where ok: "thread_ok m s c w" by (auto simp: fiber_inv_def)
  with delete have "thread_ok m s c (delete_fiber p w)"
    by (intro thread_ok_delete) (auto simp: thread_ok_def)
  then show ?case by (auto simp: fiber_inv_def)
qed

interpretation fiber_disc: inductive_invariant fiber_init fiber_step fiber_inv
  by unfold_locales (auto intro: fiber_inv_init fiber_inv_step)

section \<open>Properties\<close>

text \<open>
  A thread for the concrete instances: its main fiber 0 is also the scheduler fiber, and fiber 1
  runs under it.
\<close>

definition ex_world0 :: fiber_world where
  "ex_world0 = \<lparr>fibers = (\<lambda>_. None), fresh_ptr = 0, s_fiber_id = 0, s_fiber_cnt = 0, t_fiber = None,
     t_thread_fiber = None, t_scheduler_fiber = None, cur = On_thread\<rparr>"

definition ex_main :: fiber where
  "ex_main = \<lparr>m_id = 0, m_stacksize = 0, fiber_st = RUNNING, m_ctx = Saved On_thread,
     m_stack = False, fiber_cb = None, m_runInScheduler = None\<rparr>"

definition ex_child :: "u64 \<Rightarrow> fiber" where
  "ex_child i = \<lparr>m_id = i, m_stacksize = 128000, fiber_st = READY, m_ctx = Fresh, m_stack = True,
     fiber_cb = Some (User_cb 5), m_runInScheduler = Some True\<rparr>"

definition ex_world :: fiber_world where
  "ex_world = \<lparr>fibers = [0 \<mapsto> ex_main, 1 \<mapsto> ex_child 1, 2 \<mapsto> ex_child 2],
     fresh_ptr = 3, s_fiber_id = 3, s_fiber_cnt = 3, t_fiber = Some 0,
     t_thread_fiber = Some 0, t_scheduler_fiber = Some 0, cur = On_thread\<rparr>"

lemmas ex_fiber_defs = ex_world0_def ex_main_def ex_child_def ex_world_def

lemma ex_world_reach: "reach fiber_init fiber_step ex_world"
proof -
  have g: "GetThis ex_world0 = Inr (0, snd (projr (GetThis ex_world0)))" (is "_ = Inr (0, ?w1)")
    by (simp add: GetThis_def new_main_fiber_def Let_def ex_fiber_defs)
  have "reach fiber_init fiber_step ?w1"
    by (rule reach_init, unfold fiber_init_def, intro exI [of _ ex_world0] exI [of _ 0])
      (use g in \<open>simp add: ex_world0_def\<close>)
  from reach_step [OF this fiber_step.create [of "Some (User_cb 5)" 0 True _ 1]]
  have "reach fiber_init fiber_step (snd (new_fiber (Some (User_cb 5)) 0 True ?w1))" (is "reach _ _ ?w2")
    by (simp add: GetThis_def new_main_fiber_def Let_def ex_fiber_defs new_fiber_def)
  from reach_step [OF this fiber_step.create [of "Some (User_cb 5)" 0 True _ 2]]
  have "reach fiber_init fiber_step (snd (new_fiber (Some (User_cb 5)) 0 True ?w2))"
    by (simp add: GetThis_def new_main_fiber_def Let_def ex_fiber_defs new_fiber_def)
  moreover have "snd (new_fiber (Some (User_cb 5)) 0 True ?w2) = ex_world"
    by (simp add: GetThis_def new_main_fiber_def main_fiber_def Let_def ex_fiber_defs new_fiber_def
        child_fiber_def SetThis_def numeral_2_eq_2)
  ultimately show ?thesis by simp
qed

text \<open>
  C10: as long as \<open>resume\<close> is called from the fiber the resumed one yields to, the pointer
  \<open>GetThis()\<close> returns always names the fiber whose code the thread is executing (on the thread's
  own stack for its main fiber, on the fiber's stack otherwise). The fibers that are \<open>RUNNING\<close> are
  that one, the main fiber, and the scheduler fiber when the current one trades places with it, and
  no other. Every other fiber that has not ended has its own place saved, where it is continued
  when control comes back to it, or has not started and waits at its entry.
\<close>

theorem current_fiber_is_the_running_one:
  assumes "reach fiber_init fiber_step w"
  shows "\<exists>m s c f. t_thread_fiber w = Some m \<and> t_scheduler_fiber w = Some s
           \<and> GetThis w = Inr (c, w) \<and> fibers w c = Some f \<and> fiber_st f = RUNNING
           \<and> cur w = (if c = m then On_thread else On_stack c)
           \<and> (\<forall>p g. fibers w p = Some g \<longrightarrow>
                (fiber_st g = RUNNING \<longleftrightarrow> p = m \<or> p = c \<or> p = s \<and> m_runInScheduler f = Some True)
                \<and> (p \<noteq> c \<and> fiber_st g \<noteq> TERMINATED \<longrightarrow>
                     m_ctx g = Saved (if p = m then On_thread else On_stack p)
                     \<or> fiber_st g \<noteq> RUNNING \<and> m_ctx g = Fresh))"
proof -
  obtain m s c where ok: "thread_ok m s c w"
    using fiber_disc.reach_inv [OF assms] by (auto simp: fiber_inv_def)
  then obtain fc where fc: "fibers w c = Some fc" "fiber_st fc = RUNNING"
    by (rule thread_ok_current)
  then have "p \<in> chain m s c w \<longleftrightarrow> p = m \<or> p = c \<or> p = s \<and> m_runInScheduler fc = Some True" for p
    by (auto simp: chain_def)
  with ok fc show ?thesis
    by (intro exI [of _ m] exI [of _ s] exI [of _ c] exI [of _ fc])
      (auto simp: thread_ok_def fiber_ok_def GetThis_def home_def)
qed

theorem current_fiber_is_the_running_one_witness:
  "\<exists>c. GetThis ex_world = Inr (c, ex_world) \<and> cur ex_world = On_thread"
  using current_fiber_is_the_running_one [OF ex_world_reach]
  by (auto simp: ex_fiber_defs)

text \<open>
  \<open>resume\<close> of a \<open>READY\<close> fiber continues it on its own stack, at its entry or where it last
  yielded, with \<open>GetThis()\<close> naming it; its \<open>yield\<close> brings the thread back to the flow that
  called \<open>resume\<close>, with the partner fiber current again, the fiber \<open>READY\<close> and its place saved,
  and no other fiber touched.
\<close>

theorem resume_yield_returns:
  assumes "fibers w p = Some f" and "fiber_st f = READY" and "m_runInScheduler f = Some b"
    and "m_ctx f = Fresh \<or> m_ctx f = Saved (On_stack p)"
    and "(if b then t_scheduler_fiber w else t_thread_fiber w) = Some q"
    and "q \<noteq> p" and "fibers w q = Some g"
  shows "\<exists>w1 w2. resume p w = Inr w1 \<and> cur w1 = On_stack p \<and> t_fiber w1 = Some p
           \<and> map_option fiber_st (fibers w1 p) = Some RUNNING
           \<and> fiber_yield p w1 = Inr w2 \<and> cur w2 = cur w \<and> t_fiber w2 = Some q
           \<and> fibers w2 = (fibers w)(p \<mapsto> f\<lparr>m_ctx := Saved (On_stack p)\<rparr>,
                                    q \<mapsto> g\<lparr>m_ctx := Saved (cur w)\<rparr>)"
proof -
  define w1 where "w1 = w\<lparr>t_fiber := Some p,
      fibers := (fibers w)(p \<mapsto> f\<lparr>fiber_st := RUNNING\<rparr>, q \<mapsto> g\<lparr>m_ctx := Saved (cur w)\<rparr>),
      cur := continue_in p (m_ctx f)\<rparr>"
  have w1: "resume p w = Inr w1" using resume_eq [OF assms(1-3,5-7)] by (simp add: w1_def)
  have tq: "(if b then t_scheduler_fiber w1 else t_thread_fiber w1) = Some q"
    using assms(5) by (cases b) (simp_all add: w1_def)
  have "cur w1 = On_stack p" using assms(4) by (auto simp: w1_def continue_in_def)
  moreover have y: "fiber_yield p w1 = Inr (w1\<lparr>t_fiber := Some q,
      fibers := (fibers w1)(p \<mapsto> f\<lparr>fiber_st := READY, m_ctx := Saved (cur w1)\<rparr>),
      cur := continue_in q (Saved (cur w))\<rparr>)"
    using yield_eq [OF _ _ _ tq assms(6), of "f\<lparr>fiber_st := RUNNING\<rparr>" "g\<lparr>m_ctx := Saved (cur w)\<rparr>"]
      assms(3,6) by (simp add: w1_def)
  ultimately show ?thesis
    using w1 assms(2,6) by (auto simp: w1_def continue_in_def fun_upd_twist)
qed

theorem resume_yield_returns_witness:
  "\<exists>w1 w2. resume 1 ex_world = Inr w1 \<and> cur w1 = On_stack 1
     \<and> fiber_yield 1 w1 = Inr w2 \<and> cur w2 = On_thread"
  using resume_yield_returns [of ex_world 1 "ex_child 1" True 0 ex_main]
  by (auto simp: ex_fiber_defs)

text \<open>
  When the closure of a resumed fiber returns, \<open>MainFunc\<close> drops it and gives control back to
  the flow that resumed the fiber, which is then \<open>TERM\<close>; from then on \<open>resume\<close> fails its
  assertion until \<open>reset\<close>, which makes the fiber start its new closure from the beginning.
\<close>

theorem finished_fiber_needs_reset:
  assumes "fibers w p = Some f" and "fiber_st f = READY" and "m_runInScheduler f = Some b"
    and "(if b then t_scheduler_fiber w else t_thread_fiber w) = Some q"
    and "q \<noteq> p" and "fibers w q = Some g" and "m_stack f"
  shows "\<exists>w1 w2 w3. resume p w = Inr w1 \<and> MainFunc_leave p w1 = Inr w2
           \<and> cur w2 = cur w \<and> t_fiber w2 = Some q
           \<and> map_option fiber_st (fibers w2 p) = Some TERMINATED
           \<and> map_option fiber_cb (fibers w2 p) = Some None
           \<and> resume p w2 = Inl Assertion_failed
           \<and> fiber_reset p (Some cb) w2 = Inr w3
           \<and> (\<exists>w4. resume p w3 = Inr w4 \<and> cur w4 = On_stack p
                \<and> MainFunc_enter w4 = Inr (p, cb, w4))"
proof -
  define w1 where "w1 = w\<lparr>t_fiber := Some p,
      fibers := (fibers w)(p \<mapsto> f\<lparr>fiber_st := RUNNING\<rparr>, q \<mapsto> g\<lparr>m_ctx := Saved (cur w)\<rparr>),
      cur := continue_in p (m_ctx f)\<rparr>"
  have w1: "resume p w = Inr w1" using resume_eq [OF assms(1-6)] by (simp add: w1_def)
  define f2 where "f2 = f\<lparr>fiber_cb := None, fiber_st := TERMINATED, m_ctx := Saved (cur w1)\<rparr>"
  define w2 where "w2 = w1\<lparr>t_fiber := Some q, fibers := (fibers w1)(p \<mapsto> f2), cur := cur w\<rparr>"
  define w1' where "w1' = w1\<lparr>fibers := (fibers w1)(p \<mapsto> f\<lparr>fiber_cb := None, fiber_st := TERMINATED\<rparr>)\<rparr>"
  have tq: "(if b then t_scheduler_fiber w1' else t_thread_fiber w1') = Some q"
    using assms(4) by (cases b) (simp_all add: w1'_def w1_def)
  have "MainFunc_leave p w1 = fiber_yield p w1'"
    using assms(5) by (simp add: MainFunc_leave_def upd_fiber_def w1_def w1'_def)
  then have w2: "MainFunc_leave p w1 = Inr w2"
    using yield_eq [OF _ _ _ tq assms(5), of "f\<lparr>fiber_cb := None, fiber_st := TERMINATED\<rparr>"
        "g\<lparr>m_ctx := Saved (cur w)\<rparr>"] assms(3,5)
    by (simp add: w1_def w1'_def w2_def f2_def continue_in_def)
  define f3 where "f3 = f2\<lparr>fiber_st := READY, fiber_cb := Some cb, m_ctx := Fresh\<rparr>"
  define w3 where "w3 = w2\<lparr>fibers := (fibers w2)(p \<mapsto> f3)\<rparr>"
  have w3: "fiber_reset p (Some cb) w2 = Inr w3"
    using assms(7) by (simp add: fiber_reset_def w2_def w3_def f3_def f2_def upd_fiber_def)
  have f3: "fibers w3 p = Some f3" "fiber_st f3 = READY" "m_runInScheduler f3 = Some b"
      "m_ctx f3 = Fresh" "fiber_cb f3 = Some cb"
    using assms(3) by (simp_all add: w3_def f3_def f2_def)
  have q3: "(if b then t_scheduler_fiber w3 else t_thread_fiber w3) = Some q"
      "fibers w3 q = Some (g\<lparr>m_ctx := Saved (cur w)\<rparr>)"
    using assms(4,5) by (cases b; simp add: w3_def w2_def w1_def)+
  obtain w4 where w4: "resume p w3 = Inr w4" "cur w4 = On_stack p" "t_fiber w4 = Some p"
      "fibers w4 p = Some (f3\<lparr>fiber_st := RUNNING\<rparr>)"
    using resume_eq [OF f3(1-3) q3(1) assms(5) q3(2)] f3(4) assms(5) by (simp add: continue_in_def)
  then have "MainFunc_enter w4 = Inr (p, cb, w4)"
    using f3(5) by (simp add: MainFunc_enter_def GetThis_def)
  moreover have "resume p w2 = Inl Assertion_failed"
    by (simp add: resume_def w2_def f2_def)
  ultimately show ?thesis
    using w1 w2 w3 w4 by (auto simp: w2_def f2_def)
qed

theorem finished_fiber_needs_reset_witness:
  "\<exists>w1 w2. resume 1 ex_world = Inr w1 \<and> MainFunc_leave 1 w1 = Inr w2
     \<and> resume 1 w2 = Inl Assertion_failed"
  using finished_fiber_needs_reset [of ex_world 1 "ex_child 1" True 0 ex_main "User_cb 7"]
  by (auto simp: ex_fiber_defs)

text \<open>
  A fiber running under the scheduler fiber that resumes another one of the same kind breaks
  the discipline: \<open>resume\<close> saves the flow of the first fiber over the one saved in the scheduler
  fiber, so the second fiber's \<open>yield\<close> comes back into the first fiber's code while \<open>GetThis()\<close>
  names the scheduler fiber, and the flow of the scheduler is saved nowhere.
\<close>

theorem nested_resume_loses_the_scheduler:
  assumes "t_scheduler_fiber w = Some s" and "fibers w s = Some fs"
    and "m_ctx fs = Saved fl" and "cur w = On_stack p" and "fl \<noteq> On_stack p"
    and "fibers w r = Some f" and "fiber_st f = READY" and "m_runInScheduler f = Some True"
    and "s \<noteq> r" and "s \<noteq> p"
  shows "\<exists>w1 w2. resume r w = Inr w1 \<and> fiber_yield r w1 = Inr w2
           \<and> cur w2 = On_stack p \<and> t_fiber w2 = Some s
           \<and> map_option m_ctx (fibers w2 s) = Some (Saved (On_stack p))"
proof -
  define w1 where "w1 = w\<lparr>t_fiber := Some r,
      fibers := (fibers w)(r \<mapsto> f\<lparr>fiber_st := RUNNING\<rparr>, s \<mapsto> fs\<lparr>m_ctx := Saved (cur w)\<rparr>),
      cur := continue_in r (m_ctx f)\<rparr>"
  have "resume r w = Inr w1"
    using resume_eq [OF assms(6-8), of s fs] assms by (simp add: w1_def)
  moreover have "fiber_yield r w1 = Inr (w1\<lparr>t_fiber := Some s,
      fibers := (fibers w1)(r \<mapsto> f\<lparr>fiber_st := READY, m_ctx := Saved (cur w1)\<rparr>),
      cur := continue_in s (Saved (cur w))\<rparr>)"
    using yield_eq [of w1 r "f\<lparr>fiber_st := RUNNING\<rparr>" True s "fs\<lparr>m_ctx := Saved (cur w)\<rparr>"] assms
    by (simp add: w1_def)
  ultimately show ?thesis
    using assms by (auto simp: w1_def continue_in_def)
qed

theorem nested_resume_loses_the_scheduler_witness:
  "\<exists>w w1 w2. resume 1 ex_world = Inr w \<and> resume 2 w = Inr w1 \<and> fiber_yield 2 w1 = Inr w2
     \<and> cur w2 = On_stack 1 \<and> t_fiber w2 = Some 0"
proof -
  obtain w where w: "resume 1 ex_world = Inr w" "t_scheduler_fiber w = Some 0"
      "fibers w 0 = Some (ex_main\<lparr>m_ctx := Saved On_thread\<rparr>)" "cur w = On_stack 1"
      "fibers w 2 = Some (ex_child 2)"
    using resume_eq [of ex_world 1 "ex_child 1" True 0 ex_main]
    by (auto simp: ex_fiber_defs continue_in_def)
  then show ?thesis
    using nested_resume_loses_the_scheduler [OF w(2,3) _ w(4) _ w(5)]
    by (auto simp: ex_fiber_defs)
qed

text \<open>
  On its main fiber, which the default constructor leaves with \<open>m_runInScheduler\<close> unset, a
  thread cannot \<open>yield\<close>: the call reads the uninitialised member. A hooked \<open>sleep\<close> or a blocking
  call on the main fiber does just that.
\<close>

theorem main_fiber_cannot_yield:
  assumes "reach fiber_init fiber_step w" and "t_fiber w = t_thread_fiber w"
  shows "\<exists>m. GetThis w = Inr (m, w) \<and> fiber_yield m w = Inl Uninitialised"
proof -
  obtain m s c where ok: "thread_ok m s c w"
    using fiber_disc.reach_inv [OF assms(1)] by (auto simp: fiber_inv_def)
  then obtain fm where "fibers w m = Some fm" "fiber_st fm = RUNNING" "m_runInScheduler fm = None"
    by (rule thread_ok_current)
  moreover have "t_fiber w = Some m" using ok assms(2) by (simp add: thread_ok_def)
  ultimately show ?thesis
    by (auto simp: GetThis_def fiber_yield_def Let_def partner_def)
qed

theorem main_fiber_cannot_yield_witness:
  "fiber_yield 0 ex_world = Inl Uninitialised"
  using main_fiber_cannot_yield [OF ex_world_reach]
  by (auto simp: ex_fiber_defs GetThis_def)

end
