(* ===== verification/Threads.thy ===== *)
theory Threads
  imports Closures
begin

text \<open>
  \<open>code/thread.h\<close> and \<open>code/thread.cpp\<close>: the semaphore, the \<open>Thread\<close> object, the start-up handshake
  between the constructor and the new thread as a step relation, \<open>join\<close>, the destructor, and the
  names. What pthreads returns (result codes, handles, thread ids) comes in as arguments.
\<close>

section \<open>Semaphore\<close>

record semaphore =
  cnt :: int

definition new_semaphore :: "int \<Rightarrow> semaphore" where
  "new_semaphore c = \<lparr>cnt = c\<rparr>"

text \<open>\<open>wait\<close> gives \<open>None\<close> where it stays in its loop.\<close>

definition sem_wait :: "semaphore \<Rightarrow> semaphore option" where
  "sem_wait s = (if cnt s = 0 then None else Some (s\<lparr>cnt := s32 (cnt s - 1)\<rparr>))"

definition sem_signal :: "semaphore \<Rightarrow> semaphore" where
  "sem_signal s = s\<lparr>cnt := s32 (cnt s + 1)\<rparr>"

section \<open>The thread object\<close>

type_synonym pthread = nat                 \<comment> \<open>a handle, 0 for none\<close>

record thread =
  th_id :: int                             \<comment> \<open>\<open>m_id\<close>\<close>
  th_pthread :: pthread                    \<comment> \<open>\<open>m_thread\<close>\<close>
  th_cb :: "closure option"                \<comment> \<open>\<open>m_cb\<close>\<close>
  th_name :: string                        \<comment> \<open>\<open>m_name\<close>\<close>
  th_semaphore :: semaphore                \<comment> \<open>\<open>m_semaphore\<close>\<close>

text \<open>The members as the initialiser list leaves them.\<close>

definition init_thread :: "closure option \<Rightarrow> string \<Rightarrow> thread" where
  "init_thread cb name =
     \<lparr>th_id = - 1, th_pthread = 0, th_cb = cb, th_name = name, th_semaphore = new_semaphore 0\<rparr>"

text \<open>What the new thread has of its own: its thread-local variables and the name the system shows.\<close>

record thread_own =
  t_thread :: bool                         \<comment> \<open>\<open>t_thread\<close> points to the object\<close>
  t_thread_name :: string
  os_name :: string

definition init_own :: "string \<Rightarrow> thread_own" where
  "init_own comm = \<lparr>t_thread = False, t_thread_name = ''UNKNOWN'', os_name = comm\<rparr>"

section \<open>The handshake\<close>

datatype ctor_pc = Ctor_entered | Ctor_waiting | Ctor_returned | Ctor_threw
datatype run_pc = Run_not_started | Run_entered | Run_named | Run_took_cb | Run_calls "closure option"

record start_up =
  obj :: thread
  own :: thread_own
  at_ctor :: ctor_pc
  at_run :: run_pc

text \<open>\<open>Thread::Thread\<close>: the call of \<open>pthread_create\<close> with result \<open>rt\<close> and handle \<open>h\<close>, then \<open>wait\<close>.\<close>

definition ctor_create :: "int \<Rightarrow> pthread \<Rightarrow> start_up \<Rightarrow> start_up" where
  "ctor_create rt h s =
     (if rt \<noteq> 0 then s\<lparr>at_ctor := Ctor_threw\<rparr>
      else s\<lparr>obj := (obj s)\<lparr>th_pthread := h\<rparr>, at_ctor := Ctor_waiting, at_run := Run_entered\<rparr>)"

definition ctor_wait :: "start_up \<Rightarrow> start_up option" where
  "ctor_wait s =
     (case sem_wait (th_semaphore (obj s)) of
        None \<Rightarrow> None
      | Some sem \<Rightarrow> Some (s\<lparr>obj := (obj s)\<lparr>th_semaphore := sem\<rparr>, at_ctor := Ctor_returned\<rparr>))"

text \<open>\<open>Thread::run\<close>: names and id (\<open>tid\<close> from the system), the swap of the closure, the signal.\<close>

definition run_setup :: "int \<Rightarrow> start_up \<Rightarrow> start_up" where
  "run_setup tid s =
     s\<lparr>own := (own s)\<lparr>t_thread := True, t_thread_name := th_name (obj s),
                      os_name := take 15 (th_name (obj s))\<rparr>,
       obj := (obj s)\<lparr>th_id := tid\<rparr>, at_run := Run_named\<rparr>"

definition run_signal :: "closure option \<Rightarrow> start_up \<Rightarrow> start_up" where
  "run_signal cb s =
     s\<lparr>obj := (obj s)\<lparr>th_semaphore := sem_signal (th_semaphore (obj s))\<rparr>, at_run := Run_calls cb\<rparr>"

definition run_swap :: "start_up \<Rightarrow> closure option \<times> start_up" where
  "run_swap s = (th_cb (obj s), s\<lparr>obj := (obj s)\<lparr>th_cb := None\<rparr>, at_run := Run_took_cb\<rparr>)"

text \<open>
  The closure between the swap and the signal is a local variable of \<open>run\<close>, paired here with the
  rest of the state; \<open>tid\<close> and \<open>h\<close> are the id and the handle the system gives.
\<close>

inductive start_step ::
  "int \<Rightarrow> pthread \<Rightarrow> start_up \<times> closure option \<Rightarrow> start_up \<times> closure option \<Rightarrow> bool"
for tid h where
  creates: "at_ctor s = Ctor_entered \<Longrightarrow> start_step tid h (s, l) (ctor_create rt h s, l)"
| ctor_wakes: "at_ctor s = Ctor_waiting \<Longrightarrow> ctor_wait s = Some s' \<Longrightarrow> start_step tid h (s, l) (s', l)"
| enter_run: "at_run s = Run_entered \<Longrightarrow> start_step tid h (s, l) (run_setup tid s, l)"
| take_cb: "at_run s = Run_named \<Longrightarrow> run_swap s = (cb, s') \<Longrightarrow> start_step tid h (s, l) (s', cb)"
| sig: "at_run s = Run_took_cb \<Longrightarrow> start_step tid h (s, l) (run_signal l s, l)"

definition start_init ::
  "closure option \<Rightarrow> string \<Rightarrow> string \<Rightarrow> start_up \<times> closure option \<Rightarrow> bool"
where
  "start_init cb name comm sl \<longleftrightarrow>
     sl = (\<lparr>obj = init_thread cb name, own = init_own comm,
            at_ctor = Ctor_entered, at_run = Run_not_started\<rparr>, None)"

text \<open>
  The constructor as its caller sees it: the system's answer is \<open>None\<close> where \<open>pthread_create\<close>
  fails, and otherwise the id and the handle of the new thread.
\<close>

definition new_thread :: "(int \<times> pthread) option \<Rightarrow> closure option \<Rightarrow> string \<Rightarrow> thread res" where
  "new_thread answer cb name =
     (case answer of
        None \<Rightarrow> Inl Logic_error_thrown
      | Some (tid, h) \<Rightarrow> Inr ((init_thread cb name)\<lparr>th_id := tid, th_pthread := h, th_cb := None\<rparr>))"

section \<open>Join, destruction, names\<close>

text \<open>\<open>Thread::join\<close>; \<open>rt\<close> is the result of \<open>pthread_join\<close>. A throw leaves the object as it was.\<close>

definition thread_join :: "int \<Rightarrow> thread \<Rightarrow> thread res" where
  "thread_join rt t =
     (if th_pthread t \<noteq> 0
      then if rt \<noteq> 0 then Inl Logic_error_thrown else Inr (t\<lparr>th_pthread := 0\<rparr>)
      else Inr t)"

text \<open>\<open>Thread::~Thread\<close>: the handle it detaches, if any.\<close>

definition delete_thread :: "thread \<Rightarrow> pthread option" where
  "delete_thread t = (if th_pthread t \<noteq> 0 then Some (th_pthread t) else None)"

definition SetName :: "string \<Rightarrow> thread \<Rightarrow> thread_own \<Rightarrow> thread \<times> thread_own" where
  "SetName name t w =
     (if t_thread w then t\<lparr>th_name := name\<rparr> else t, w\<lparr>t_thread_name := name\<rparr>)"

definition GetName :: "thread_own \<Rightarrow> string" where
  "GetName w = t_thread_name w"

text \<open>
  The life of a handle after the constructor: any number of \<open>join\<close> calls with results \<open>rts\<close>, whose
  exceptions the caller may catch, then the destructor. \<open>True\<close> marks a handle that was joined,
  \<open>False\<close> one that was detached.
\<close>

fun thread_life :: "int list \<Rightarrow> thread \<Rightarrow> (bool \<times> pthread) list" where
  "thread_life [] t = (case delete_thread t of None \<Rightarrow> [] | Some h \<Rightarrow> [(False, h)])"
| "thread_life (rt # rts) t =
     (case thread_join rt t of
        Inl e \<Rightarrow> thread_life rts t
      | Inr t' \<Rightarrow> (if th_pthread t' \<noteq> th_pthread t then [(True, th_pthread t)] else [])
                   @ thread_life rts t')"

section \<open>The handshake is safe and ends\<close>

text \<open>Where the new thread is, against what the object holds.\<close>

definition start_ok ::
  "int \<Rightarrow> pthread \<Rightarrow> closure option \<Rightarrow> string \<Rightarrow> string \<Rightarrow> start_up \<times> closure option \<Rightarrow> bool"
where
  "start_ok tid h cb name comm sl \<longleftrightarrow> (case sl of (s, l) \<Rightarrow>
     th_name (obj s) = name
   \<and> (at_ctor s \<in> {Ctor_entered, Ctor_threw} \<longleftrightarrow> at_run s = Run_not_started)
   \<and> (at_run s = Run_not_started \<longrightarrow> obj s = init_thread cb name \<and> own s = init_own comm)
   \<and> (at_run s \<in> {Run_entered, Run_named} \<longrightarrow> th_cb (obj s) = cb)
   \<and> (at_run s \<notin> {Run_not_started, Run_entered} \<longrightarrow>
        th_id (obj s) = tid
        \<and> own s = \<lparr>t_thread = True, t_thread_name = name, os_name = take 15 name\<rparr>)
   \<and> (at_run s \<noteq> Run_not_started \<longrightarrow> th_pthread (obj s) = h)
   \<and> (at_run s = Run_took_cb \<longrightarrow> l = cb \<and> th_cb (obj s) = None)
   \<and> (\<forall>c. at_run s = Run_calls c \<longrightarrow> c = cb \<and> th_cb (obj s) = None)
   \<and> cnt (th_semaphore (obj s)) =
       (if (\<exists>c. at_run s = Run_calls c) \<and> at_ctor s = Ctor_waiting then 1 else 0)
   \<and> (at_ctor s = Ctor_returned \<longrightarrow> (\<exists>c. at_run s = Run_calls c)))"

lemmas start_defs = ctor_create_def ctor_wait_def run_setup_def run_signal_def run_swap_def
  sem_wait_def sem_signal_def new_semaphore_def init_thread_def s32_def

lemma start_ok_init: "start_init cb name comm s \<Longrightarrow> start_ok tid h cb name comm s"
  by (simp add: start_init_def start_ok_def start_defs)

lemma start_ok_step:
  assumes "start_ok tid h cb name comm s" and "start_step tid h s t"
  shows "start_ok tid h cb name comm t"
  using assms(2,1)
proof cases
  case (ctor_wakes s s' l)
  then show ?thesis
    using assms(1) by (auto simp: start_ok_def start_defs split: if_splits)
next
  case (sig s l)
  moreover have "at_ctor s \<noteq> Ctor_returned"
    using assms(1) sig by (auto simp: start_ok_def)
  moreover have "at_ctor s = Ctor_waiting"
    using assms(1) sig calculation by (cases "at_ctor s") (auto simp: start_ok_def)
  ultimately show ?thesis
    using assms(1) by (auto simp: start_ok_def start_defs)
qed (auto simp: start_ok_def start_defs)

interpretation handshake:
  inductive_invariant "start_init cb name comm" "start_step tid h" "start_ok tid h cb name comm"
  by unfold_locales (auto intro: start_ok_init start_ok_step)

text \<open>How many steps are left at most.\<close>

fun steps_left :: "start_up \<times> closure option \<Rightarrow> nat" where
  "steps_left (s, l) =
     (case at_ctor s of Ctor_entered \<Rightarrow> 5 | Ctor_waiting \<Rightarrow> 1 | _ \<Rightarrow> 0)
   + (case at_run s of Run_entered \<Rightarrow> 3 | Run_named \<Rightarrow> 2 | Run_took_cb \<Rightarrow> 1 | _ \<Rightarrow> 0)"

lemma steps_left_less:
  assumes "start_ok tid h cb name comm s" "start_step tid h s t"
  shows "steps_left t < steps_left s"
  using assms(2,1)
  by cases (auto simp: start_ok_def start_defs split: if_splits)

lemma start_not_stuck:
  assumes "start_ok tid h cb name comm sl" and "\<And>t. \<not> start_step tid h sl t"
  shows "at_ctor (fst sl) = Ctor_threw \<or> (at_ctor (fst sl) = Ctor_returned
           \<and> at_run (fst sl) = Run_calls cb)"
proof (cases sl)
  case (Pair s l)
  note no = assms(2) [unfolded Pair]
  have "at_ctor s \<noteq> Ctor_entered" using no creates by blast
  moreover have "at_run s \<noteq> Run_entered" using no enter_run by blast
  moreover have "at_run s \<noteq> Run_named" using no take_cb [OF _ prod.collapse [symmetric]] by blast
  moreover have "at_run s \<noteq> Run_took_cb" using no sig by blast
  moreover have "\<not> (at_ctor s = Ctor_waiting \<and> ctor_wait s \<noteq> None)"
    using no ctor_wakes by blast
  ultimately show ?thesis
    using assms(1) unfolding Pair
    by (cases "at_ctor s"; cases "at_run s") (auto simp: start_ok_def start_defs)
qed

section \<open>Properties\<close>

text \<open>
  C35: when the constructor of \<open>Thread\<close> returns, whatever the interleaving with the new thread, the
  object is complete: it has the id the system gave the new thread and its handle, its closure
  has been taken over by the new thread, which is about to call it and knows its name, and the
  semaphore is back at 0. This is what \<open>new_thread\<close>, which \<open>Scheduler::start\<close> uses, says at once.
\<close>

theorem constructor_returns_complete_object:
  assumes "reach (start_init cb name comm) (start_step tid h) (s, l)"
    and "at_ctor s = Ctor_returned"
  shows "new_thread (Some (tid, h)) cb name = Inr (obj s) \<and> at_run s = Run_calls cb
    \<and> t_thread (own s) \<and> GetName (own s) = name \<and> os_name (own s) = take 15 name"
proof -
  have "start_ok tid h cb name comm (s, l)"
    using assms(1) by (rule handshake.reach_inv)
  moreover obtain c where "at_run s = Run_calls c"
    using calculation assms(2) by (auto simp: start_ok_def)
  ultimately show ?thesis
    using assms(2) by (cases "obj s", cases "th_semaphore (obj s)")
      (simp add: start_ok_def new_thread_def init_thread_def new_semaphore_def GetName_def)
qed

theorem constructor_returns_complete_object_witness:
  "\<exists>s :: start_up. at_ctor s = Ctor_returned
     \<and> new_thread (Some (42, 7)) (Some (User_cb 1)) ''worker_number_seventeen'' = Inr (obj s)
     \<and> os_name (own s) = ''worker_number_s''"
proof -
  define r where "r = (\<lambda>s. reach (start_init (Some (User_cb 1)) ''worker_number_seventeen'' ''main'')
    (start_step 42 7) s)"
  note go = reach_step [of "start_init (Some (User_cb 1)) ''worker_number_seventeen'' ''main''"
      "start_step 42 7", folded r_def]
  define s0 where "s0 = \<lparr>obj = init_thread (Some (User_cb 1)) ''worker_number_seventeen'',
    own = init_own ''main'', at_ctor = Ctor_entered, at_run = Run_not_started\<rparr>"
  define s1 where "s1 = ctor_create 0 7 s0"
  define s2 where "s2 = run_setup 42 s1"
  define s3 where "s3 = snd (run_swap s2)"
  define s4 where "s4 = run_signal (Some (User_cb 1)) s3"
  define s5 where "s5 = the (ctor_wait s4)"
  note ev = s0_def s1_def s2_def s3_def s4_def s5_def start_defs
  have "r (s0, None)"
    by (simp add: r_def reach_init start_init_def s0_def)
  then have "r (s1, None)" by (rule go) (use creates [of s0 42 7 None 0] in \<open>simp add: ev\<close>)
  then have "r (s2, None)" by (rule go) (use enter_run [of s1 42 7 None] in \<open>simp add: ev\<close>)
  then have "r (s3, Some (User_cb 1))"
    by (rule go) (rule take_cb, simp_all add: ev)
  then have "r (s4, Some (User_cb 1))"
    by (rule go) (use sig [of s3 42 7 "Some (User_cb 1)"] in \<open>simp add: ev\<close>)
  then have "r (s5, Some (User_cb 1))"
    by (rule go) (rule ctor_wakes, simp_all add: ev)
  then have R: "reach (start_init (Some (User_cb 1)) ''worker_number_seventeen'' ''main'')
      (start_step 42 7) (s5, Some (User_cb 1))"
    by (simp add: r_def)
  have ret: "at_ctor s5 = Ctor_returned" by (simp add: ev)
  show ?thesis
    by (rule exI [of _ s5])
      (use constructor_returns_complete_object [OF R ret] ret in \<open>simp add: GetName_def\<close>)
qed

text \<open>
  C36: the handshake always ends. Every step of it uses up one of at most five, and no reachable
  state blocks before the constructor has either thrown or returned with the closure called; so
  the signal is not lost when it comes before the \<open>wait\<close>.
\<close>

theorem handshake_ends:
  assumes "reach (start_init cb name comm) (start_step tid h) s"
  shows "(\<forall>t. start_step tid h s t \<longrightarrow> steps_left t < steps_left s)
    \<and> ((\<exists>t. start_step tid h s t) \<or> at_ctor (fst s) = Ctor_threw
        \<or> (at_ctor (fst s) = Ctor_returned \<and> at_run (fst s) = Run_calls cb))"
  using handshake.reach_inv [OF assms] steps_left_less start_not_stuck by blast

theorem handshake_ends_witness:
  "\<exists>t. start_step 42 7 (\<lparr>obj = init_thread None ''w'', own = init_own ''main'',
      at_ctor = Ctor_entered, at_run = Run_not_started\<rparr>, None) t"
proof -
  have "reach (start_init None ''w'' ''main'') (start_step 42 7)
    (\<lparr>obj = init_thread None ''w'', own = init_own ''main'',
      at_ctor = Ctor_entered, at_run = Run_not_started\<rparr>, None)"
    by (simp add: reach_init start_init_def)
  from handshake_ends [OF this] show ?thesis by simp
qed

text \<open>
  The handle of a thread is released exactly once. Whatever the results of the \<open>join\<close> calls,
  it is joined by the first one that succeeds, the later ones do nothing, and the destructor
  detaches it exactly when none has succeeded.
\<close>

theorem handle_released_once:
  assumes "new_thread answer cb name = Inr t" and "th_pthread t \<noteq> 0"
  shows "thread_life rts t = [(0 \<in> set rts, th_pthread t)]"
proof -
  have gone: "thread_life rs (t\<lparr>th_pthread := 0\<rparr>) = []" for rs
    by (induction rs) (auto simp: delete_thread_def thread_join_def)
  show ?thesis
    using assms(2) gone
    by (induction rts) (auto simp: delete_thread_def thread_join_def)
qed

theorem handle_released_once_witness:
  "\<exists>t. new_thread (Some (42, 7)) None ''w'' = Inr t \<and> thread_life [35, 0, 0] t = [(True, 7)]"
  using handle_released_once [of "Some (42, 7)" None "''w''" _ "[35, 0, 0]"]
  by (simp add: new_thread_def)

end
