(* ===== verification/Schedulers.thy ===== *)
theory Schedulers
  imports Fibers Threads
begin

text \<open>
  \<open>code/scheduler.h\<close> and \<open>code/scheduler.cpp\<close>: the task queue, the operations of a scheduler and
  the pieces of its worker loop. The record can be extended, as \<open>Scheduler\<close> is inherited by
  \<open>IOManager\<close>; the virtual functions are arguments. Every operation is one critical section of
  \<open>m_mtx\<close>, or a sequence of such pieces that the worker model interleaves.
\<close>

section \<open>Tasks\<close>

record schedule_task =
  task_fiber :: "fiber_ptr option"
  task_cb :: "closure option"
  task_thread :: int               \<comment> \<open>the thread that must run it, \<open>- 1\<close> for any\<close>

definition empty_task :: schedule_task where
  "empty_task = \<lparr>task_fiber = None, task_cb = None, task_thread = - 1\<rparr>"

definition fiber_task :: "fiber_ptr option \<Rightarrow> int \<Rightarrow> schedule_task" where
  "fiber_task f thr = \<lparr>task_fiber = f, task_cb = None, task_thread = thr\<rparr>"

definition cb_task :: "closure option \<Rightarrow> int \<Rightarrow> schedule_task" where
  "cb_task f thr = \<lparr>task_fiber = None, task_cb = f, task_thread = thr\<rparr>"

text \<open>The constructors from pointers swap with their source, which becomes null.\<close>

definition fiber_task_swap :: "fiber_ptr option \<Rightarrow> int \<Rightarrow> schedule_task \<times> fiber_ptr option" where
  "fiber_task_swap f thr = (fiber_task f thr, None)"

definition cb_task_swap :: "closure option \<Rightarrow> int \<Rightarrow> schedule_task \<times> closure option" where
  "cb_task_swap f thr = (cb_task f thr, None)"

text \<open>The condition \<open>task.fiber || task.cb\<close>.\<close>

definition valid_task :: "schedule_task \<Rightarrow> bool" where
  "valid_task t \<longleftrightarrow> task_fiber t \<noteq> None \<or> task_cb t \<noteq> None"

section \<open>The scheduler\<close>

record scheduler =
  m_this :: sched_ptr
  m_name :: string
  m_threads :: "thread option list"   \<comment> \<open>the pool; \<open>None\<close> is a null pointer\<close>
  m_tasks :: "schedule_task list"
  m_threadIds :: "int list"
  m_threadCnt :: u64
  m_activeThreadCnt :: u64
  m_idleThreadCnt :: u64
  m_useCaller :: bool
  m_schedulerFiber :: "fiber_ptr option"
  m_rootThread :: int
  m_stopping :: bool

definition hasIdleThreads :: "'z scheduler_scheme \<Rightarrow> bool" where
  "hasIdleThreads s \<longleftrightarrow> 0 < m_idleThreadCnt s"

text \<open>\<open>Scheduler::tickle\<close>, to be overridden.\<close>

definition base_tickle :: "'z scheduler_scheme \<Rightarrow> 'z scheduler_scheme res" where
  "base_tickle s = Inr s"

text \<open>\<open>Scheduler::stopping\<close>\<close>

definition base_stopping :: "'z scheduler_scheme \<Rightarrow> bool" where
  "base_stopping s \<longleftrightarrow> m_stopping s \<and> m_tasks s = [] \<and> m_activeThreadCnt s = 0"

text \<open>
  The \<open>sleep(1)\<close> of \<open>Scheduler::idle\<close> on a thread of a plain scheduler. It is the one of
  \<open>hook.cpp\<close>: with \<open>t_hook_enable\<close> it calls \<open>addTimer\<close> on what \<open>IOManager::GetThis()\<close> gives, which is
  null on such a thread; without, the thread sleeps and nothing of the model changes.
\<close>

definition idle_sleep :: "bool \<Rightarrow> unit res" where
  "idle_sleep hook_enable = (if hook_enable then deref None else Inr ())"

text \<open>\<open>Scheduler::scheduleLock\<close>\<close>

definition push_task :: "schedule_task \<Rightarrow> 'z scheduler_scheme \<Rightarrow> 'z scheduler_scheme" where
  "push_task t s = (if valid_task t then s\<lparr>m_tasks := m_tasks s @ [t]\<rparr> else s)"

definition scheduleLock ::
  "('z scheduler_scheme \<Rightarrow> 'z scheduler_scheme res) \<Rightarrow> schedule_task
   \<Rightarrow> 'z scheduler_scheme \<Rightarrow> 'z scheduler_scheme res"
where
  "scheduleLock tickle t s =
     (let need_tickle = (m_tasks s = []); s1 = push_task t s
      in if need_tickle then tickle s1 else Inr s1)"

text \<open>
  The scan of \<open>Scheduler::run\<close> through the queue: tasks for other threads are passed over, the
  first other one is taken out. The result has the task, what stays in the queue, and
  \<open>tickle_me\<close>, which ends up true as well when the iterator left by \<open>erase\<close> is not at the end.
\<close>

fun scan_tasks ::
  "int \<Rightarrow> schedule_task list \<Rightarrow> bool \<Rightarrow> (schedule_task option \<times> schedule_task list \<times> bool) res"
where
  "scan_tasks tid [] tickle_me = Inr (None, [], tickle_me)"
| "scan_tasks tid (t # ts) tickle_me =
     (if task_thread t \<noteq> - 1 \<and> task_thread t \<noteq> tid
      then bind_res (scan_tasks tid ts True) (\<lambda>(r, rest, tk). Inr (r, t # rest, tk))
      else bind_res (assert_res (valid_task t)) (\<lambda>_. Inr (Some t, ts, tickle_me \<or> ts \<noteq> [])))"

definition run_fetch ::
  "int \<Rightarrow> 'z scheduler_scheme \<Rightarrow> (schedule_task option \<times> 'z scheduler_scheme \<times> bool) res"
where
  "run_fetch tid s =
     bind_res (scan_tasks tid (m_tasks s) False) (\<lambda>(r, rest, tickle_me).
     Inr (r, s\<lparr>m_tasks := rest,
               m_activeThreadCnt := m_activeThreadCnt s + (if r = None then 0 else 1)\<rparr>, tickle_me))"

definition run_task_done :: "'z scheduler_scheme \<Rightarrow> 'z scheduler_scheme" where
  "run_task_done s = s\<lparr>m_activeThreadCnt := m_activeThreadCnt s - 1\<rparr>"

definition run_idle_enter :: "'z scheduler_scheme \<Rightarrow> 'z scheduler_scheme" where
  "run_idle_enter s = s\<lparr>m_idleThreadCnt := m_idleThreadCnt s + 1\<rparr>"

definition run_idle_leave :: "'z scheduler_scheme \<Rightarrow> 'z scheduler_scheme" where
  "run_idle_leave s = s\<lparr>m_idleThreadCnt := m_idleThreadCnt s - 1\<rparr>"

text \<open>
  What \<open>run\<close> does with a task in hand: a task with a fiber resumes it unless it is finished, any
  other one gets a new fiber for its closure. Control then goes to the fiber.
\<close>

definition run_dispatch :: "schedule_task \<Rightarrow> fiber_world \<Rightarrow> fiber_world res" where
  "run_dispatch t w =
     (case task_fiber t of
        Some p \<Rightarrow>
          bind_res (fiber_at p w) (\<lambda>f. if fiber_st f \<noteq> TERMINATED then resume p w else Inr w)
      | None \<Rightarrow> (let (p, w1) = new_fiber (task_cb t) 0 True w in resume p w1))"

text \<open>The prologue of \<open>run\<close>: hooks on, thread-local scheduler set, main and idle fibers made.\<close>

record thread_locals =
  t_scheduler :: "sched_ptr option"
  t_hook_enable :: bool
  tl_thread :: thread              \<comment> \<open>the \<open>Thread\<close> object \<open>t_thread\<close> points to, if it does\<close>
  tl_own :: thread_own
  tl_fibers :: fiber_world

definition run_prologue ::
  "int \<Rightarrow> 'z scheduler_scheme \<Rightarrow> thread_locals \<Rightarrow> (fiber_ptr \<times> thread_locals) res"
where
  "run_prologue tid s l =
     (let l1 = l\<lparr>t_hook_enable := True, t_scheduler := Some (m_this s)\<rparr> in
      bind_res (if tid \<noteq> m_rootThread s
                then bind_res (GetThis (tl_fibers l1)) (\<lambda>(_, w). Inr w)
                else Inr (tl_fibers l1)) (\<lambda>w.
      let (idle_fiber, w1) = new_fiber (Some (Scheduler_idle (m_this s))) 0 True w
      in Inr (idle_fiber, l1\<lparr>tl_fibers := w1\<rparr>)))"

text \<open>\<open>Scheduler::Scheduler\<close>; \<open>tid\<close> is the thread that constructs it.\<close>

definition new_scheduler ::
  "sched_ptr \<Rightarrow> int \<Rightarrow> u64 \<Rightarrow> bool \<Rightarrow> string \<Rightarrow> thread_locals \<Rightarrow> (scheduler \<times> thread_locals) res"
where
  "new_scheduler this tid threads use_caller name l =
     bind_res (assert_res (0 < threads \<and> t_scheduler l = None)) (\<lambda>_.
     let (self, own) = SetName name (tl_thread l) (tl_own l);
         l1 = l\<lparr>t_scheduler := Some this, tl_thread := self, tl_own := own\<rparr>;
         s = \<lparr>m_this = this, m_name = name, m_threads = [], m_tasks = [], m_threadIds = [],
              m_threadCnt = 0, m_activeThreadCnt = 0, m_idleThreadCnt = 0,
              m_useCaller = use_caller, m_schedulerFiber = None, m_rootThread = - 1,
              m_stopping = False\<rparr>
     in if use_caller then
          bind_res (GetThis (tl_fibers l1)) (\<lambda>(_, w).
          let (p, w1) = new_fiber (Some (Scheduler_run this)) 0 False w
          in Inr (s\<lparr>m_schedulerFiber := Some p, m_rootThread := tid, m_threadIds := [tid],
                    m_threadCnt := threads - 1\<rparr>,
                  l1\<lparr>tl_fibers := SetSchedulerFiber (Some p) w1\<rparr>))
        else Inr (s\<lparr>m_threadCnt := threads\<rparr>, l1))"

text \<open>\<open>Scheduler::~Scheduler\<close>\<close>

definition delete_scheduler :: "scheduler \<Rightarrow> thread_locals \<Rightarrow> thread_locals res" where
  "delete_scheduler s l =
     bind_res (assert_res (base_stopping s)) (\<lambda>_.
     Inr (if t_scheduler l = Some (m_this s) then l\<lparr>t_scheduler := None\<rparr> else l))"

text \<open>
  \<open>Scheduler::start\<close>: \<open>answer i\<close> is what the system gives for the \<open>i\<close>th thread of the loop (see
  \<open>new_thread\<close>). The names are \<open>m_name + "_" + std::to_string(i)\<close>.
\<close>

fun to_string :: "nat \<Rightarrow> string" where
  "to_string n =
     (let d = char_of (48 + n mod 10) in if n < 10 then [d] else to_string (n div 10) @ [d])"

declare to_string.simps [simp del]

fun start_loop ::
  "(nat \<Rightarrow> (int \<times> pthread) option) \<Rightarrow> nat list \<Rightarrow> 'z scheduler_scheme \<Rightarrow> 'z scheduler_scheme res"
where
  "start_loop answer [] s = Inr s"
| "start_loop answer (i # is) s =
     bind_res (new_thread (answer i) (Some (Scheduler_run (m_this s)))
                 (m_name s @ ''_'' @ to_string i)) (\<lambda>t.
     start_loop answer is
       (s\<lparr>m_threads := (m_threads s)[i := Some t], m_threadIds := m_threadIds s @ [th_id t]\<rparr>))"

definition start ::
  "(nat \<Rightarrow> (int \<times> pthread) option) \<Rightarrow> 'z scheduler_scheme \<Rightarrow> 'z scheduler_scheme res"
where
  "start answer s =
     (if m_stopping s then Inr s
      else bind_res (assert_res (m_threads s = [])) (\<lambda>_.
        start_loop answer [0..<unat (m_threadCnt s)]
          (s\<lparr>m_threads := replicate (unat (m_threadCnt s)) None\<rparr>)))"

text \<open>
  \<open>Scheduler::stop\<close>, up to the point where control goes to the scheduler fiber (\<open>None\<close> when it
  returns at once), from there to the threads it takes out of the pool, and the \<open>join\<close> of these,
  with the results of \<open>pthread_join\<close>.
\<close>

fun repeat_res :: "nat \<Rightarrow> ('s \<Rightarrow> 's res) \<Rightarrow> 's \<Rightarrow> 's res" where
  "repeat_res 0 f s = Inr s"
| "repeat_res (Suc n) f s = bind_res (f s) (repeat_res n f)"

definition stop_enter ::
  "('z scheduler_scheme \<Rightarrow> bool) \<Rightarrow> ('z scheduler_scheme \<Rightarrow> 'z scheduler_scheme res)
   \<Rightarrow> 'z scheduler_scheme \<Rightarrow> 'z scheduler_scheme option res"
where
  "stop_enter stopping tickle s =
     (if stopping s then Inr None
      else bind_res (repeat_res (unat (m_threadCnt s)) tickle (s\<lparr>m_stopping := True\<rparr>)) (\<lambda>s1.
        if m_schedulerFiber s1 \<noteq> None then bind_res (tickle s1) (\<lambda>s2. Inr (Some s2))
        else Inr (Some s1)))"

definition stop_leave :: "'z scheduler_scheme \<Rightarrow> thread option list \<times> 'z scheduler_scheme" where
  "stop_leave s = (m_threads s, s\<lparr>m_threads := []\<rparr>)"

fun stop_join :: "(int \<times> thread option) list \<Rightarrow> thread list res" where
  "stop_join [] = Inr []"
| "stop_join ((rt, p) # ps) =
     bind_res (deref p) (\<lambda>t. bind_res (thread_join rt t) (\<lambda>t'.
     bind_res (stop_join ps) (\<lambda>ts. Inr (t' # ts))))"

section \<open>The contract of a task sink\<close>

text \<open>
  What the users of a scheduler rely on: a valid task goes to the end of the queue, an empty one
  is ignored, and nothing is lost.
\<close>

locale task_sink =
  fixes sched :: "schedule_task \<Rightarrow> 's \<Rightarrow> 's res" and queue :: "'s \<Rightarrow> schedule_task list"
  assumes sched_queue: "sched t s = Inr s' \<Longrightarrow>
    queue s' = queue s @ (if valid_task t then [t] else [])"
begin

text \<open>Scheduling one task after the other.\<close>

fun sched_all :: "schedule_task list \<Rightarrow> 's \<Rightarrow> 's res" where
  "sched_all [] s = Inr s"
| "sched_all (t # ts) s = bind_res (sched t s) (sched_all ts)"

lemma sched_all_queue:
  "sched_all ts s = Inr s' \<Longrightarrow> queue s' = queue s @ filter valid_task ts"
  by (induction ts arbitrary: s) (auto simp: res_simps dest!: sched_queue)

end

text \<open>A \<open>tickle\<close> that leaves the queue alone makes \<open>scheduleLock\<close> a task sink.\<close>

definition keeps_tasks :: "('z scheduler_scheme \<Rightarrow> 'z scheduler_scheme res) \<Rightarrow> bool" where
  "keeps_tasks tickle \<longleftrightarrow> (\<forall>s s'. tickle s = Inr s' \<longrightarrow> m_tasks s' = m_tasks s)"

lemma push_task_tasks:
  "m_tasks (push_task t s) = m_tasks s @ (if valid_task t then [t] else [])"
  by (simp add: push_task_def)

lemma scheduleLock_queue:
  "keeps_tasks tickle \<Longrightarrow> scheduleLock tickle t s = Inr s' \<Longrightarrow>
   m_tasks s' = m_tasks s @ (if valid_task t then [t] else [])"
  by (auto simp: scheduleLock_def Let_def push_task_tasks keeps_tasks_def split: if_splits)

lemma keeps_tasks_base: "keeps_tasks base_tickle"
  by (simp add: keeps_tasks_def base_tickle_def)

interpretation base_sink: task_sink "scheduleLock base_tickle" m_tasks
  by unfold_locales (rule scheduleLock_queue [OF keeps_tasks_base])

section \<open>The scan\<close>

definition eligible :: "int \<Rightarrow> schedule_task \<Rightarrow> bool" where
  "eligible tid t \<longleftrightarrow> task_thread t = - 1 \<or> task_thread t = tid"

lemma scan_none:
  "\<forall>t\<in>set ts. \<not> eligible tid t \<Longrightarrow> scan_tasks tid ts tk = Inr (None, ts, tk \<or> ts \<noteq> [])"
  by (induction ts arbitrary: tk) (auto simp: eligible_def)

lemma scan_first:
  "\<forall>u\<in>set xs. \<not> eligible tid u \<Longrightarrow> eligible tid t \<Longrightarrow>
   scan_tasks tid (xs @ t # ys) tk =
     (if valid_task t then Inr (Some t, xs @ ys, tk \<or> xs @ ys \<noteq> []) else Inl Assertion_failed)"
  by (induction xs arbitrary: tk) (auto simp: eligible_def)

lemma scan_cases:
  assumes "\<forall>t\<in>set ts. valid_task t"
  obtains "\<forall>t\<in>set ts. \<not> eligible tid t" "scan_tasks tid ts tk = Inr (None, ts, tk \<or> ts \<noteq> [])"
  | xs t ys where "ts = xs @ t # ys" "\<forall>u\<in>set xs. \<not> eligible tid u" "eligible tid t"
      "scan_tasks tid ts tk = Inr (Some t, xs @ ys, tk \<or> xs @ ys \<noteq> [])"
proof (cases "\<exists>t\<in>set ts. eligible tid t")
  case True
  then obtain xs t ys where s: "ts = xs @ t # ys" "\<forall>u\<in>set xs. \<not> eligible tid u" "eligible tid t"
    using split_list_first_prop [of ts "eligible tid"] by blast
  moreover from s(1) have "valid_task t" using assms by simp
  ultimately show thesis using that(2) scan_first [OF s(2,3)] by simp
next
  case False
  then show thesis using that(1) scan_none by blast
qed

lemma run_fetch_spec:
  assumes "\<forall>t\<in>set (m_tasks s). valid_task t"
  shows "\<exists>r s' tk. run_fetch tid s = Inr (r, s', tk)
    \<and> (case r of
         None \<Rightarrow> s' = s \<and> (\<forall>t\<in>set (m_tasks s). \<not> eligible tid t)
       | Some t \<Rightarrow> \<exists>xs ys. m_tasks s = xs @ t # ys \<and> eligible tid t
           \<and> (\<forall>u\<in>set xs. \<not> eligible tid u)
           \<and> s' = s\<lparr>m_tasks := xs @ ys, m_activeThreadCnt := m_activeThreadCnt s + 1\<rparr>)
    \<and> tk = (m_tasks s' \<noteq> [])"
  using assms
  by (cases rule: scan_cases [of "m_tasks s" tid False]) (auto simp: run_fetch_def)

text \<open>Fetching by one thread after the other, for the order in which tasks leave the queue.\<close>

fun fetch_seq ::
  "int list \<Rightarrow> 'z scheduler_scheme \<Rightarrow> (schedule_task option list \<times> 'z scheduler_scheme) res"
where
  "fetch_seq [] s = Inr ([], s)"
| "fetch_seq (tid # tids) s =
     bind_res (run_fetch tid s) (\<lambda>(r, s1, _).
     bind_res (fetch_seq tids s1) (\<lambda>(rs, s2). Inr (r # rs, s2)))"

lemma run_fetch_head:
  "m_tasks s = t # ts \<Longrightarrow> valid_task t \<Longrightarrow> eligible tid t \<Longrightarrow>
   run_fetch tid s =
     Inr (Some t, s\<lparr>m_tasks := ts, m_activeThreadCnt := m_activeThreadCnt s + 1\<rparr>, ts \<noteq> [])"
  by (auto simp: run_fetch_def eligible_def)

lemma fetch_seq_prefix:
  "m_tasks s = ts @ us \<Longrightarrow> \<forall>t\<in>set ts. valid_task t \<and> task_thread t = - 1 \<Longrightarrow>
   length tids = length ts \<Longrightarrow>
   \<exists>s'. fetch_seq tids s = Inr (map Some ts, s') \<and> m_tasks s' = us
      \<and> m_activeThreadCnt s' = m_activeThreadCnt s + of_nat (length ts)"
proof (induction ts arbitrary: s tids)
  case Nil
  then show ?case by simp
next
  case (Cons t ts)
  then obtain tid tids' where tids: "tids = tid # tids'" "length tids' = length ts"
    by (cases tids) auto
  let ?s = "s\<lparr>m_tasks := ts @ us, m_activeThreadCnt := m_activeThreadCnt s + 1\<rparr>"
  have "run_fetch tid s = Inr (Some t, ?s, ts @ us \<noteq> [])"
    using Cons.prems(1,2) by (intro run_fetch_head) (auto simp: eligible_def)
  moreover obtain s' where "fetch_seq tids' ?s = Inr (map Some ts, s')" "m_tasks s' = us"
      "m_activeThreadCnt s' = m_activeThreadCnt ?s + of_nat (length ts)"
    using Cons.IH [of ?s tids'] Cons.prems(2) tids(2) by auto
  ultimately show ?case by (simp add: tids(1) add.assoc)
qed

section \<open>Starting threads\<close>

lemma start_loop_spec:
  assumes "distinct is" and "\<forall>i\<in>set is. i < length (m_threads s) \<and> answer i \<noteq> None"
  shows "\<exists>s'. start_loop answer is s = Inr s' \<and> length (m_threads s') = length (m_threads s)
    \<and> (\<forall>i. i \<notin> set is \<longrightarrow> m_threads s' ! i = m_threads s ! i)
    \<and> (\<forall>i\<in>set is. \<exists>t. m_threads s' ! i = Some t \<and> Some (th_id t, th_pthread t) = answer i
          \<and> th_name t = m_name s @ ''_'' @ to_string i)
    \<and> m_threadIds s' = m_threadIds s @ map (\<lambda>i. fst (the (answer i))) is
    \<and> m_tasks s' = m_tasks s \<and> m_stopping s' = m_stopping s"
  using assms
proof (induction "is" arbitrary: s)
  case Nil
  then show ?case by simp
next
  case (Cons i "is")
  obtain tid h where a: "answer i = Some (tid, h)" using Cons.prems(2) by auto
  define t where "t = (init_thread (Some (Scheduler_run (m_this s))) (m_name s @ ''_'' @ to_string i))
    \<lparr>th_id := tid, th_pthread := h, th_cb := None\<rparr>"
  let ?s = "s\<lparr>m_threads := (m_threads s)[i := Some t], m_threadIds := m_threadIds s @ [tid]\<rparr>"
  have "start_loop answer (i # is) s = start_loop answer is ?s"
    by (simp add: new_thread_def a t_def)
  moreover obtain s' where "start_loop answer is ?s = Inr s'"
      "length (m_threads s') = length (m_threads s)"
      "\<forall>j. j \<notin> set is \<longrightarrow> m_threads s' ! j = m_threads ?s ! j"
      "\<forall>j\<in>set is. \<exists>t. m_threads s' ! j = Some t \<and> Some (th_id t, th_pthread t) = answer j
          \<and> th_name t = m_name s @ ''_'' @ to_string j"
      "m_threadIds s' = m_threadIds ?s @ map (\<lambda>i. fst (the (answer i))) is"
      "m_tasks s' = m_tasks s" "m_stopping s' = m_stopping s"
    using Cons.IH [of ?s] Cons.prems by auto
  ultimately show ?case
    using Cons.prems a by (auto simp: t_def init_thread_def)
qed

lemma new_scheduler_fields:
  assumes "new_scheduler this tid n use_caller name l = Inr (s, l')"
  shows "m_this s = this \<and> m_name s = name \<and> m_threads s = [] \<and> m_tasks s = []
    \<and> \<not> m_stopping s \<and> 0 < n \<and> t_scheduler l' = Some this
    \<and> m_threadIds s = (if use_caller then [tid] else [])
    \<and> m_threadCnt s = (if use_caller then n - 1 else n)"
  using assms
  by (auto simp: new_scheduler_def res_simps Let_def case_prod_beta split: if_splits)

section \<open>Properties\<close>

text \<open>A scheduler with two tasks, the first one for thread 8, for the concrete instances.\<close>

definition ex_sched :: "schedule_task list \<Rightarrow> scheduler" where
  "ex_sched ts = \<lparr>m_this = 1, m_name = ''s'', m_threads = [], m_tasks = ts, m_threadIds = [],
     m_threadCnt = 1, m_activeThreadCnt = 0, m_idleThreadCnt = 0, m_useCaller = False,
     m_schedulerFiber = None, m_rootThread = - 1, m_stopping = False\<rparr>"

text \<open>
  A worker takes the first task of the queue that is for any thread or for it, and nothing
  else leaves the queue or changes place; the count of active threads goes up exactly when a task
  was taken. \<open>tickle\<close> is called exactly when tasks remain, for whichever thread they are.
\<close>

theorem fetch_takes_first_eligible:
  assumes "\<forall>t\<in>set (m_tasks s). valid_task t"
  shows "(\<exists>xs t ys. m_tasks s = xs @ t # ys
            \<and> (\<forall>u\<in>set xs. task_thread u \<noteq> - 1 \<and> task_thread u \<noteq> tid)
            \<and> (task_thread t = - 1 \<or> task_thread t = tid)
            \<and> run_fetch tid s = Inr (Some t, s\<lparr>m_tasks := xs @ ys,
                m_activeThreadCnt := m_activeThreadCnt s + 1\<rparr>, xs @ ys \<noteq> []))
       \<or> ((\<forall>u\<in>set (m_tasks s). task_thread u \<noteq> - 1 \<and> task_thread u \<noteq> tid)
            \<and> run_fetch tid s = Inr (None, s, m_tasks s \<noteq> []))"
  using assms
proof (cases rule: scan_cases [of "m_tasks s" tid False])
  case 1
  then show ?thesis by (intro disjI2) (simp add: run_fetch_def eligible_def)
next
  case (2 xs t ys)
  then show ?thesis
    by (intro disjI1 exI [of _ xs] exI [of _ t] exI [of _ ys]) (auto simp: run_fetch_def eligible_def)
qed

theorem fetch_takes_first_eligible_witness:
  "run_fetch 7 (ex_sched [cb_task (Some (User_cb 1)) 8, cb_task (Some (User_cb 2)) (- 1)])
   = Inr (Some (cb_task (Some (User_cb 2)) (- 1)),
          (ex_sched [cb_task (Some (User_cb 1)) 8])\<lparr>m_activeThreadCnt := 1\<rparr>, True)"
proof -
  let ?a = "cb_task (Some (User_cb 1)) 8" and ?b = "cb_task (Some (User_cb 2)) (- 1)"
  have "\<forall>t\<in>set (m_tasks (ex_sched [?a, ?b])). valid_task t"
    by (simp add: ex_sched_def cb_task_def valid_task_def)
  from fetch_takes_first_eligible [OF this, of 7] obtain xs t ys where
    q: "m_tasks (ex_sched [?a, ?b]) = xs @ t # ys" "task_thread t = - 1 \<or> task_thread t = 7"
      "\<forall>u\<in>set xs. task_thread u \<noteq> - 1"
    and r: "run_fetch 7 (ex_sched [?a, ?b]) = Inr (Some t, (ex_sched [?a, ?b])\<lparr>m_tasks := xs @ ys,
                m_activeThreadCnt := m_activeThreadCnt (ex_sched [?a, ?b]) + 1\<rparr>, xs @ ys \<noteq> [])"
    by (auto simp: ex_sched_def cb_task_def)
  from q(1) have l: "[?a, ?b] = xs @ t # ys" by (simp add: ex_sched_def)
  have "xs = [?a] \<and> t = ?b \<and> ys = []"
  proof (cases xs)
    case Nil
    then show ?thesis using l q(2) by (auto simp: cb_task_def)
  next
    case (Cons u us)
    then show ?thesis using l by (cases us) auto
  qed
  with r show ?thesis by (simp add: ex_sched_def)
qed

text \<open>
  Tasks for any thread leave the queue in the order they were scheduled, whichever threads
  fetch them: after a sequence of \<open>scheduleLock\<close> calls on an empty queue, as many fetches as
  there are non-empty tasks return these, one after the other, and leave the queue empty.
\<close>

theorem unpinned_tasks_run_in_order:
  assumes "m_tasks s = []" and "base_sink.sched_all ts s = Inr s1"
    and "\<forall>t\<in>set ts. task_thread t = - 1" and "length tids = length (filter valid_task ts)"
  shows "\<exists>s2. fetch_seq tids s1 = Inr (map Some (filter valid_task ts), s2) \<and> m_tasks s2 = []"
proof -
  have "m_tasks s1 = filter valid_task ts @ []"
    using base_sink.sched_all_queue [OF assms(2)] assms(1) by simp
  from fetch_seq_prefix [OF this _ assms(4)] assms(3) show ?thesis by auto
qed

theorem unpinned_tasks_run_in_order_witness:
  "\<exists>s1 s2. base_sink.sched_all [cb_task (Some (User_cb 1)) (- 1), cb_task None (- 1),
        fiber_task (Some 3) (- 1)] (ex_sched []) = Inr s1
     \<and> fetch_seq [4, 9] s1 =
         Inr ([Some (cb_task (Some (User_cb 1)) (- 1)), Some (fiber_task (Some 3) (- 1))], s2)"
proof -
  let ?ts = "[cb_task (Some (User_cb 1)) (- 1), cb_task None (- 1), fiber_task (Some 3) (- 1)]"
  have "base_sink.sched_all ?ts (ex_sched []) =
      Inr (ex_sched [cb_task (Some (User_cb 1)) (- 1), fiber_task (Some 3) (- 1)])"
    by (simp add: scheduleLock_def push_task_def base_tickle_def ex_sched_def cb_task_def
        fiber_task_def valid_task_def)
  from unpinned_tasks_run_in_order [OF _ this, of "[4, 9]"] this show ?thesis
    by (auto simp: ex_sched_def cb_task_def fiber_task_def valid_task_def)
qed

text \<open>
  A scheduler constructed for \<open>n\<close> threads and started has exactly \<open>n\<close> workers: a pool of \<open>n\<close>
  new threads, or \<open>n - 1\<close> with the constructing thread as the first worker. Every pool thread is
  complete, has the id the system gave and the name made of the scheduler's and its index. A
  second \<open>start\<close> of a non-empty pool fails its assertion.
\<close>

theorem start_makes_the_requested_threads:
  assumes "new_scheduler this tid n use_caller name l = Inr (s, l')"
    and "\<And>i. i < unat n \<Longrightarrow> answer i \<noteq> None"
  shows "\<exists>s'. start answer s = Inr s'
    \<and> length (m_threads s') = unat n - (if use_caller then 1 else 0)
    \<and> length (m_threadIds s') = unat n
    \<and> (\<forall>i < length (m_threads s'). \<exists>t. m_threads s' ! i = Some t
          \<and> Some (th_id t, th_pthread t) = answer i \<and> th_name t = name @ ''_'' @ to_string i)
    \<and> (m_threads s' \<noteq> [] \<longrightarrow> start answer s' = Inl Assertion_failed)"
proof -
  note f = new_scheduler_fields [OF assms(1)]
  then have pos: "unat n \<noteq> 0" by (auto simp: unat_eq_0)
  have cnt: "unat (m_threadCnt s) = unat n - (if use_caller then 1 else 0)"
    using f pos by (simp add: unat_minus_one word_neq_0_conv)
  let ?k = "unat (m_threadCnt s)"
  let ?s0 = "s\<lparr>m_threads := replicate ?k None\<rparr>"
  have "\<forall>i\<in>set [0..<?k]. i < length (m_threads ?s0) \<and> answer i \<noteq> None"
    using assms(2) cnt by auto
  from start_loop_spec [OF distinct_upt this] obtain s' where
    s': "start_loop answer [0..<?k] ?s0 = Inr s'" "length (m_threads s') = ?k"
      "\<forall>i\<in>set [0..<?k]. \<exists>t. m_threads s' ! i = Some t \<and> Some (th_id t, th_pthread t) = answer i
          \<and> th_name t = m_name s @ ''_'' @ to_string i"
      "m_threadIds s' = m_threadIds s @ map (\<lambda>i. fst (the (answer i))) [0..<?k]"
      "\<not> m_stopping s'"
    using f by auto
  moreover have "start answer s = Inr s'"
    using s'(1) f by (simp add: start_def)
  moreover have "m_threads s' \<noteq> [] \<longrightarrow> start answer s' = Inl Assertion_failed"
    using s'(5) by (simp add: start_def)
  ultimately show ?thesis
    using f pos cnt by auto
qed

theorem start_makes_the_requested_threads_witness:
  "\<exists>s l s'. new_scheduler 1 77 3 False ''pool'' \<lparr>t_scheduler = None, t_hook_enable = False,
       tl_thread = init_thread None ''main'', tl_own = init_own ''main'', tl_fibers = ex_world0\<rparr>
       = Inr (s, l)
     \<and> start (\<lambda>i. Some (100 + int i, 500 + i)) s = Inr s' \<and> length (m_threads s') = 3
     \<and> map_option th_name (m_threads s' ! 2) = Some ''pool_2''"
proof -
  obtain s l where s: "new_scheduler 1 77 3 False ''pool'' \<lparr>t_scheduler = None, t_hook_enable = False,
       tl_thread = init_thread None ''main'', tl_own = init_own ''main'', tl_fibers = ex_world0\<rparr>
       = Inr (s, l)"
    by (simp add: new_scheduler_def case_prod_beta)
  let ?a = "\<lambda>i. Some (100 + int i, 500 + i)"
  obtain s' where s': "start ?a s = Inr s'" "length (m_threads s') = 3"
      "\<forall>i < length (m_threads s'). \<exists>t. m_threads s' ! i = Some t
          \<and> Some (th_id t, th_pthread t) = ?a i \<and> th_name t = ''pool'' @ ''_'' @ to_string i"
    using start_makes_the_requested_threads [OF s, of ?a] by auto
  then obtain t where "m_threads s' ! 2 = Some t" "th_name t = ''pool'' @ ''_'' @ to_string 2"
    using s'(3) [rule_format, of 2] by auto
  moreover have "to_string 2 = ''2''"
    by code_simp
  ultimately show ?thesis
    using s s'(1,2) by auto
qed

text \<open>
  A callback task that a worker dispatches runs in a fresh fiber: control goes to the entry
  of the new fiber, which calls the task's closure and no other, and when the closure returns,
  the worker continues where it called \<open>resume\<close>, the scheduler fiber is current again, and the
  task's fiber is finished. A task whose fiber is already finished is dropped without a switch.
\<close>

theorem dispatched_callback_runs_and_returns:
  assumes "task_fiber t = None" and "task_cb t = Some cb"
    and "t_scheduler_fiber w = Some r" and "fibers w r = Some g" and "r \<noteq> fresh_ptr w"
  shows "\<exists>w1 w2. run_dispatch t w = Inr w1 \<and> cur w1 = On_stack (fresh_ptr w)
      \<and> MainFunc_enter w1 = Inr (fresh_ptr w, cb, w1)
      \<and> MainFunc_leave (fresh_ptr w) w1 = Inr w2 \<and> cur w2 = cur w \<and> t_fiber w2 = Some r
      \<and> map_option fiber_st (fibers w2 (fresh_ptr w)) = Some TERMINATED
      \<and> run_dispatch (fiber_task (Some (fresh_ptr w)) (- 1)) w2 = Inr w2"
proof -
  define p where "p = fresh_ptr w"
  define f where "f = child_fiber (Some cb) 0 True w"
  define w0 where "w0 = snd (new_fiber (Some cb) 0 True w)"
  have w0: "new_fiber (Some cb) 0 True w = (p, w0)" "fibers w0 p = Some f" "fibers w0 r = Some g"
      "t_scheduler_fiber w0 = Some r" "cur w0 = cur w"
    using assms(3-5) by (simp_all add: w0_def new_fiber_def Let_def p_def f_def)
  define w1 where "w1 = w0\<lparr>t_fiber := Some p,
      fibers := (fibers w0)(p \<mapsto> f\<lparr>fiber_st := RUNNING\<rparr>, r \<mapsto> g\<lparr>m_ctx := Saved (cur w0)\<rparr>),
      cur := continue_in p (m_ctx f)\<rparr>"
  have rp: "r \<noteq> p" using assms(5) by (simp add: p_def)
  have "resume p w0 = Inr w1"
    using resume_eq [OF w0(2) _ _ _ rp w0(3), of True] w0(4)
    by (simp add: w1_def f_def child_fiber_def)
  then have r: "run_dispatch t w = Inr w1"
    using assms(1,2) w0(1) by (simp add: run_dispatch_def)
  have e: "MainFunc_enter w1 = Inr (p, cb, w1)"
    using rp by (simp add: MainFunc_enter_def GetThis_def w1_def f_def child_fiber_def)
  define f2 where "f2 = f\<lparr>fiber_cb := None, fiber_st := TERMINATED\<rparr>"
  define w1' where "w1' = w1\<lparr>fibers := (fibers w1)(p \<mapsto> f2)\<rparr>"
  have "MainFunc_leave p w1 = fiber_yield p w1'"
    using rp by (simp add: MainFunc_leave_def upd_fiber_def w1_def w1'_def f2_def)
  moreover have "fiber_yield p w1' = Inr (w1'\<lparr>t_fiber := Some r,
      fibers := (fibers w1')(p \<mapsto> f2\<lparr>m_ctx := Saved (cur w1')\<rparr>), cur := cur w\<rparr>)"
    using yield_eq [of w1' p f2 True r "g\<lparr>m_ctx := Saved (cur w0)\<rparr>"] rp w0(4,5)
    by (simp add: w1'_def w1_def f2_def f_def child_fiber_def continue_in_def)
  moreover have "cur w1 = On_stack p"
    by (simp add: w1_def continue_in_def f_def child_fiber_def)
  ultimately show ?thesis
    using r e by (auto simp: p_def [symmetric] f2_def run_dispatch_def fiber_task_def)
qed

theorem dispatched_callback_runs_and_returns_witness:
  "\<exists>w1 w2. run_dispatch (cb_task (Some (User_cb 9)) (- 1)) ex_world = Inr w1
     \<and> MainFunc_enter w1 = Inr (3, User_cb 9, w1) \<and> MainFunc_leave 3 w1 = Inr w2
     \<and> cur w2 = On_thread"
  using dispatched_callback_runs_and_returns
    [of "cb_task (Some (User_cb 9)) (- 1)" "User_cb 9" ex_world 0 ex_main]
  by (auto simp: ex_fiber_defs cb_task_def)

text \<open>
  A task that is scheduled once the scheduler has stopped is fatal to the owner. It is put
  into the queue although nothing will fetch it; from then on the destructor fails its assertion,
  and a further \<open>stop\<close> does not return at once but goes on to resume the finished scheduler
  fiber, which fails the assertion of \<open>resume\<close>.
\<close>

theorem late_task_aborts:
  assumes "base_stopping s" and "valid_task t" and "m_schedulerFiber s = Some p"
    and "fibers w p = Some f" and "fiber_st f = TERMINATED"
  shows "\<exists>s' s''. scheduleLock base_tickle t s = Inr s' \<and> m_tasks s' = [t]
    \<and> delete_scheduler s' l = Inl Assertion_failed
    \<and> stop_enter base_stopping base_tickle s' = Inr (Some s'')
    \<and> m_schedulerFiber s'' = Some p \<and> resume p w = Inl Assertion_failed"
proof -
  have rep: "repeat_res n base_tickle s = Inr s" for n :: nat and s :: scheduler
    by (induction n) (simp_all add: base_tickle_def)
  show ?thesis
    using assms
    by (simp add: scheduleLock_def Let_def push_task_def base_tickle_def [abs_def] base_stopping_def
        delete_scheduler_def stop_enter_def rep [unfolded base_tickle_def [abs_def]] resume_def)
qed

theorem late_task_aborts_witness:
  "\<exists>s'. scheduleLock base_tickle (cb_task (Some (User_cb 3)) (- 1))
          ((ex_sched [])\<lparr>m_stopping := True, m_schedulerFiber := Some 1\<rparr>) = Inr s'
     \<and> delete_scheduler s' l = Inl Assertion_failed"
  using late_task_aborts [of "(ex_sched [])\<lparr>m_stopping := True, m_schedulerFiber := Some 1\<rparr>"
      "cb_task (Some (User_cb 3)) (- 1)" 1
      "ex_world0\<lparr>fibers := [1 \<mapsto> (ex_child 1)\<lparr>fiber_st := TERMINATED\<rparr>]\<rparr>"
      "(ex_child 1)\<lparr>fiber_st := TERMINATED\<rparr>" l]
  by (auto simp: base_stopping_def ex_sched_def cb_task_def valid_task_def)

end
