(* ===== verification/Worker_Pool.thy ===== *)
theory Worker_Pool
  imports Schedulers
begin

text \<open>
  The loop of \<open>Scheduler::run\<close> and the one of \<open>Scheduler::idle\<close> on all threads of a pool at once.
  A worker moves through the places of \<open>run\<close> where it can be interrupted; each step is one
  critical section of \<open>m_mtx\<close> or one access to an atomic counter, and the steps of the workers,
  of the callers of \<open>scheduleLock\<close> and of \<open>stop\<close> interleave in any order. The threads of the pool
  have no \<open>IOManager\<close>: with the hooks on, the sleep of \<open>Scheduler::idle\<close> faults.
\<close>

section \<open>Workers\<close>

datatype worker_pc =
    Fetching                               \<comment> \<open>at the top of the loop\<close>
  | Holding schedule_task                  \<comment> \<open>a task taken out and being run\<close>
  | Empty_handed                           \<comment> \<open>no task found, idle fiber not looked at yet\<close>
  | Idling                                 \<comment> \<open>in the idle fiber, before its test of \<open>stopping()\<close>\<close>
  | Leaving                                \<comment> \<open>back from the idle fiber\<close>
  | Exited                                 \<comment> \<open>out of the loop\<close>

record worker =
  w_tid :: int
  w_pc :: worker_pc
  w_idle_term :: bool                      \<comment> \<open>\<open>idle_fiber->getState() == Fiber::TERM\<close>\<close>
  w_hook :: bool                           \<comment> \<open>\<open>t_hook_enable\<close> of the worker's thread\<close>

text \<open>The last two fields record the history: all tasks that entered the queue, all that were run.\<close>

record pool =
  p_sched :: scheduler
  p_workers :: "worker list"
  p_pushed :: "schedule_task multiset"
  p_finished :: "schedule_task multiset"

definition set_pc :: "nat \<Rightarrow> worker_pc \<Rightarrow> pool \<Rightarrow> pool" where
  "set_pc i c p = p\<lparr>p_workers := (p_workers p)[i := (p_workers p ! i)\<lparr>w_pc := c\<rparr>]\<rparr>"

definition worker_at :: "nat \<Rightarrow> worker_pc \<Rightarrow> pool \<Rightarrow> bool" where
  "worker_at i c p \<longleftrightarrow> i < length (p_workers p) \<and> w_pc (p_workers p ! i) = c"

definition someone_holds :: "pool \<Rightarrow> bool" where
  "someone_holds p \<longleftrightarrow> (\<exists>w\<in>set (p_workers p). \<exists>t. w_pc w = Holding t)"

definition pool_schedule :: "schedule_task \<Rightarrow> pool \<Rightarrow> pool res" where
  "pool_schedule t p =
     bind_res (scheduleLock base_tickle t (p_sched p)) (\<lambda>s.
     Inr (p\<lparr>p_sched := s,
            p_pushed := p_pushed p + (if valid_task t then {#t#} else {#})\<rparr>))"

definition pool_fetch :: "nat \<Rightarrow> pool \<Rightarrow> pool res" where
  "pool_fetch i p =
     bind_res (run_fetch (w_tid (p_workers p ! i)) (p_sched p)) (\<lambda>(r, s, tickle_me).
     bind_res (if tickle_me then base_tickle s else Inr s) (\<lambda>s1.
     Inr (set_pc i (case r of Some t \<Rightarrow> Holding t | None \<Rightarrow> Empty_handed) (p\<lparr>p_sched := s1\<rparr>))))"

definition pool_done :: "nat \<Rightarrow> schedule_task \<Rightarrow> pool \<Rightarrow> pool" where
  "pool_done i t p =
     set_pc i Fetching (p\<lparr>p_sched := run_task_done (p_sched p), p_finished := p_finished p + {#t#}\<rparr>)"

definition pool_go_idle :: "nat \<Rightarrow> pool \<Rightarrow> pool" where
  "pool_go_idle i p = set_pc i Idling (p\<lparr>p_sched := run_idle_enter (p_sched p)\<rparr>)"

text \<open>
  One turn of \<open>while (!stopping())\<close> in \<open>idle\<close>: the function ends, or the fiber sleeps and yields.
  The sleep faults when the hooks of the thread are on.
\<close>

definition pool_idle_turn :: "nat \<Rightarrow> pool \<Rightarrow> pool res" where
  "pool_idle_turn i p =
     (if base_stopping (p_sched p)
      then Inr (p\<lparr>p_workers :=
             (p_workers p)[i := (p_workers p ! i)\<lparr>w_pc := Leaving, w_idle_term := True\<rparr>]\<rparr>)
      else bind_res (idle_sleep (w_hook (p_workers p ! i))) (\<lambda>_. Inr (set_pc i Leaving p)))"

definition pool_leave_idle :: "nat \<Rightarrow> pool \<Rightarrow> pool" where
  "pool_leave_idle i p = set_pc i Fetching (p\<lparr>p_sched := run_idle_leave (p_sched p)\<rparr>)"

text \<open>\<open>set_hook_enable\<close>, called by the code of a task: the flag belongs to the thread that runs it.\<close>

definition pool_set_hook :: "nat \<Rightarrow> bool \<Rightarrow> pool \<Rightarrow> pool" where
  "pool_set_hook i b p = p\<lparr>p_workers := (p_workers p)[i := (p_workers p ! i)\<lparr>w_hook := b\<rparr>]\<rparr>"

text \<open>
  A step of the pool. \<open>ext\<close> tells whether tasks can also come from outside; without it only
  running tasks call \<open>scheduleLock\<close>. \<open>stop\<close> stands for the assignment in \<open>Scheduler::stop\<close>. A worker
  that faults in its sleep makes no step.
\<close>

inductive pool_step :: "bool \<Rightarrow> pool \<Rightarrow> pool \<Rightarrow> bool" for ext where
  schedule: "ext \<or> someone_holds p \<Longrightarrow> pool_schedule t p = Inr p' \<Longrightarrow> pool_step ext p p'"
| fetch: "worker_at i Fetching p \<Longrightarrow> pool_fetch i p = Inr p' \<Longrightarrow> pool_step ext p p'"
| finish: "worker_at i (Holding t) p \<Longrightarrow> pool_step ext p (pool_done i t p)"
| go_idle: "worker_at i Empty_handed p \<Longrightarrow> \<not> w_idle_term (p_workers p ! i) \<Longrightarrow>
    pool_step ext p (pool_go_idle i p)"
| exit_loop: "worker_at i Empty_handed p \<Longrightarrow> w_idle_term (p_workers p ! i) \<Longrightarrow>
    pool_step ext p (set_pc i Exited p)"
| idle_turn: "worker_at i Idling p \<Longrightarrow> pool_idle_turn i p = Inr p' \<Longrightarrow> pool_step ext p p'"
| leave_idle: "worker_at i Leaving p \<Longrightarrow> pool_step ext p (pool_leave_idle i p)"
| set_hook: "worker_at i (Holding t) p \<Longrightarrow> pool_step ext p (pool_set_hook i b p)"
| stop: "pool_step ext p (p\<lparr>p_sched := (p_sched p)\<lparr>m_stopping := True\<rparr>\<rparr>)"

definition pool_init :: "pool \<Rightarrow> bool" where
  "pool_init p \<longleftrightarrow>
     (\<forall>t\<in>set (m_tasks (p_sched p)). valid_task t)
     \<and> m_activeThreadCnt (p_sched p) = 0 \<and> m_idleThreadCnt (p_sched p) = 0
     \<and> (\<forall>w\<in>set (p_workers p). w_pc w = Fetching \<and> \<not> w_idle_term w \<and> w_hook w)
     \<and> p_pushed p = mset (m_tasks (p_sched p)) \<and> p_finished p = {#}"

section \<open>Accounting\<close>

fun in_hand :: "worker \<Rightarrow> schedule_task multiset" where
  "in_hand w = (case w_pc w of Holding t \<Rightarrow> {#t#} | _ \<Rightarrow> {#})"

fun active_count :: "worker \<Rightarrow> u64" where
  "active_count w = (case w_pc w of Holding t \<Rightarrow> 1 | _ \<Rightarrow> 0)"

fun idle_count :: "worker \<Rightarrow> u64" where
  "idle_count w = (case w_pc w of Idling \<Rightarrow> 1 | Leaving \<Rightarrow> 1 | _ \<Rightarrow> 0)"

definition held :: "pool \<Rightarrow> schedule_task multiset" where
  "held p = sum_list (map in_hand (p_workers p))"

definition pool_inv :: "pool \<Rightarrow> bool" where
  "pool_inv p \<longleftrightarrow>
     (\<forall>t\<in>set (m_tasks (p_sched p)). valid_task t)
     \<and> m_activeThreadCnt (p_sched p) = sum_list (map active_count (p_workers p))
     \<and> m_idleThreadCnt (p_sched p) = sum_list (map idle_count (p_workers p))
     \<and> p_pushed p = mset (m_tasks (p_sched p)) + held p + p_finished p
     \<and> (\<forall>w\<in>set (p_workers p). (\<forall>t. w_pc w = Holding t \<longrightarrow> eligible (w_tid w) t)
          \<and> (w_pc w = Exited \<longrightarrow> w_idle_term w) \<and> (w_pc w = Idling \<longrightarrow> \<not> w_idle_term w))"

lemma set_pc_sel [simp]:
  "p_sched (set_pc i c p) = p_sched p"
  "p_pushed (set_pc i c p) = p_pushed p"
  "p_finished (set_pc i c p) = p_finished p"
  "p_workers (set_pc i c p) = (p_workers p)[i := (p_workers p ! i)\<lparr>w_pc := c\<rparr>]"
  by (simp_all add: set_pc_def)

lemma sum_count_set_pc:
  fixes f :: "worker \<Rightarrow> u64"
  assumes "i < length ws"
  shows "sum_list (map f (ws[i := w])) = sum_list (map f ws) - f (ws ! i) + f w"
  using assms by (rule sum_list_update_group)

lemma held_update:
  assumes "i < length (p_workers p)"
  shows "sum_list (map in_hand ((p_workers p)[i := w])) + in_hand (p_workers p ! i)
           = held p + in_hand w"
  using sum_list_update_add [OF assms, of in_hand w] by (simp add: held_def)

lemma base_tickle_if [simp]: "(if b then base_tickle s else Inr s) = Inr s"
  by (cases b) (simp_all add: base_tickle_def)

lemma pool_fetch_total:
  assumes "\<forall>t\<in>set (m_tasks (p_sched p)). valid_task t"
  shows "\<exists>p'. pool_fetch i p = Inr p'"
  using run_fetch_spec [OF assms, of "w_tid (p_workers p ! i)"]
  by (elim exE conjE) (simp add: pool_fetch_def)

lemma pool_fetch_spec:
  assumes "pool_fetch i p = Inr p'" and "\<forall>t\<in>set (m_tasks (p_sched p)). valid_task t"
  shows "(p' = set_pc i Empty_handed p
            \<and> (\<forall>t\<in>set (m_tasks (p_sched p)). \<not> eligible (w_tid (p_workers p ! i)) t))
    \<or> (\<exists>xs t ys. m_tasks (p_sched p) = xs @ t # ys \<and> eligible (w_tid (p_workers p ! i)) t
         \<and> p' = set_pc i (Holding t) (p\<lparr>p_sched := (p_sched p)\<lparr>m_tasks := xs @ ys,
               m_activeThreadCnt := m_activeThreadCnt (p_sched p) + 1\<rparr>\<rparr>))"
  using run_fetch_spec [OF assms(2), of "w_tid (p_workers p ! i)"] assms(1)
  by (fastforce simp: pool_fetch_def res_simps base_tickle_def split: option.splits if_splits)

definition worker_ok :: "worker \<Rightarrow> bool" where
  "worker_ok w \<longleftrightarrow> (\<forall>t. w_pc w = Holding t \<longrightarrow> eligible (w_tid w) t)
     \<and> (w_pc w = Exited \<longrightarrow> w_idle_term w) \<and> (w_pc w = Idling \<longrightarrow> \<not> w_idle_term w)"

text \<open>A step of one worker keeps the accounts if it changes them by what it does to the worker.\<close>

lemma pool_inv_worker:
  assumes "pool_inv p" and "i < length (p_workers p)" and "p_workers q = (p_workers p)[i := w]"
    and "\<forall>t\<in>set (m_tasks (p_sched q)). valid_task t"
    and "m_activeThreadCnt (p_sched q) =
           m_activeThreadCnt (p_sched p) - active_count (p_workers p ! i) + active_count w"
    and "m_idleThreadCnt (p_sched q) =
           m_idleThreadCnt (p_sched p) - idle_count (p_workers p ! i) + idle_count w"
    and "p_pushed q = p_pushed p"
    and "mset (m_tasks (p_sched q)) + in_hand w + p_finished q
           = mset (m_tasks (p_sched p)) + in_hand (p_workers p ! i) + p_finished p"
    and "worker_ok w"
  shows "pool_inv q"
proof -
  have "held q + in_hand (p_workers p ! i) = held p + in_hand w"
    using held_update [OF assms(2), of w] assms(3) by (simp add: held_def)
  then have "mset (m_tasks (p_sched q)) + held q + p_finished q + in_hand (p_workers p ! i) =
      mset (m_tasks (p_sched q)) + in_hand w + p_finished q + held p"
    by (simp add: ac_simps)
  also have "\<dots> = mset (m_tasks (p_sched p)) + held p + p_finished p + in_hand (p_workers p ! i)"
    using assms(8) by (simp add: ac_simps)
  finally have "p_pushed q = mset (m_tasks (p_sched q)) + held q + p_finished q"
    using assms(1,7) by (simp add: pool_inv_def)
  moreover have "\<forall>v\<in>set (p_workers q). worker_ok v"
    using assms(1,3,9) set_update_subset_insert [of "p_workers p" i w]
    by (auto simp: pool_inv_def worker_ok_def)
  moreover have "m_activeThreadCnt (p_sched q) = sum_list (map active_count (p_workers q))"
    "m_idleThreadCnt (p_sched q) = sum_list (map idle_count (p_workers q))"
    using assms(1,3,5,6) sum_count_set_pc [OF assms(2), of _ w] by (simp_all add: pool_inv_def)
  ultimately show ?thesis
    using assms(4) unfolding pool_inv_def worker_ok_def by blast
qed

lemma pool_inv_worker_ok: "pool_inv p \<Longrightarrow> i < length (p_workers p) \<Longrightarrow> worker_ok (p_workers p ! i)"
  by (simp add: pool_inv_def worker_ok_def)

lemma pool_inv_tasks: "pool_inv p \<Longrightarrow> \<forall>t\<in>set (m_tasks (p_sched p)). valid_task t"
  by (simp add: pool_inv_def)

lemma pool_inv_fetch:
  assumes "pool_inv p" "worker_at i Fetching p" "pool_fetch i p = Inr p'"
  shows "pool_inv p'"
proof -
  have i: "i < length (p_workers p)" "w_pc (p_workers p ! i) = Fetching"
    using assms(2) by (simp_all add: worker_at_def)
  from pool_fetch_spec [OF assms(3) pool_inv_tasks [OF assms(1)]] show ?thesis
  proof (elim disjE exE conjE)
    assume "p' = set_pc i Empty_handed p"
    then show ?thesis
      using assms(1) i by (intro pool_inv_worker [OF assms(1) i(1)])
        (auto simp: pool_inv_tasks worker_ok_def)
  next
    fix xs t ys
    assume t: "m_tasks (p_sched p) = xs @ t # ys" "eligible (w_tid (p_workers p ! i)) t"
      "p' = set_pc i (Holding t) (p\<lparr>p_sched := (p_sched p)\<lparr>m_tasks := xs @ ys,
               m_activeThreadCnt := m_activeThreadCnt (p_sched p) + 1\<rparr>\<rparr>)"
    then show ?thesis
      using pool_inv_tasks [OF assms(1)] i by (intro pool_inv_worker [OF assms(1) i(1)])
        (auto simp: worker_ok_def)
  qed
qed

lemmas pool_defs = worker_at_def pool_done_def pool_go_idle_def pool_leave_idle_def
  run_task_done_def run_idle_enter_def run_idle_leave_def

lemma pool_inv_local:
  assumes "pool_inv p"
  shows "worker_at i (Holding t) p \<Longrightarrow> pool_inv (pool_done i t p)"
    and "worker_at i Empty_handed p \<Longrightarrow> \<not> w_idle_term (p_workers p ! i) \<Longrightarrow> pool_inv (pool_go_idle i p)"
    and "worker_at i Empty_handed p \<Longrightarrow> w_idle_term (p_workers p ! i) \<Longrightarrow> pool_inv (set_pc i Exited p)"
    and "worker_at i Leaving p \<Longrightarrow> pool_inv (pool_leave_idle i p)"
proof -
  note ok = pool_inv_tasks [OF assms] pool_defs worker_ok_def
  show "worker_at i (Holding t) p \<Longrightarrow> pool_inv (pool_done i t p)"
    by (rule pool_inv_worker [OF assms, of i _ "(p_workers p ! i)\<lparr>w_pc := Fetching\<rparr>"]) (simp_all add: ok)
  show "worker_at i Empty_handed p \<Longrightarrow> \<not> w_idle_term (p_workers p ! i) \<Longrightarrow> pool_inv (pool_go_idle i p)"
    by (rule pool_inv_worker [OF assms, of i _ "(p_workers p ! i)\<lparr>w_pc := Idling\<rparr>"]) (simp_all add: ok)
  show "worker_at i Empty_handed p \<Longrightarrow> w_idle_term (p_workers p ! i) \<Longrightarrow> pool_inv (set_pc i Exited p)"
    by (rule pool_inv_worker [OF assms, of i _ "(p_workers p ! i)\<lparr>w_pc := Exited\<rparr>"]) (simp_all add: ok)
  show "worker_at i Leaving p \<Longrightarrow> pool_inv (pool_leave_idle i p)"
    by (rule pool_inv_worker [OF assms, of i _ "(p_workers p ! i)\<lparr>w_pc := Fetching\<rparr>"]) (simp_all add: ok)
qed

text \<open>A turn of \<open>idle\<close> faults exactly when it comes to the sleep with the hooks on.\<close>

definition idle_faults :: "nat \<Rightarrow> pool \<Rightarrow> bool" where
  "idle_faults i p \<longleftrightarrow> \<not> base_stopping (p_sched p) \<and> w_hook (p_workers p ! i)"

definition idle_turned :: "nat \<Rightarrow> pool \<Rightarrow> pool" where
  "idle_turned i p = p\<lparr>p_workers := (p_workers p)[i := (p_workers p ! i)\<lparr>w_pc := Leaving,
     w_idle_term := (base_stopping (p_sched p) \<or> w_idle_term (p_workers p ! i))\<rparr>]\<rparr>"

lemma idle_turned_sel [simp]:
  "p_sched (idle_turned i p) = p_sched p"
  "p_pushed (idle_turned i p) = p_pushed p"
  "p_finished (idle_turned i p) = p_finished p"
  "p_workers (idle_turned i p) = (p_workers p)[i := (p_workers p ! i)\<lparr>w_pc := Leaving,
     w_idle_term := (base_stopping (p_sched p) \<or> w_idle_term (p_workers p ! i))\<rparr>]"
  by (simp_all add: idle_turned_def)

lemma pool_idle_turn_eq:
  "pool_idle_turn i p = (if idle_faults i p then Inl Null_pointer else Inr (idle_turned i p))"
proof -
  have "w\<lparr>w_pc := Leaving\<rparr> = w\<lparr>w_pc := Leaving, w_idle_term := w_idle_term w\<rparr>" for w :: worker
    by simp
  then show ?thesis
    by (simp add: pool_idle_turn_def idle_faults_def idle_sleep_def set_pc_def idle_turned_def)
qed

lemma pool_idle_turn_Inr: "pool_idle_turn i p = Inr p' \<longleftrightarrow> \<not> idle_faults i p \<and> p' = idle_turned i p"
  by (auto simp: pool_idle_turn_eq)

lemma pool_inv_idle_turn:
  assumes "pool_inv p" "worker_at i Idling p"
  shows "pool_inv (idle_turned i p)"
  using assms
  by (intro pool_inv_worker [OF assms(1), of i _ "(p_workers p ! i)\<lparr>w_pc := Leaving,
        w_idle_term := (base_stopping (p_sched p) \<or> w_idle_term (p_workers p ! i))\<rparr>"])
    (auto simp: worker_at_def worker_ok_def pool_inv_tasks)

lemma pool_set_hook_sel [simp]:
  "p_sched (pool_set_hook i b p) = p_sched p"
  "p_pushed (pool_set_hook i b p) = p_pushed p"
  "p_finished (pool_set_hook i b p) = p_finished p"
  "p_workers (pool_set_hook i b p) = (p_workers p)[i := (p_workers p ! i)\<lparr>w_hook := b\<rparr>]"
  by (simp_all add: pool_set_hook_def)

lemma hook_frame [simp]:
  "in_hand (w\<lparr>w_hook := b\<rparr>) = in_hand w" "active_count (w\<lparr>w_hook := b\<rparr>) = active_count w"
  "idle_count (w\<lparr>w_hook := b\<rparr>) = idle_count w" "worker_ok (w\<lparr>w_hook := b\<rparr>) = worker_ok w"
  by (simp_all add: worker_ok_def)

lemma pool_inv_set_hook:
  assumes "pool_inv p" and "i < length (p_workers p)"
  shows "pool_inv (pool_set_hook i b p)"
  using pool_inv_worker_ok [OF assms]
  by (intro pool_inv_worker [OF assms pool_set_hook_sel(4)])
    (simp_all add: pool_inv_tasks [OF assms(1)] del: in_hand.simps active_count.simps idle_count.simps)

lemma pool_schedule_eq:
  "pool_schedule t p = Inr (p\<lparr>p_sched := push_task t (p_sched p),
     p_pushed := p_pushed p + (if valid_task t then {#t#} else {#})\<rparr>)"
  by (simp add: pool_schedule_def scheduleLock_def base_tickle_def Let_def)

lemma pool_inv_schedule:
  "pool_inv p \<Longrightarrow> pool_schedule t p = Inr p' \<Longrightarrow> pool_inv p'"
  by (cases "valid_task t") (auto simp: pool_schedule_eq pool_inv_def push_task_def held_def)

lemma pool_inv_step: "pool_step ext p p' \<Longrightarrow> pool_inv p \<Longrightarrow> pool_inv p'"
proof (induction rule: pool_step.induct)
  case (stop p)
  then show ?case by (simp add: pool_inv_def held_def)
next
  case (set_hook i t p b)
  then show ?case by (simp add: pool_inv_set_hook worker_at_def)
next
  case (idle_turn i p p')
  then show ?case by (simp add: pool_idle_turn_Inr pool_inv_idle_turn)
qed (auto intro: pool_inv_schedule pool_inv_fetch pool_inv_local)

lemma sum_list_fetching:
  fixes f :: "worker \<Rightarrow> 'a :: comm_monoid_add"
  assumes "\<forall>w\<in>set ws. w_pc w = Fetching" and "\<And>w. w_pc w = Fetching \<Longrightarrow> f w = 0"
  shows "sum_list (map f ws) = 0"
  using assms by (induction ws) auto

lemma pool_inv_init: "pool_init p \<Longrightarrow> pool_inv p"
  by (auto simp: pool_init_def pool_inv_def held_def sum_list_fetching)

interpretation pool_acc: inductive_invariant pool_init "pool_step ext" pool_inv
  by unfold_locales (auto intro: pool_inv_init pool_inv_step)

section \<open>Shutdown\<close>

definition is_holding :: "worker \<Rightarrow> bool" where
  "is_holding w \<longleftrightarrow> (case w_pc w of Holding t \<Rightarrow> True | _ \<Rightarrow> False)"

lemma is_holding_iff: "is_holding w \<longleftrightarrow> (\<exists>t. w_pc w = Holding t)"
  by (cases "w_pc w") (simp_all add: is_holding_def)

lemma active_count_holding:
  "sum_list (map active_count ws) = of_nat (length (filter is_holding ws))"
  by (induction ws) (auto simp: is_holding_iff split: worker_pc.splits)

lemma someone_holds_iff: "someone_holds p \<longleftrightarrow> (\<exists>w\<in>set (p_workers p). is_holding w)"
  by (simp add: someone_holds_def is_holding_iff)

lemma sum_in_hand_empty: "\<forall>w\<in>set ws. \<not> is_holding w \<Longrightarrow> sum_list (map in_hand ws) = {#}"
  by (induction ws) (auto simp: is_holding_iff split: worker_pc.splits)

lemma nobody_holds: "\<not> someone_holds p \<Longrightarrow> held p = {#}"
  by (simp add: held_def someone_holds_iff sum_in_hand_empty)

text \<open>Counting in 64 bits cannot hide a holder in a pool of less than \<open>2 ^ 64\<close> threads.\<close>

lemma active_zero:
  assumes "pool_inv p" and "length (p_workers p) < 2 ^ 64" and "m_activeThreadCnt (p_sched p) = 0"
  shows "\<not> someone_holds p"
proof -
  let ?n = "length (filter is_holding (p_workers p))"
  have "?n < 2 ^ 64" using assms(2) length_filter_le [of is_holding "p_workers p"] by linarith
  moreover have "(of_nat ?n :: u64) = 0"
    using assms(1,3) by (simp add: pool_inv_def active_count_holding)
  ultimately have "?n = 0"
    by (auto simp: word_of_nat_eq_0_iff dest: nat_dvd_not_less)
  then show ?thesis by (simp add: someone_holds_iff filter_empty_conv)
qed

definition at_rest :: "pool \<Rightarrow> bool" where
  "at_rest p \<longleftrightarrow> m_stopping (p_sched p) \<and> m_tasks (p_sched p) = [] \<and> \<not> someone_holds p"

definition closed_inv :: "pool \<Rightarrow> bool" where
  "closed_inv p \<longleftrightarrow> pool_inv p \<and> length (p_workers p) < 2 ^ 64
     \<and> ((\<exists>w\<in>set (p_workers p). w_idle_term w) \<longrightarrow> at_rest p)"

lemma at_rest_stopping:
  "pool_inv p \<Longrightarrow> length (p_workers p) < 2 ^ 64 \<Longrightarrow> base_stopping (p_sched p) \<longleftrightarrow> at_rest p"
  using active_zero [of p] nobody_holds [of p]
  by (auto simp: at_rest_def base_stopping_def pool_inv_def active_count_holding someone_holds_iff
      filter_empty_conv)

lemma map_tid_update:
  "w_tid v = w_tid (ws ! i) \<Longrightarrow> map w_tid (ws[i := v]) = map w_tid ws"
  by (cases "i < length ws")
    (simp_all add: map_update list_update_same_conv list_update_beyond)

lemma step_tids: "pool_step ext p p' \<Longrightarrow> map w_tid (p_workers p') = map w_tid (p_workers p)"
  by (erule pool_step.cases)
    (auto simp: pool_schedule_eq pool_fetch_def res_simps map_tid_update pool_done_def
      pool_go_idle_def pool_idle_turn_Inr pool_leave_idle_def worker_at_def)

lemma step_length: "pool_step ext p p' \<Longrightarrow> length (p_workers p') = length (p_workers p)"
  using step_tids [THEN map_eq_imp_length_eq] .

text \<open>Once at rest, a closed pool stays at rest, and its history is complete.\<close>

lemma at_rest_worker:
  assumes "at_rest p" and "p_workers q = (p_workers p)[i := v]" and "\<forall>t. w_pc v \<noteq> Holding t"
    and "m_stopping (p_sched q)" and "m_tasks (p_sched q) = []"
  shows "at_rest q"
  using assms set_update_subset_insert [of "p_workers p" i v]
  by (auto simp: at_rest_def someone_holds_def)

lemma at_rest_step:
  assumes "pool_step False p p'" and "at_rest p" and "pool_inv p"
  shows "at_rest p' \<and> p_pushed p' = p_pushed p \<and> p_finished p' = p_finished p"
proof -
  have r: "m_stopping (p_sched p)" "m_tasks (p_sched p) = []" "\<not> someone_holds p"
    using assms(2) by (simp_all add: at_rest_def)
  note w = at_rest_worker [OF assms(2)]
  from assms(1) show ?thesis
  proof cases
    case (fetch i)
    with pool_fetch_spec [OF fetch(2)] r(2) have "p' = set_pc i Empty_handed p" by auto
    moreover have "at_rest (set_pc i Empty_handed p)" 
      by (rule w [of _ i "(p_workers p ! i)\<lparr>w_pc := Empty_handed\<rparr>"]) (simp_all add: r)
    ultimately show ?thesis by simp
  next
    case (finish i t)
    then show ?thesis using r(3) by (auto simp: worker_at_def someone_holds_def)
  next
    case (idle_turn i)
    have "at_rest (idle_turned i p)"
      by (rule w [of _ i "(p_workers p ! i)\<lparr>w_pc := Leaving,
          w_idle_term := (base_stopping (p_sched p) \<or> w_idle_term (p_workers p ! i))\<rparr>"])
        (simp_all add: r)
    with idle_turn show ?thesis by (simp add: pool_idle_turn_Inr)
  next
    case (set_hook i t b)
    then show ?thesis using r(3) by (auto simp: worker_at_def someone_holds_def)
  next
    case (go_idle i)
    then show ?thesis
      using w [of p' i "(p_workers p ! i)\<lparr>w_pc := Idling\<rparr>"] r by (simp add: pool_defs)
  next
    case (exit_loop i)
    then show ?thesis
      using w [of p' i "(p_workers p ! i)\<lparr>w_pc := Exited\<rparr>"] r by (simp add: pool_defs)
  next
    case (leave_idle i)
    then show ?thesis
      using w [of p' i "(p_workers p ! i)\<lparr>w_pc := Fetching\<rparr>"] r by (simp add: pool_defs)
  next
    case stop
    then show ?thesis using r by (simp add: at_rest_def someone_holds_def)
  qed (use r in auto)
qed

lemma closed_inv_step:
  assumes "closed_inv p" and "pool_step False p p'"
  shows "closed_inv p'"
proof (cases "at_rest p")
  case True
  then show ?thesis
    using assms at_rest_step pool_inv_step step_length by (fastforce simp: closed_inv_def)
next
  case False
  then have no: "\<forall>w\<in>set (p_workers p). \<not> w_idle_term w" and inv: "pool_inv p"
    and ns: "\<not> base_stopping (p_sched p)"
    using assms(1) at_rest_stopping by (auto simp: closed_inv_def)
  have upd: "\<forall>w\<in>set ((p_workers p)[i := (p_workers p ! i)\<lparr>w_pc := c\<rparr>]). \<not> w_idle_term w" for i c
    using no by (cases "i < length (p_workers p)")
      (auto simp: list_update_beyond dest!: set_update_subset_insert [THEN subsetD])
  from assms(2) have "\<forall>w\<in>set (p_workers p'). \<not> w_idle_term w"
  proof cases
    case (fetch i)
    with pool_fetch_spec [OF fetch(2) pool_inv_tasks [OF inv]] upd show ?thesis by auto
  next
    case (idle_turn i)
    then show ?thesis
      using ns no set_update_subset_insert [of "p_workers p" i] by (fastforce simp: pool_idle_turn_Inr worker_at_def)
  next
    case (set_hook i t b)
    then show ?thesis
      using no set_update_subset_insert [of "p_workers p" i] by (fastforce simp: worker_at_def)
  qed (use upd no in \<open>auto simp: pool_schedule_eq pool_defs\<close>)
  with assms show ?thesis
    using pool_inv_step step_length by (auto simp: closed_inv_def)
qed

lemma closed_inv_init: "pool_init p \<and> length (p_workers p) < 2 ^ 64 \<Longrightarrow> closed_inv p"
  using pool_inv_init by (auto simp: closed_inv_def pool_init_def)

interpretation closed_pool:
  inductive_invariant "\<lambda>p. pool_init p \<and> length (p_workers p) < 2 ^ 64" "pool_step False" closed_inv
  by unfold_locales (auto intro: closed_inv_init closed_inv_step)

section \<open>Shutdown can always complete\<close>

text \<open>
  The distance to the end: tasks and workers that hold one first, then the places of the workers,
  on the way to the next fetch while there is work, and on the way out of the loop once there is
  none.
\<close>

definition hold_rank :: "worker \<Rightarrow> nat" where
  "hold_rank w = (if is_holding w then 1 else 0)"

definition fetch_rank :: "worker \<Rightarrow> nat" where
  "fetch_rank w = (case w_pc w of Empty_handed \<Rightarrow> 3 | Idling \<Rightarrow> 2 | Leaving \<Rightarrow> 1 | _ \<Rightarrow> 0)"

definition exit_rank :: "worker \<Rightarrow> nat" where
  "exit_rank w = (case w_pc w of
      Leaving \<Rightarrow> if w_idle_term w then 3 else 7
    | Fetching \<Rightarrow> if w_idle_term w then 2 else 6
    | Empty_handed \<Rightarrow> if w_idle_term w then 1 else 5
    | Idling \<Rightarrow> 4 | _ \<Rightarrow> 0)"

definition work_left :: "pool \<Rightarrow> nat" where
  "work_left p = 2 * length (m_tasks (p_sched p)) + sum_list (map hold_rank (p_workers p))"

definition way_left :: "pool \<Rightarrow> nat" where
  "way_left p = (if work_left p = 0 then sum_list (map exit_rank (p_workers p))
                 else sum_list (map fetch_rank (p_workers p)))"

definition nearer :: "pool \<Rightarrow> pool \<Rightarrow> bool" where
  "nearer p' p \<longleftrightarrow> work_left p' < work_left p \<or> work_left p' = work_left p \<and> way_left p' < way_left p"

text \<open>A worker that is not on its way into the sleep with the hooks on.\<close>

definition awake :: "worker \<Rightarrow> bool" where
  "awake w \<longleftrightarrow> (w_hook w \<longrightarrow> w_pc w \<noteq> Empty_handed \<and> w_pc w \<noteq> Idling)"

definition serving :: "pool \<Rightarrow> bool" where
  "serving p \<longleftrightarrow> closed_inv p \<and> m_stopping (p_sched p) \<and> p_workers p \<noteq> []
     \<and> (\<forall>t\<in>set (m_tasks (p_sched p)). \<exists>w\<in>set (p_workers p). eligible (w_tid w) t \<and> awake w)"

lemma sum_rank_update:
  fixes f :: "worker \<Rightarrow> nat"
  assumes "i < length ws"
  shows "sum_list (map f (ws[i := v])) + f (ws ! i) = sum_list (map f ws) + f v"
  using assms by (rule sum_list_update_add)

lemma nobody_holds_rank: "\<not> someone_holds p \<Longrightarrow> sum_list (map hold_rank (p_workers p)) = 0"
  by (auto simp: someone_holds_iff hold_rank_def)

text \<open>A step that moves one worker without taking or ending a task.\<close>

lemma nearer_move:
  assumes "i < length (p_workers p)" and "p_workers p' = (p_workers p)[i := v]"
    and "m_tasks (p_sched p') = m_tasks (p_sched p)"
    and "\<not> is_holding (p_workers p ! i)" and "\<not> is_holding v"
    and "work_left p = 0 \<Longrightarrow> exit_rank v < exit_rank (p_workers p ! i)"
    and "work_left p \<noteq> 0 \<Longrightarrow> fetch_rank v < fetch_rank (p_workers p ! i)"
  shows "nearer p' p"
proof -
  have "work_left p' = work_left p"
    using sum_rank_update [OF assms(1), of hold_rank v] assms(2-5)
    by (simp add: work_left_def hold_rank_def)
  moreover have "way_left p' < way_left p"
    using sum_rank_update [OF assms(1), of exit_rank v] sum_rank_update [OF assms(1), of fetch_rank v]
      assms(2,6,7) \<open>work_left p' = work_left p\<close>
    by (cases "work_left p = 0") (simp_all add: way_left_def)
  ultimately show ?thesis by (simp add: nearer_def)
qed

lemmas rank_defs = is_holding_def fetch_rank_def exit_rank_def

lemma moves_frame [simp]:
  "m_tasks (p_sched (pool_done i t p)) = m_tasks (p_sched p)"
  "m_stopping (p_sched (pool_done i t p)) = m_stopping (p_sched p)"
  "m_tasks (p_sched (pool_go_idle i p)) = m_tasks (p_sched p)"
  "m_stopping (p_sched (pool_go_idle i p)) = m_stopping (p_sched p)"
  "m_tasks (p_sched (pool_leave_idle i p)) = m_tasks (p_sched p)"
  "m_stopping (p_sched (pool_leave_idle i p)) = m_stopping (p_sched p)"
  by (simp_all add: pool_defs)

text \<open>
  Some step brings the pool nearer to its end; only takings change the queue, and while there is
  one, the worker that moves stays awake.
\<close>

definition stays_awake :: "pool \<Rightarrow> pool \<Rightarrow> bool" where
  "stays_awake p p' \<longleftrightarrow> m_tasks (p_sched p') = [] \<or>
     (\<exists>i v. p_workers p' = (p_workers p)[i := v] \<and> w_tid v = w_tid (p_workers p ! i) \<and> awake v)"

definition advances :: "pool \<Rightarrow> bool" where
  "advances p \<longleftrightarrow> (\<exists>p'. pool_step False p p' \<and> nearer p' p
     \<and> m_stopping (p_sched p') = m_stopping (p_sched p)
     \<and> set (m_tasks (p_sched p')) \<subseteq> set (m_tasks (p_sched p)) \<and> stays_awake p p')"

lemma advancesI:
  "pool_step False p p' \<Longrightarrow> nearer p' p \<Longrightarrow> m_stopping (p_sched p') = m_stopping (p_sched p) \<Longrightarrow>
   set (m_tasks (p_sched p')) \<subseteq> set (m_tasks (p_sched p)) \<Longrightarrow> stays_awake p p' \<Longrightarrow> advances p"
  unfolding advances_def by blast

lemma stays_awakeI:
  "p_workers p' = (p_workers p)[i := v] \<Longrightarrow> w_tid v = w_tid (p_workers p ! i) \<Longrightarrow>
   m_tasks (p_sched p') = [] \<or> awake v \<Longrightarrow> stays_awake p p'"
  unfolding stays_awake_def by blast

lemma awake_pc [simp]: "w_pc w \<noteq> Empty_handed \<Longrightarrow> w_pc w \<noteq> Idling \<Longrightarrow> awake w"
  by (simp add: awake_def)

text \<open>Someone holds a task: it ends.\<close>

lemma advance_finish:
  assumes "worker_at i (Holding t) p"
  shows "advances p"
proof (rule advancesI)
  show "pool_step False p (pool_done i t p)" using assms by (rule finish)
  show "nearer (pool_done i t p) p"
    using sum_rank_update [of i "p_workers p" hold_rank "(p_workers p ! i)\<lparr>w_pc := Fetching\<rparr>"] assms
    by (simp add: nearer_def work_left_def hold_rank_def is_holding_iff pool_defs)
  show "stays_awake p (pool_done i t p)"
    by (rule stays_awakeI [of _ _ i "(p_workers p ! i)\<lparr>w_pc := Fetching\<rparr>"]) (simp_all add: pool_defs)
qed simp_all

text \<open>The moves into the idle fiber and out of it.\<close>

lemma advance_go_idle:
  assumes "i < length (p_workers p)" and "w_pc (p_workers p ! i) = Empty_handed"
    and "\<not> w_idle_term (p_workers p ! i)" and "m_tasks (p_sched p) = [] \<or> \<not> w_hook (p_workers p ! i)"
  shows "advances p"
proof (rule advancesI)
  show "stays_awake p (pool_go_idle i p)"
    by (rule stays_awakeI [of _ _ i "(p_workers p ! i)\<lparr>w_pc := Idling\<rparr>"])
      (use assms(4) in \<open>auto simp: pool_defs awake_def\<close>)
  show "pool_step False p (pool_go_idle i p)" by (rule go_idle) (simp_all add: worker_at_def assms)
  show "nearer (pool_go_idle i p) p"
    by (rule nearer_move [OF assms(1), of _ "(p_workers p ! i)\<lparr>w_pc := Idling\<rparr>"])
      (simp_all add: pool_defs rank_defs assms)
qed simp_all

lemma advance_idle_turn:
  assumes "i < length (p_workers p)" and "w_pc (p_workers p ! i) = Idling"
    and "base_stopping (p_sched p) \<longleftrightarrow> work_left p = 0" and "\<not> idle_faults i p"
  shows "advances p"
proof (rule advancesI)
  show "pool_step False p (idle_turned i p)"
    by (rule idle_turn [of i]) (simp_all add: worker_at_def pool_idle_turn_Inr assms)
  show "nearer (idle_turned i p) p"
    by (rule nearer_move [OF assms(1) idle_turned_sel(4)]) (simp_all add: rank_defs assms)
  show "stays_awake p (idle_turned i p)"
    by (rule stays_awakeI [OF idle_turned_sel(4)]) simp_all
qed simp_all

lemma advance_leave_idle:
  assumes "i < length (p_workers p)" and "w_pc (p_workers p ! i) = Leaving"
  shows "advances p"
proof (rule advancesI)
  show "stays_awake p (pool_leave_idle i p)"
    by (rule stays_awakeI [of _ _ i "(p_workers p ! i)\<lparr>w_pc := Fetching\<rparr>"]) (simp_all add: pool_defs)
  show "pool_step False p (pool_leave_idle i p)" by (rule leave_idle) (simp add: worker_at_def assms)
  show "nearer (pool_leave_idle i p) p"
    by (rule nearer_move [OF assms(1), of _ "(p_workers p ! i)\<lparr>w_pc := Fetching\<rparr>"])
      (simp_all add: pool_defs rank_defs assms)
qed simp_all

text \<open>Nobody holds a task and there are some: a worker that may take one goes on to fetch it.\<close>

lemma advance_fetch:
  assumes "pool_inv p" and "i < length (p_workers p)" and "w_pc (p_workers p ! i) = Fetching"
    and "t \<in> set (m_tasks (p_sched p))" and "eligible (w_tid (p_workers p ! i)) t"
  shows "advances p"
proof -
  obtain p' where p': "pool_fetch i p = Inr p'"
    using pool_fetch_total [OF pool_inv_tasks [OF assms(1)]] by blast
  from pool_fetch_spec [OF p' pool_inv_tasks [OF assms(1)]] assms(4,5) obtain xs u ys where
    u: "m_tasks (p_sched p) = xs @ u # ys" "p' = set_pc i (Holding u) (p\<lparr>p_sched :=
      (p_sched p)\<lparr>m_tasks := xs @ ys, m_activeThreadCnt := m_activeThreadCnt (p_sched p) + 1\<rparr>\<rparr>)"
    by auto
  have "nearer p' p"
    using sum_rank_update [OF assms(2), of hold_rank "(p_workers p ! i)\<lparr>w_pc := Holding u\<rparr>"]
      u assms(3) by (simp add: nearer_def work_left_def hold_rank_def is_holding_iff)
  moreover have "stays_awake p p'"
    by (rule stays_awakeI [of _ _ i "(p_workers p ! i)\<lparr>w_pc := Holding u\<rparr>"]) (simp_all add: u)
  ultimately show ?thesis
    using u fetch [of i p p' False] p' assms(2,3) by (intro advancesI [of p p']) (auto simp: worker_at_def)
qed

lemma progress_fetch:
  assumes "closed_inv p" and "\<not> someone_holds p" and "m_tasks (p_sched p) \<noteq> []"
    and "i < length (p_workers p)" and "t \<in> set (m_tasks (p_sched p))"
    and "eligible (w_tid (p_workers p ! i)) t" and "awake (p_workers p ! i)"
  shows "advances p"
proof -
  have inv: "pool_inv p" and nterm: "\<not> w_idle_term (p_workers p ! i)"
    using assms(1,3,4) by (auto simp: closed_inv_def at_rest_def)
  have "base_stopping (p_sched p) \<longleftrightarrow> work_left p = 0"
    using assms(3) by (simp add: base_stopping_def work_left_def)
  moreover have "w_pc (p_workers p ! i) \<noteq> Exited" and "\<forall>u. w_pc (p_workers p ! i) \<noteq> Holding u"
    using inv nterm assms(2,4) by (auto simp: pool_inv_def someone_holds_def)
  ultimately show ?thesis
    using assms(4-7) inv nterm
    by (cases "w_pc (p_workers p ! i)")
      (auto simp: idle_faults_def awake_def intro: advance_fetch advance_go_idle advance_idle_turn advance_leave_idle)
qed

text \<open>No work is left: any worker that has not left the loop can get on.\<close>

lemma advance_exit:
  assumes "i < length (p_workers p)" and "w_pc (p_workers p ! i) = Empty_handed"
    and "w_idle_term (p_workers p ! i)" and "work_left p = 0"
  shows "advances p"
proof (rule advancesI)
  show "stays_awake p (set_pc i Exited p)"
    by (rule stays_awakeI [of _ _ i "(p_workers p ! i)\<lparr>w_pc := Exited\<rparr>"]) simp_all
  show "pool_step False p (set_pc i Exited p)" by (rule exit_loop) (simp_all add: worker_at_def assms)
  show "nearer (set_pc i Exited p) p"
    by (rule nearer_move [OF assms(1), of _ "(p_workers p ! i)\<lparr>w_pc := Exited\<rparr>"])
      (simp_all add: rank_defs assms)
qed simp_all

lemma advance_find_nothing:
  assumes "pool_inv p" and "i < length (p_workers p)" and "w_pc (p_workers p ! i) = Fetching"
    and "m_tasks (p_sched p) = []" and "work_left p = 0"
  shows "advances p"
proof (rule advancesI)
  have "pool_fetch i p = Inr (set_pc i Empty_handed p)"
    using pool_fetch_total [of p i] pool_fetch_spec [of i p] assms(4) by fastforce
  then show "pool_step False p (set_pc i Empty_handed p)"
    using assms(2,3) by (intro fetch) (simp_all add: worker_at_def)
  show "nearer (set_pc i Empty_handed p) p"
    by (rule nearer_move [OF assms(2), of _ "(p_workers p ! i)\<lparr>w_pc := Empty_handed\<rparr>"])
      (simp_all add: rank_defs assms)
  show "stays_awake p (set_pc i Empty_handed p)"
    by (simp add: stays_awake_def assms)
qed simp_all

lemma progress_exit:
  assumes "pool_inv p" and "at_rest p" and "i < length (p_workers p)"
    and "w_pc (p_workers p ! i) \<noteq> Exited"
  shows "advances p"
proof -
  have r: "m_tasks (p_sched p) = []" "\<not> someone_holds p" using assms(2) by (simp_all add: at_rest_def)
  have wl: "work_left p = 0" using r nobody_holds_rank [OF r(2)] by (simp add: work_left_def)
  moreover have "base_stopping (p_sched p)"
    using assms(1,2) r(2) by (auto simp: at_rest_def base_stopping_def pool_inv_def
        active_count_holding someone_holds_iff)
  moreover have "\<forall>u. w_pc (p_workers p ! i) \<noteq> Holding u"
    using r(2) assms(3) by (auto simp: someone_holds_def)
  ultimately show ?thesis
    using assms(1,3,4) r(1)
    by (cases "w_pc (p_workers p ! i)"; cases "w_idle_term (p_workers p ! i)")
      (auto simp: idle_faults_def intro: advance_find_nothing advance_exit advance_go_idle advance_idle_turn advance_leave_idle)
qed

lemma serving_step:
  assumes "serving p" and "pool_step False p p'" and "m_stopping (p_sched p')"
    and "set (m_tasks (p_sched p')) \<subseteq> set (m_tasks (p_sched p))" and "stays_awake p p'"
  shows "serving p'"
proof -
  have "\<exists>w\<in>set (p_workers p'). eligible (w_tid w) t \<and> awake w"
    if t: "t \<in> set (m_tasks (p_sched p'))" for t
  proof -
    obtain k where k: "k < length (p_workers p)" "eligible (w_tid (p_workers p ! k)) t" "awake (p_workers p ! k)"
      using assms(1,4) t unfolding serving_def by (metis in_set_conv_nth subsetD)
    obtain i v where v: "p_workers p' = (p_workers p)[i := v]" "w_tid v = w_tid (p_workers p ! i)" "awake v"
      using assms(5) t unfolding stays_awake_def by auto
    have "p_workers p' ! k = (if i = k then v else p_workers p ! k)"
      using k(1) by (simp add: v(1))
    then have "eligible (w_tid (p_workers p' ! k)) t" "awake (p_workers p' ! k)"
      using k(2,3) v(2,3) by (simp_all split: if_splits)
    then show ?thesis using k(1) v(1) by (metis length_list_update nth_mem)
  qed
  moreover have "p_workers p' \<noteq> []"
    using assms(1) step_length [OF assms(2)] by (auto simp: serving_def)
  ultimately show ?thesis
    using assms(1-3) closed_inv_step by (auto simp: serving_def)
qed

lemma progress:
  assumes "serving p" and "\<exists>w\<in>set (p_workers p). w_pc w \<noteq> Exited"
  shows "\<exists>p'. pool_step False p p' \<and> nearer p' p \<and> serving p'"
proof -
  have inv: "closed_inv p" "pool_inv p" and st: "m_stopping (p_sched p)"
    using assms(1) by (simp_all add: serving_def closed_inv_def)
  have "advances p"
  proof (cases "someone_holds p")
    case True
    then obtain i t where "worker_at i (Holding t) p"
      by (auto simp: someone_holds_def worker_at_def in_set_conv_nth)
    then show ?thesis by (rule advance_finish)
  next
    case nobody: False
    show ?thesis
    proof (cases "m_tasks (p_sched p) = []")
      case True
      then have "at_rest p" using st nobody by (simp add: at_rest_def)
      moreover obtain i where "i < length (p_workers p)" "w_pc (p_workers p ! i) \<noteq> Exited"
        using assms(2) by (auto simp: in_set_conv_nth)
      ultimately show ?thesis using progress_exit inv(2) by blast
    next
      case False
      then have t: "hd (m_tasks (p_sched p)) \<in> set (m_tasks (p_sched p))" by simp
      then obtain i where "i < length (p_workers p)"
          "eligible (w_tid (p_workers p ! i)) (hd (m_tasks (p_sched p)))" "awake (p_workers p ! i)"
        using assms(1) unfolding serving_def by (metis in_set_conv_nth)
      then show ?thesis using progress_fetch [OF inv(1) nobody False _ t] by blast
    qed
  qed
  then show ?thesis using serving_step [OF assms(1)] st unfolding advances_def by metis
qed

lemma shutdown_from_serving:
  "serving p \<Longrightarrow> \<exists>q. (pool_step False)\<^sup>*\<^sup>* p q \<and> serving q \<and> (\<forall>w\<in>set (p_workers q). w_pc w = Exited)"
proof (induction p rule: wf_induct [of "measures [work_left, way_left]"])
  case 1
  show ?case by simp
next
  case (2 p)
  show ?case
  proof (cases "\<exists>w\<in>set (p_workers p). w_pc w \<noteq> Exited")
    case True
    with progress 2(2) obtain p' where p': "pool_step False p p'" "nearer p' p" "serving p'" by blast
    then have "(p', p) \<in> measures [work_left, way_left]" by (auto simp: nearer_def)
    with 2(1) p'(3) obtain q where "(pool_step False)\<^sup>*\<^sup>* p' q" "serving q"
        "\<forall>w\<in>set (p_workers q). w_pc w = Exited" by blast
    with p'(1) show ?thesis by (meson converse_rtranclp_into_rtranclp)
  qed (use 2(2) in auto)
qed

section \<open>A task for a thread that is not in the pool\<close>

definition unserved :: "schedule_task \<Rightarrow> pool \<Rightarrow> bool" where
  "unserved t p \<longleftrightarrow> pool_inv p \<and> t \<in> set (m_tasks (p_sched p))
     \<and> (\<forall>w\<in>set (p_workers p). \<not> eligible (w_tid w) t)
     \<and> (\<forall>w\<in>set (p_workers p). \<not> w_idle_term w)"

lemma unserved_step:
  assumes "unserved t p" and "pool_step ext p p'"
  shows "unserved t p'"
proof -
  note u = assms(1) [unfolded unserved_def]
  have ns: "\<not> base_stopping (p_sched p)" using u by (auto simp: base_stopping_def)
  have tids: "w_tid ` set (p_workers p') = w_tid ` set (p_workers p)"
    using step_tids [OF assms(2)] by (metis set_map)
  have "\<not> eligible (w_tid w) t" if "w \<in> set (p_workers p')" for w
    using u tids that by (metis imageE imageI)
  moreover have upd: "\<forall>w\<in>set ((p_workers p)[i := (p_workers p ! i)\<lparr>w_pc := c\<rparr>]). \<not> w_idle_term w" for i c
    using u by (cases "i < length (p_workers p)")
      (auto simp: list_update_beyond dest!: set_update_subset_insert [THEN subsetD])
  from assms(2) have "t \<in> set (m_tasks (p_sched p')) \<and> (\<forall>w\<in>set (p_workers p'). \<not> w_idle_term w)"
  proof cases
    case (fetch i)
    then have "\<not> eligible (w_tid (p_workers p ! i)) t" using u by (simp add: worker_at_def)
    with pool_fetch_spec [OF fetch(2) pool_inv_tasks] u upd show ?thesis by auto
  next
    case (idle_turn i)
    then show ?thesis
      using ns u set_update_subset_insert [of "p_workers p" i] by (fastforce simp: pool_idle_turn_Inr worker_at_def)
  next
    case (set_hook i v b)
    then show ?thesis
      using u set_update_subset_insert [of "p_workers p" i] by (fastforce simp: worker_at_def)
  qed (use u upd in \<open>auto simp: pool_schedule_eq push_task_def pool_defs\<close>)
  ultimately show ?thesis
    using u pool_inv_step [OF assms(2)] by (auto simp: unserved_def)
qed

interpretation unserved_inv: inductive_invariant "unserved t" "pool_step ext" "unserved t"
  by unfold_locales (auto intro: unserved_step)

section \<open>Properties\<close>

text \<open>A stopped pool of two workers with one task for anyone, for the concrete instances.\<close>

definition ex_pool :: "schedule_task list \<Rightarrow> pool" where
  "ex_pool ts = \<lparr>p_sched = (ex_sched ts)\<lparr>m_stopping := True\<rparr>,
     p_workers = [\<lparr>w_tid = 11, w_pc = Fetching, w_idle_term = False, w_hook = True\<rparr>,
                  \<lparr>w_tid = 12, w_pc = Fetching, w_idle_term = False, w_hook = True\<rparr>],
     p_pushed = mset ts, p_finished = {#}\<rparr>"

lemma ex_pool_init: "\<forall>t\<in>set ts. valid_task t \<Longrightarrow> pool_init (ex_pool ts) \<and> length (p_workers (ex_pool ts)) < 2 ^ 64"
  by (simp add: ex_pool_def ex_sched_def pool_init_def)

lemma ex_pool_serving: "serving (ex_pool [cb_task (Some (User_cb 1)) (- 1)])"
  using closed_inv_init [OF ex_pool_init [of "[cb_task (Some (User_cb 1)) (- 1)]"]]
  by (auto simp: serving_def ex_pool_def ex_sched_def cb_task_def valid_task_def eligible_def)

text \<open>
  C18: however the workers and the callers of \<open>scheduleLock\<close> interleave, no task is lost, run twice
  or run by a thread it is not for: the tasks that entered the queue are those still queued, those
  in the hands of workers and those finished, each as often as it was scheduled; a task in hand is
  for its worker or for anyone; and the count of active threads is the number of tasks in hand.
\<close>

theorem tasks_neither_lost_nor_duplicated:
  assumes "reach pool_init (pool_step ext) p"
  shows "p_pushed p = mset (m_tasks (p_sched p)) + held p + p_finished p
    \<and> (\<forall>w\<in>set (p_workers p). \<forall>t. w_pc w = Holding t \<longrightarrow> task_thread t = - 1 \<or> task_thread t = w_tid w)
    \<and> m_activeThreadCnt (p_sched p) = of_nat (length (filter is_holding (p_workers p)))
    \<and> m_idleThreadCnt (p_sched p) = sum_list (map idle_count (p_workers p))"
  using pool_acc.reach_inv [OF assms]
  by (simp add: pool_inv_def active_count_holding eligible_def)

theorem tasks_neither_lost_nor_duplicated_witness:
  "\<exists>p. pool_fetch 0 (ex_pool [cb_task (Some (User_cb 1)) (- 1)]) = Inr p
     \<and> held p = {#cb_task (Some (User_cb 1)) (- 1)#} \<and> m_activeThreadCnt (p_sched p) = 1"
proof -
  let ?t = "cb_task (Some (User_cb 1)) (- 1)"
  have v: "valid_task ?t" by (simp add: cb_task_def valid_task_def)
  define p where "p = projr (pool_fetch 0 (ex_pool [?t]))"
  have f: "pool_fetch 0 (ex_pool [?t]) = Inr p"
    using v by (simp add: p_def pool_fetch_def ex_pool_def ex_sched_def run_fetch_def cb_task_def)
  have "pool_step True (ex_pool [?t]) p"
    by (rule fetch [OF _ f]) (simp add: worker_at_def ex_pool_def)
  then have "reach pool_init (pool_step True) p"
    using v by (intro reach_step [OF reach_init]) (auto simp: ex_pool_init)
  from tasks_neither_lost_nor_duplicated [OF this] f v show ?thesis
    by (auto simp: pool_fetch_def ex_pool_def ex_sched_def run_fetch_def cb_task_def res_simps held_def
        is_holding_def)
qed

text \<open>
  C22: in a pool that only its own tasks feed, a worker leaves its loop only when everything is
  done: if any worker has left, then \<open>stop\<close> was called, the queue is empty, no worker holds a
  task, and every task ever scheduled has been run; and this stays so in all later states.
\<close>

theorem workers_leave_only_when_done:
  assumes "reach (\<lambda>p. pool_init p \<and> length (p_workers p) < 2 ^ 64) (pool_step False) p"
    and "w \<in> set (p_workers p)" and "w_pc w = Exited" and "(pool_step False)\<^sup>*\<^sup>* p q"
  shows "m_stopping (p_sched q) \<and> m_tasks (p_sched q) = []
    \<and> (\<forall>v\<in>set (p_workers q). \<forall>t. w_pc v \<noteq> Holding t) \<and> p_finished q = p_pushed q
    \<and> p_pushed q = p_pushed p"
proof -
  have "closed_inv p" by (rule closed_pool.reach_inv [OF assms(1)])
  then have p: "at_rest p" "pool_inv p"
    using assms(2,3) by (auto simp: closed_inv_def pool_inv_def)
  have "at_rest q \<and> pool_inv q \<and> p_pushed q = p_pushed p"
    using assms(4)
  proof (induction rule: rtranclp_induct)
    case base
    then show ?case using p by simp
  next
    case (step y z)
    then show ?case using at_rest_step [OF step(2)] pool_inv_step [OF step(2)] by auto
  qed
  then show ?thesis
    using nobody_holds [of q] by (auto simp: at_rest_def pool_inv_def someone_holds_def)
qed

theorem workers_leave_only_when_done_witness:
  "\<exists>q. (pool_step False)\<^sup>*\<^sup>* (ex_pool [cb_task (Some (User_cb 1)) (- 1)]) q
     \<and> m_tasks (p_sched q) = [] \<and> p_finished q = p_pushed q"
proof -
  let ?p = "ex_pool [cb_task (Some (User_cb 1)) (- 1)]"
  obtain q where q: "(pool_step False)\<^sup>*\<^sup>* ?p q" "serving q" "\<forall>w\<in>set (p_workers q). w_pc w = Exited"
    using shutdown_from_serving [OF ex_pool_serving] by blast
  have "reach (\<lambda>p. pool_init p \<and> length (p_workers p) < 2 ^ 64) (pool_step False) ?p"
    by (rule reach_init, rule ex_pool_init) (simp add: cb_task_def valid_task_def)
  from reach_rtranclp [OF this q(1)]
  have r: "reach (\<lambda>p. pool_init p \<and> length (p_workers p) < 2 ^ 64) (pool_step False) q" .
  have w: "hd (p_workers q) \<in> set (p_workers q)" using q(2) by (simp add: serving_def)
  from workers_leave_only_when_done [OF r w] q(1,3) w show ?thesis by blast
qed

text \<open>
  C21: shutdown can complete as long as somebody awake is there for each task. From every
  reachable state of a closed pool in which \<open>stop\<close> has been called, if each queued task has a
  thread of the pool that may run it, and this thread is not on its way into the hooked sleep of
  \<open>idle\<close>, where it would fault, there is a run in which all workers leave their loops, and then
  every task has been run.
\<close>

theorem shutdown_can_complete:
  assumes "reach (\<lambda>p. pool_init p \<and> length (p_workers p) < 2 ^ 64) (pool_step False) p"
    and "m_stopping (p_sched p)" and "p_workers p \<noteq> []"
    and "\<forall>t\<in>set (m_tasks (p_sched p)). \<exists>w\<in>set (p_workers p).
           (task_thread t = - 1 \<or> task_thread t = w_tid w)
           \<and> (w_hook w \<longrightarrow> w_pc w \<noteq> Empty_handed \<and> w_pc w \<noteq> Idling)"
  shows "\<exists>q. (pool_step False)\<^sup>*\<^sup>* p q \<and> (\<forall>w\<in>set (p_workers q). w_pc w = Exited)
           \<and> m_tasks (p_sched q) = [] \<and> p_finished q = p_pushed q"
proof -
  have "serving p"
    using closed_pool.reach_inv [OF assms(1)] assms(2-4) by (simp add: serving_def eligible_def awake_def)
  then obtain q where q: "(pool_step False)\<^sup>*\<^sup>* p q" "serving q" "\<forall>w\<in>set (p_workers q). w_pc w = Exited"
    using shutdown_from_serving by blast
  moreover have "hd (p_workers q) \<in> set (p_workers q)" using q(2) by (simp add: serving_def)
  ultimately have "at_rest q" "pool_inv q"
    by (auto simp: serving_def closed_inv_def pool_inv_def)
  with q nobody_holds [of q] show ?thesis by (auto simp: at_rest_def pool_inv_def)
qed

theorem shutdown_can_complete_witness:
  "\<exists>q. (pool_step False)\<^sup>*\<^sup>* (ex_pool [cb_task (Some (User_cb 2)) 12]) q
     \<and> (\<forall>w\<in>set (p_workers q). w_pc w = Exited)"
proof -
  let ?p = "ex_pool [cb_task (Some (User_cb 2)) 12]"
  have "reach (\<lambda>p. pool_init p \<and> length (p_workers p) < 2 ^ 64) (pool_step False) ?p"
    by (rule reach_init, rule ex_pool_init) (simp add: cb_task_def valid_task_def)
  from shutdown_can_complete [OF this] show ?thesis
    by (auto simp: ex_pool_def ex_sched_def cb_task_def)
qed

text \<open>
  A task for a thread that is not in the pool is accepted but never run, and it keeps the pool
  from ever shutting down: in all later states it is still in the queue, \<open>stopping()\<close> is false
  and no worker has left its loop.
\<close>

theorem unserved_task_blocks_shutdown:
  assumes "reach pool_init (pool_step ext) p" and "\<forall>w\<in>set (p_workers p). \<not> w_idle_term w"
    and "valid_task t" and "task_thread t \<notin> insert (- 1) (w_tid ` set (p_workers p))"
    and "pool_schedule t p = Inr p'" and "(pool_step ext)\<^sup>*\<^sup>* p' q"
  shows "t \<in> set (m_tasks (p_sched q)) \<and> \<not> base_stopping (p_sched q)
    \<and> (\<forall>w\<in>set (p_workers q). w_pc w \<noteq> Exited)"
proof -
  have "pool_inv p'"
    using pool_inv_schedule [OF pool_acc.reach_inv [OF assms(1)] assms(5)] .
  then have "unserved t p'"
    using assms(2-5) by (auto simp: unserved_def pool_schedule_eq push_task_def eligible_def)
  with assms(6) have "unserved t q" by (rule unserved_inv.steps_inv)
  then show ?thesis by (auto simp: unserved_def base_stopping_def pool_inv_def)
qed

theorem unserved_task_blocks_shutdown_witness:
  "\<exists>p. pool_schedule (cb_task (Some (User_cb 1)) 99) (ex_pool []) = Inr p
     \<and> \<not> base_stopping (p_sched p)"
proof -
  have "reach pool_init (pool_step True) (ex_pool [])"
    by (rule reach_init) (use ex_pool_init [of "[]"] in simp)
  from unserved_task_blocks_shutdown [OF this _ _ _ pool_schedule_eq rtranclp.rtrancl_refl,
      of "cb_task (Some (User_cb 1)) 99"]
  show ?thesis
    by (simp add: pool_schedule_eq ex_pool_def cb_task_def valid_task_def)
qed

end
