(* ===== verification/Task_Fibers.thy ===== *)
theory Task_Fibers
  imports Schedulers
begin

text \<open>
  The fibers a worker runs for its tasks, on a thread that keeps the discipline of
  \<open>fiber_step\<close>: what a blocking call of a task finds, what its \<open>yield\<close> leaves behind, and what the
  worker does with the fiber later. The clients of the library (the hooked calls) rest on these
  facts and not on the fields of the fibers.
\<close>

section \<open>Running and parked fibers\<close>

text \<open>The thread executes fiber \<open>f\<close>, which the scheduler fiber has resumed.\<close>

definition running_task :: "fiber_ptr \<Rightarrow> fiber_world \<Rightarrow> bool" where
  "running_task f w \<longleftrightarrow> reach fiber_init fiber_step w \<and> t_fiber w = Some f
     \<and> (\<exists>fb. fibers w f = Some fb \<and> m_runInScheduler fb = Some True)"

text \<open>The scheduler fiber is in control and fiber \<open>f\<close> can be resumed where it yielded.\<close>

definition parked :: "fiber_ptr \<Rightarrow> fiber_world \<Rightarrow> bool" where
  "parked f w \<longleftrightarrow> reach fiber_init fiber_step w \<and> t_fiber w = t_scheduler_fiber w
     \<and> (\<exists>fb. fibers w f = Some fb \<and> m_runInScheduler fb = Some True \<and> fiber_st fb = READY
          \<and> m_ctx fb = Saved (On_stack f))"

lemma running_taskE:
  assumes "running_task f w"
  obtains fb r g where "fibers w f = Some fb" "m_runInScheduler fb = Some True" "fiber_st fb = RUNNING"
    "t_fiber w = Some f" "cur w = On_stack f" "t_scheduler_fiber w = Some r" "r \<noteq> f" "fibers w r = Some g"
proof -
  obtain m s c where ok: "thread_ok m s c w"
    using fiber_disc.reach_inv assms unfolding running_task_def fiber_inv_def by blast
  obtain fb where fb: "fibers w f = Some fb" "m_runInScheduler fb = Some True" "t_fiber w = Some f"
    using assms by (auto simp: running_task_def)
  with ok have c: "c = f" by (simp add: thread_ok_def)
  note k = thread_okD [OF ok fb(1)]
  obtain g where g: "fibers w s = Some g" using ok by (auto simp: thread_ok_def)
  have "f \<noteq> m" "s \<noteq> f" "fiber_st fb = RUNNING"
    using k fb(2) by (auto simp: fiber_ok_def c chain_def)
  with that [OF fb(1,2) _ fb(3) _ _ _ g] show ?thesis
    using ok by (simp add: thread_ok_def c home_def)
qed

lemma parkedE:
  assumes "parked f w"
  obtains fb r g where "fibers w f = Some fb" "m_runInScheduler fb = Some True" "fiber_st fb = READY"
    "m_ctx fb = Saved (On_stack f)" "t_fiber w = Some r" "t_scheduler_fiber w = Some r" "r \<noteq> f"
    "fibers w r = Some g" "f \<noteq> fresh_ptr w" "r \<noteq> fresh_ptr w" "t_thread_fiber w \<noteq> None"
proof -
  obtain m s c where ok: "thread_ok m s c w"
    using fiber_disc.reach_inv assms unfolding parked_def fiber_inv_def by blast
  obtain fb where fb: "fibers w f = Some fb" "m_runInScheduler fb = Some True" "fiber_st fb = READY"
      "m_ctx fb = Saved (On_stack f)" "t_fiber w = t_scheduler_fiber w"
    using assms by (auto simp: parked_def)
  with ok have c: "c = s" by (auto simp: thread_ok_def)
  obtain g where g: "fibers w s = Some g" using ok by (auto simp: thread_ok_def)
  have "s \<noteq> f" "f \<noteq> fresh_ptr w" "s \<noteq> fresh_ptr w"
    using thread_okD [OF ok fb(1)] thread_okD [OF ok g] fb(2) by (auto simp: fiber_ok_def)
  with that [OF fb(1-4) _ _ _ g] show ?thesis
    using ok fb(5) by (simp add: thread_ok_def)
qed

text \<open>A task's fiber gives up the thread.\<close>

lemma running_task_GetThis: "running_task f w \<Longrightarrow> GetThis w = Inr (f, w)"
  by (elim running_taskE) (simp add: GetThis_def)

lemma running_task_yields:
  assumes "running_task f w"
  shows "\<exists>w1. fiber_yield f w = Inr w1 \<and> parked f w1"
proof -
  obtain fb r g where h: "fibers w f = Some fb" "m_runInScheduler fb = Some True" "fiber_st fb = RUNNING"
      "t_fiber w = Some f" "cur w = On_stack f" "t_scheduler_fiber w = Some r" "r \<noteq> f" "fibers w r = Some g"
    using assms by (rule running_taskE)
  let ?w1 = "w\<lparr>t_fiber := Some r,
      fibers := (fibers w)(f \<mapsto> fb\<lparr>fiber_st := READY, m_ctx := Saved (cur w)\<rparr>), cur := continue_in r (m_ctx g)\<rparr>"
  have y: "fiber_yield f w = Inr ?w1"
    using yield_eq [of w f fb True r g] h by simp
  have "reach fiber_init fiber_step ?w1"
    using assms fiber_step.yield [OF h(4) y] by (auto simp: running_task_def intro: reach_step)
  then show ?thesis
    using y h by (simp add: parked_def)
qed

text \<open>A worker that takes the fiber's task resumes it where it was.\<close>

lemma parked_resumes:
  assumes "parked f w"
  shows "\<exists>w1. run_dispatch (fiber_task (Some f) thr) w = Inr w1 \<and> running_task f w1 \<and> cur w1 = On_stack f"
proof -
  obtain fb r g where h: "fibers w f = Some fb" "m_runInScheduler fb = Some True" "fiber_st fb = READY"
      "m_ctx fb = Saved (On_stack f)" "t_fiber w = Some r" "t_scheduler_fiber w = Some r" "r \<noteq> f"
      "fibers w r = Some g"
    using assms by (rule parkedE)
  let ?w1 = "w\<lparr>t_fiber := Some f,
      fibers := (fibers w)(f \<mapsto> fb\<lparr>fiber_st := RUNNING\<rparr>, r \<mapsto> g\<lparr>m_ctx := Saved (cur w)\<rparr>),
      cur := continue_in f (m_ctx fb)\<rparr>"
  have y: "resume f w = Inr ?w1"
    using resume_eq [of w f fb True r g] h by simp
  have "reach fiber_init fiber_step ?w1"
    using assms fiber_step.resume [OF h(5,1) _ y] h(2,6)
    by (auto simp: parked_def partner_def intro: reach_step)
  then show ?thesis
    using y h by (simp add: running_task_def run_dispatch_def fiber_task_def continue_in_def)
qed

text \<open>The scheduler fiber resumes a fiber it has just made.\<close>

lemma new_fiber_runs:
  assumes "reach fiber_init fiber_step w" and "t_fiber w = t_scheduler_fiber w"
    and "new_fiber cb ss True w = (p, w0)"
  shows "\<exists>w1. resume p w0 = Inr w1 \<and> running_task p w1"
proof -
  obtain m s c where ok: "thread_ok m s c w"
    using fiber_disc.reach_inv [OF assms(1)] unfolding fiber_inv_def by blast
  then obtain g where g: "fibers w s = Some g" "t_scheduler_fiber w = Some s" "t_fiber w = Some s"
    using assms(2) by (auto simp: thread_ok_def)
  have "s \<noteq> fresh_ptr w" using thread_okD [OF ok g(1)] by (simp add: fiber_ok_def)
  then have n: "fibers w0 s = Some g" "t_scheduler_fiber w0 = Some s" "t_fiber w0 = Some s" "s \<noteq> p"
      "fibers w0 p = Some (child_fiber cb ss True w)"
    using assms(3) g by (auto simp: new_fiber_def Let_def)
  have "\<exists>w1. resume p w0 = Inr w1 \<and> t_fiber w1 = Some p
      \<and> fibers w1 p = Some ((child_fiber cb ss True w)\<lparr>fiber_st := RUNNING\<rparr>)"
    using resume_eq [OF n(5) _ _ _ n(4,1), of True] n(2,4) by (simp add: child_fiber_def)
  then obtain w1 where w1: "resume p w0 = Inr w1" "t_fiber w1 = Some p"
      "fibers w1 p = Some ((child_fiber cb ss True w)\<lparr>fiber_st := RUNNING\<rparr>)" by blast
  have "reach fiber_init fiber_step w0"
    using assms(1) fiber_step.create [OF assms(3)] by (rule reach_step)
  moreover have "fiber_step w0 w1"
    by (rule fiber_step.resume [OF n(3,5) _ w1(1)]) (use n in \<open>simp add: partner_def child_fiber_def\<close>)
  ultimately show ?thesis
    using w1 by (auto simp: running_task_def child_fiber_def intro: reach_step)
qed

text \<open>
  A worker that takes a callback runs it in a new fiber, whatever runs there being a task of the
  thread; when it ends without a \<open>yield\<close>, a parked fiber is parked still.
\<close>

lemma parked_callback:
  assumes "parked f w"
  shows "\<exists>p w1 w2. run_dispatch (cb_task (Some cb) thr) w = Inr w1 \<and> running_task p w1
    \<and> MainFunc_enter w1 = Inr (p, cb, w1) \<and> MainFunc_leave p w1 = Inr w2 \<and> parked f w2"
proof -
  obtain fb r g where h: "fibers w f = Some fb" "m_runInScheduler fb = Some True" "fiber_st fb = READY"
      "m_ctx fb = Saved (On_stack f)" "t_fiber w = Some r" "t_scheduler_fiber w = Some r" "r \<noteq> f"
      "fibers w r = Some g" "f \<noteq> fresh_ptr w" "r \<noteq> fresh_ptr w"
    using assms by (rule parkedE)
  define p where "p = fresh_ptr w"
  define c where "c = child_fiber (Some cb) 0 True w"
  define w0 where "w0 = snd (new_fiber (Some cb) 0 True w)"
  have new: "new_fiber (Some cb) 0 True w = (p, w0)" and w0: "fibers w0 = (fibers w)(p \<mapsto> c)"
      "t_scheduler_fiber w0 = Some r"
    using h(6) by (simp_all add: new_fiber_def Let_def p_def w0_def c_def)
  have c: "m_runInScheduler c = Some True" "fiber_st c = READY" "m_ctx c = Fresh" "fiber_cb c = Some cb"
    by (simp_all add: c_def child_fiber_def)
  have pr: "p \<noteq> f" "r \<noteq> p" using h(9,10) by (simp_all add: p_def)
  obtain w1 where res: "resume p w0 = Inr w1" and run: "running_task p w1"
    using new_fiber_runs [OF _ _ new] assms by (auto simp: parked_def)
  have w1: "fibers w1 = (fibers w)(p \<mapsto> c\<lparr>fiber_st := RUNNING\<rparr>, r \<mapsto> g\<lparr>m_ctx := Saved (cur w0)\<rparr>)"
      "t_scheduler_fiber w1 = Some r"
    using resume_eq [of w0 p c True r g] res w0 c pr h(8) by auto
  have enter: "MainFunc_enter w1 = Inr (p, cb, w1)"
    using running_task_GetThis [OF run] pr c(4) w1 by (simp add: MainFunc_enter_def)
  define c2 where "c2 = c\<lparr>fiber_cb := None, fiber_st := TERMINATED\<rparr>"
  let ?w1' = "upd_fiber p (\<lambda>f. f\<lparr>fiber_cb := None, fiber_st := TERMINATED\<rparr>) w1"
  have "\<exists>w2. fiber_yield p ?w1' = Inr w2 \<and> t_fiber w2 = Some r \<and> t_scheduler_fiber w2 = Some r
      \<and> fibers w2 f = Some fb"
    using yield_eq [of ?w1' p c2 True r "g\<lparr>m_ctx := Saved (cur w0)\<rparr>"] c(1) pr w1 h(1,7)
    by (simp add: c2_def)
  then obtain w2 where w2: "MainFunc_leave p w1 = Inr w2" "t_fiber w2 = Some r" "t_scheduler_fiber w2 = Some r"
      "fibers w2 f = Some fb"
    using pr w1 by (auto simp: MainFunc_leave_def)
  have "reach fiber_init fiber_step w2"
    using fiber_step.leave [OF _ w2(1)] run by (auto simp: running_task_def intro: reach_step)
  then have "parked f w2" using w2 h by (simp add: parked_def)
  then show ?thesis
    using res new enter w2(1) run by (auto simp: run_dispatch_def cb_task_def)
qed

section \<open>Fibers that have yielded\<close>

text \<open>
  A fiber that has yielded, with its object \<open>fb\<close>, and steps of the thread that neither resume nor
  destroy it: the fibers of other tasks may be made, resumed, yield, end and be reused meanwhile.
\<close>

definition suspended :: "fiber_ptr \<Rightarrow> fiber \<Rightarrow> fiber_world \<Rightarrow> bool" where
  "suspended f fb w \<longleftrightarrow> reach fiber_init fiber_step w \<and> fibers w f = Some fb
     \<and> m_runInScheduler fb = Some True \<and> fiber_st fb = READY \<and> m_ctx fb = Saved (On_stack f)"

definition step_elsewhere :: "fiber_ptr \<Rightarrow> fiber_world \<Rightarrow> fiber_world \<Rightarrow> bool" where
  "step_elsewhere f w w' \<longleftrightarrow> fiber_step w w' \<and> t_fiber w' \<noteq> Some f \<and> fibers w' f \<noteq> None"

lemma parked_suspended:
  "parked f w \<longleftrightarrow> (\<exists>fb. suspended f fb w) \<and> t_fiber w = t_scheduler_fiber w"
  by (auto simp: parked_def suspended_def)

lemma suspended_not_current:
  assumes "suspended f fb w"
  shows "t_fiber w \<noteq> Some f" and "f < fresh_ptr w"
proof -
  obtain m s c where ok: "thread_ok m s c w"
    using fiber_disc.reach_inv assms unfolding suspended_def fiber_inv_def by blast
  have fb: "fibers w f = Some fb" "fiber_st fb = READY" using assms by (simp_all add: suspended_def)
  note k = thread_okD [OF ok fb(1)]
  then have "f \<noteq> c" using fb(2) by (auto simp: fiber_ok_def chain_def)
  then show "t_fiber w \<noteq> Some f" using ok by (simp add: thread_ok_def)
  show "f < fresh_ptr w" using k by (simp add: fiber_ok_def)
qed

text \<open>A switch saves its context in the fiber it leaves and touches no third one.\<close>

lemma swapcontext_frame:
  "swapcontext p q w = Inr w' \<Longrightarrow> f \<noteq> p \<Longrightarrow> fibers w' f = fibers w f"
  by (auto simp: swapcontext_def Let_def res_simps)

lemma swapcontext_t_fiber: "swapcontext p q w = Inr w' \<Longrightarrow> t_fiber w' = t_fiber w"
  by (auto simp: swapcontext_def Let_def res_simps)

lemma yield_frame: "fiber_yield p w = Inr w' \<Longrightarrow> f \<noteq> p \<Longrightarrow> fibers w' f = fibers w f"
  unfolding fiber_yield_def Let_def bind_res_eq_Inr
  by (elim exE conjE) (drule swapcontext_frame, simp_all split: if_splits)

lemma resume_frame:
  assumes "resume p w = Inr w'" and "partner g w = Inr (Some q)" and "fibers w p = Some g"
  shows "t_fiber w' = Some p" and "f \<noteq> p \<Longrightarrow> f \<noteq> q \<Longrightarrow> fibers w' f = fibers w f"
proof -
  have "swapcontext q p (SetThis (Some p) (upd_fiber p (\<lambda>f. f\<lparr>fiber_st := RUNNING\<rparr>) w)) = Inr w'"
    using assms by (simp add: resume_def Let_def bind_res_eq_Inr fiber_at_eq_Inr deref_eq_Inr)
  then show "t_fiber w' = Some p" and "f \<noteq> p \<Longrightarrow> f \<noteq> q \<Longrightarrow> fibers w' f = fibers w f"
    by (simp_all add: swapcontext_frame swapcontext_t_fiber)
qed

lemma suspended_step:
  assumes "suspended f fb w" and "step_elsewhere f w w'"
  shows "suspended f fb w'"
proof -
  have st: "fiber_step w w'" and away: "t_fiber w' \<noteq> Some f" and alive: "fibers w' f \<noteq> None"
    using assms(2) by (simp_all add: step_elsewhere_def)
  have fb: "fibers w f = Some fb" "fiber_st fb = READY" using assms(1) by (simp_all add: suspended_def)
  note nc = suspended_not_current [OF assms(1)]
  have "fibers w' f = Some fb"
    using st
  proof cases
    case (resume q p g)
    have "q \<noteq> f" using resume(1) nc(1) by auto
    moreover have "p \<noteq> f"
      using away resume_frame(1) [OF resume(4,3,2)] by auto
    ultimately show ?thesis
      using resume_frame(2) [OF resume(4,3,2), of f] fb(1) by simp
  next
    case (yield p)
    then show ?thesis using nc(1) fb(1) yield_frame [of p w w' f] by auto
  next
    case (leave p)
    have "p \<noteq> f" using leave(1) nc(1) by auto
    then show ?thesis
      using leave(2) fb(1) by (auto simp: MainFunc_leave_def res_simps dest!: yield_frame [of p _ w' f])
  next
    case (reset p cb)
    then have "p \<noteq> f" using fb by (auto simp: fiber_reset_def res_simps)
    then show ?thesis using reset fb(1) by (auto simp: fiber_reset_def res_simps)
  qed (use alive nc(2) fb(1) in \<open>auto simp: new_fiber_def Let_def SetSchedulerFiber_def delete_fiber_def
      split: if_splits\<close>)
  then show ?thesis
    using assms(1) st by (auto simp: suspended_def intro: reach_step)
qed

interpretation frozen: inductive_invariant "suspended f fb" "step_elsewhere f" "suspended f fb" for f fb
  by unfold_locales (auto intro: suspended_step)

section \<open>The thread that calls stop\<close>

text \<open>
  \<open>Scheduler::stop\<close> on a scheduler made with \<open>use_caller\<close>: \<open>m_schedulerFiber->resume()\<close>, which runs
  \<open>Scheduler::run\<close> on the calling thread.
\<close>

definition stop_resume :: "'z scheduler_scheme \<Rightarrow> fiber_world \<Rightarrow> fiber_world res" where
  "stop_resume s w = (case m_schedulerFiber s of None \<Rightarrow> Inr w | Some p \<Rightarrow> resume p w)"

text \<open>Steps of the thread that leave its main and scheduler fibers what they are.\<close>

definition worker_step :: "fiber_world \<Rightarrow> fiber_world \<Rightarrow> bool" where
  "worker_step w w' \<longleftrightarrow> fiber_step w w' \<and> t_scheduler_fiber w' = t_scheduler_fiber w
     \<and> t_thread_fiber w' = t_thread_fiber w"

lemma worker_steps:
  assumes "worker_step\<^sup>*\<^sup>* w w'" and "fiber_inv w"
  shows "fiber_inv w' \<and> t_scheduler_fiber w' = t_scheduler_fiber w \<and> t_thread_fiber w' = t_thread_fiber w"
  using assms by (induction rule: rtranclp_induct) (auto simp: worker_step_def intro: fiber_disc.step_inv)

text \<open>When \<open>run\<close> returns, the end of \<open>MainFunc\<close> goes back to the thread's own flow.\<close>

lemma scheduler_fiber_ends:
  assumes ok: "thread_ok m p p w" and "p \<noteq> m"
  shows "\<exists>w'. MainFunc_leave p w = Inr w' \<and> cur w' = On_thread \<and> t_fiber w' = Some m
    \<and> (\<exists>f. fibers w' p = Some f \<and> fiber_st f = TERMINATED)"
proof -
  obtain fm fs where f: "fibers w m = Some fm" "fibers w p = Some fs" "m_runInScheduler fs \<noteq> Some True"
    using ok by (rule thread_ok_current)
  have b: "m_runInScheduler fs = Some False"
    using thread_okD [OF ok f(2)] f(3) assms(2) by (cases "m_runInScheduler fs") (auto simp: fiber_ok_def)
  have m: "m_ctx fm = Saved On_thread" "t_thread_fiber w = Some m"
    using thread_okD [OF ok f(1)] ok assms(2) by (auto simp: fiber_ok_def chain_def thread_ok_def home_def)
  let ?g = "fs\<lparr>fiber_cb := None, fiber_st := TERMINATED\<rparr>"
  let ?w = "upd_fiber p (\<lambda>f. f\<lparr>fiber_cb := None, fiber_st := TERMINATED\<rparr>) w"
  show ?thesis
    using yield_eq [of ?w p ?g False m fm] f b m assms(2)
    by (auto simp: MainFunc_leave_def continue_in_def)
qed

text \<open>A thread with its main fiber, for the concrete instance.\<close>

definition ex_caller :: thread_locals where
  "ex_caller = \<lparr>t_scheduler = None, t_hook_enable = False, tl_thread = init_thread None ''main'',
     tl_own = init_own ''main'', tl_fibers = ex_world\<rparr>"

text \<open>
  C26: The thread that makes a scheduler with \<open>use_caller\<close> and calls \<open>stop\<close> is its worker: control goes to
  the scheduler fiber, which runs \<open>Scheduler::run\<close> of this scheduler; whatever fibers it then
  serves, when \<open>run\<close> returns, control is back in \<open>stop\<close>, on the thread's own flow and main fiber.
  The scheduler fiber has ended for good: a second \<open>stop\<close> that finds work left fails the
  assertion of \<open>resume\<close>.
\<close>

theorem stop_serves_and_returns:
  assumes "reach fiber_init fiber_step (tl_fibers l)" and "t_fiber (tl_fibers l) = t_thread_fiber (tl_fibers l)"
    and "new_scheduler this tid n True name l = Inr (s, l1)"
  shows "\<exists>p w. m_schedulerFiber s = Some p \<and> stop_resume s (tl_fibers l1) = Inr w \<and> cur w = On_stack p
    \<and> t_fiber w = Some p \<and> MainFunc_enter w = Inr (p, Scheduler_run this, w)
    \<and> (\<forall>w2. worker_step\<^sup>*\<^sup>* w w2 \<and> t_fiber w2 = Some p \<longrightarrow>
         (\<exists>w3. MainFunc_leave p w2 = Inr w3 \<and> cur w3 = On_thread \<and> t_fiber w3 = t_fiber (tl_fibers l)
            \<and> stop_resume s w3 = Inl Assertion_failed))"
proof -
  let ?w = "tl_fibers l"
  obtain m s0 where ok: "thread_ok m s0 m ?w"
    using fiber_disc.reach_inv [OF assms(1)] assms(2) by (auto simp: fiber_inv_def thread_ok_def)
  then obtain fm where fm: "fibers ?w m = Some fm" by (auto simp: thread_ok_def)
  have t: "t_fiber ?w = Some m" "t_thread_fiber ?w = Some m" using ok by (simp_all add: thread_ok_def)
  have lt: "m < fresh_ptr ?w" using thread_okD [OF ok fm] by (simp add: fiber_ok_def)
  define p where "p = fresh_ptr ?w"
  define f where "f = child_fiber (Some (Scheduler_run this)) 0 False ?w"
  define w0 where "w0 = snd (new_fiber (Some (Scheduler_run this)) 0 False ?w)"
  have f: "fiber_st f = READY" "m_runInScheduler f = Some False" "m_ctx f = Fresh"
      "fiber_cb f = Some (Scheduler_run this)"
    by (simp_all add: f_def child_fiber_def)
  have new: "new_fiber (Some (Scheduler_run this)) 0 False ?w = (p, w0)"
    by (simp add: w0_def p_def new_fiber_def Let_def)
  have w0: "fibers w0 = (fibers ?w)(p \<mapsto> f)" "t_fiber w0 = Some m" "t_thread_fiber w0 = Some m"
    using t by (simp_all add: w0_def p_def f_def new_fiber_def Let_def)
  define w1 where "w1 = SetSchedulerFiber (Some p) w0"
  have s: "m_schedulerFiber s = Some p" "tl_fibers l1 = w1"
    using assms(3) t(1) fm new
    by (auto simp: new_scheduler_def res_simps Let_def case_prod_beta GetThis_def w1_def)
  have pm: "m \<noteq> p" using lt by (simp add: p_def)
  have inv1: "fiber_inv w1"
    using fiber_disc.step_inv [OF fiber_disc.step_inv [OF _ fiber_step.create [OF new]]
        fiber_step.set_scheduler [of w0 p f]] fiber_disc.reach_inv [OF assms(1)] w0 f(2)
    by (simp add: w1_def)
  have w1: "fibers w1 p = Some f" "fibers w1 m = Some fm" "t_fiber w1 = Some m" "t_thread_fiber w1 = Some m"
      "t_scheduler_fiber w1 = Some p"
    using w0 fm pm by (simp_all add: w1_def SetSchedulerFiber_def)
  obtain w2 where r: "resume p w1 = Inr w2" and w2: "t_fiber w2 = Some p" "cur w2 = On_stack p"
      "fibers w2 p = Some (f\<lparr>fiber_st := RUNNING\<rparr>)" "t_thread_fiber w2 = Some m" "t_scheduler_fiber w2 = Some p"
    using resume_eq [of w1 p f False m fm] w1 f pm by (auto simp: continue_in_def)
  have "fiber_step w1 w2"
    by (rule fiber_step.resume [OF w1(3,1) _ r]) (simp add: partner_def f(2) w1(4))
  with inv1 have inv2: "fiber_inv w2" by (rule fiber_disc.step_inv)
  have "\<exists>w4. MainFunc_leave p w3 = Inr w4 \<and> cur w4 = On_thread \<and> t_fiber w4 = t_fiber ?w
      \<and> stop_resume s w4 = Inl Assertion_failed"
    if "worker_step\<^sup>*\<^sup>* w2 w3" "t_fiber w3 = Some p" for w3
  proof -
    have "thread_ok m p p w3"
      using worker_steps [OF that(1) inv2] that(2) w2 by (auto simp: fiber_inv_def thread_ok_def)
    from scheduler_fiber_ends [OF this] pm obtain w4 g where w4: "MainFunc_leave p w3 = Inr w4"
        "cur w4 = On_thread" "t_fiber w4 = Some m" "fibers w4 p = Some g" "fiber_st g = TERMINATED" by auto
    then have "stop_resume s w4 = Inl Assertion_failed" by (simp add: stop_resume_def s(1) resume_def)
    with w4 t(1) show ?thesis by simp
  qed
  moreover have "MainFunc_enter w2 = Inr (p, Scheduler_run this, w2)"
    using w2 f(4) by (simp add: MainFunc_enter_def GetThis_def)
  moreover have "stop_resume s (tl_fibers l1) = Inr w2" using r by (simp add: stop_resume_def s)
  ultimately show ?thesis using s(1) w2(1,2) by blast
qed

theorem stop_serves_and_returns_witness:
  "\<exists>s l1 p w w3. new_scheduler 1 7 1 True ''s'' ex_caller = Inr (s, l1) \<and> m_schedulerFiber s = Some p
     \<and> stop_resume s (tl_fibers l1) = Inr w \<and> cur w = On_stack p
     \<and> MainFunc_leave p w = Inr w3 \<and> cur w3 = On_thread"
proof -
  obtain s l1 where n: "new_scheduler 1 7 1 True ''s'' ex_caller = Inr (s, l1)"
    by (simp add: new_scheduler_def case_prod_beta GetThis_def Let_def ex_caller_def ex_fiber_defs)
  have "reach fiber_init fiber_step (tl_fibers ex_caller)" "t_fiber (tl_fibers ex_caller) = t_thread_fiber (tl_fibers ex_caller)"
    using ex_world_reach by (simp_all add: ex_caller_def ex_fiber_defs)
  from stop_serves_and_returns [OF this n] show ?thesis using n by blast
qed

section \<open>An example\<close>

text \<open>The thread of \<open>ex_world\<close> while it runs fiber 1.\<close>

definition ex_task :: fiber_world where
  "ex_task = ex_world\<lparr>t_fiber := Some 1,
     fibers := [0 \<mapsto> ex_main, 1 \<mapsto> (ex_child 1)\<lparr>fiber_st := RUNNING\<rparr>, 2 \<mapsto> ex_child 2], cur := On_stack 1\<rparr>"

lemma ex_task_running: "running_task 1 ex_task"
proof -
  have r: "resume 1 ex_world = Inr ex_task"
    using resume_eq [of ex_world 1 "ex_child 1" True 0 ex_main]
    by (auto simp: ex_fiber_defs ex_task_def continue_in_def fun_eq_iff)
  have "fiber_step ex_world ex_task"
    by (rule fiber_step.resume [OF _ _ _ r, of 0 "ex_child 1"])
      (simp_all add: ex_fiber_defs partner_def)
  then show ?thesis
    using reach_step [OF ex_world_reach] by (simp add: running_task_def ex_task_def ex_child_def)
qed

text \<open>
  C17: a fiber that has yielded is frozen. Whatever the thread does with other fibers, its state, its
  closure and its saved context stay as they are until it is resumed, and as soon as the
  scheduler fiber is in control the worker can resume it exactly where it yielded.
\<close>

theorem yielded_fiber_is_frozen:
  assumes "running_task f w" and "fiber_yield f w = Inr w1" and "(step_elsewhere f)\<^sup>*\<^sup>* w1 w2"
  shows "fibers w2 f = fibers w1 f
    \<and> (t_fiber w2 = t_scheduler_fiber w2 \<longrightarrow>
         (\<exists>w3. run_dispatch (fiber_task (Some f) thr) w2 = Inr w3 \<and> running_task f w3
            \<and> cur w3 = cur w))"
proof -
  have "parked f w1" using running_task_yields [OF assms(1)] assms(2) by auto
  then obtain fb where "suspended f fb w1" by (auto simp: parked_suspended)
  moreover from this have "suspended f fb w2" by (rule frozen.steps_inv [OF assms(3)])
  moreover have "cur w = On_stack f" using assms(1) by (rule running_taskE)
  ultimately show ?thesis
    using parked_resumes [of f w2 thr] by (auto simp: parked_suspended) (auto simp: suspended_def)
qed

theorem yielded_fiber_is_frozen_witness:
  "\<exists>w1 w2 w3. fiber_yield 1 ex_task = Inr w1 \<and> w2 = snd (new_fiber (Some (User_cb 3)) 0 True w1)
     \<and> run_dispatch (fiber_task (Some 1) (- 1)) w2 = Inr w3 \<and> cur w3 = On_stack 1"
proof -
  obtain w1 where w1: "fiber_yield 1 ex_task = Inr w1" "parked 1 w1"
    using running_task_yields [OF ex_task_running] by blast
  define w2 where "w2 = snd (new_fiber (Some (User_cb 3)) 0 True w1)"
  have "fiber_step w1 w2"
    by (rule fiber_step.create [of "Some (User_cb 3)" 0 True _ "fresh_ptr w1"])
      (simp add: w2_def new_fiber_def Let_def)
  moreover obtain fb where "suspended 1 fb w1" using w1(2) by (auto simp: parked_suspended)
  ultimately have "step_elsewhere 1 w1 w2"
    using suspended_not_current [of 1 fb w1]
    by (auto simp: step_elsewhere_def suspended_def w2_def new_fiber_def Let_def)
  then have "(step_elsewhere 1)\<^sup>*\<^sup>* w1 w2" by (rule r_into_rtranclp)
  from yielded_fiber_is_frozen [OF ex_task_running w1(1) this, of "- 1"] w1(2)
  have "\<exists>w3. run_dispatch (fiber_task (Some 1) (- 1)) w2 = Inr w3 \<and> cur w3 = cur ex_task"
    by (auto simp: w2_def new_fiber_def Let_def parked_def)
  then show ?thesis using w1(1) w2_def by (auto simp: ex_task_def)
qed

end
