(* ===== verification/Shared_Fibers.thy ===== *)
theory Shared_Fibers
  imports Fibers
begin

text \<open>
  The fibers of a process as several threads share them: the objects and the static counters are
  common, each thread has its own thread-local pointers and executes one flow of control. A fiber
  that one thread left can be continued by another. The operations of \<open>Fibers\<close> run on a thread's
  view of this state.
\<close>

section \<open>State\<close>

text \<open>
  Where a worker is with respect to fibers. With a task in hand, it takes the mutex of the task's
  fiber (\<open>Locked\<close>), executes the fiber (\<open>Inside\<close>), is back from it (\<open>Left\<close>), and has released the
  mutex (\<open>Served\<close>); without a task it may execute its idle fiber.
\<close>

datatype phase = Outside | Locked fiber_ptr | Inside fiber_ptr | Left fiber_ptr | Served | In_idle

record fthread =
  ft_fiber :: "fiber_ptr option"       \<comment> \<open>\<open>t_fiber\<close>\<close>
  ft_main :: "fiber_ptr option"        \<comment> \<open>\<open>t_thread_fiber\<close>\<close>
  ft_sched :: "fiber_ptr option"       \<comment> \<open>\<open>t_scheduler_fiber\<close>\<close>
  ft_cur :: flow                       \<comment> \<open>the flow of control it executes\<close>
  ft_idle :: fiber_ptr                 \<comment> \<open>\<open>idle_fiber\<close> of \<open>run\<close>\<close>
  ft_phase :: phase

record fiber_space =
  fs_fibers :: "fiber_ptr \<Rightarrow> fiber option"
  fs_fresh :: fiber_ptr
  fs_next_id :: u64
  fs_count :: u64
  fs_threads :: "nat \<Rightarrow> fthread"

text \<open>What thread \<open>i\<close> sees, and the state after it has changed what it sees.\<close>

definition view :: "nat \<Rightarrow> 'z fiber_space_scheme \<Rightarrow> fiber_world" where
  "view i W = \<lparr>fibers = fs_fibers W, fresh_ptr = fs_fresh W, s_fiber_id = fs_next_id W,
     s_fiber_cnt = fs_count W, t_fiber = ft_fiber (fs_threads W i),
     t_thread_fiber = ft_main (fs_threads W i), t_scheduler_fiber = ft_sched (fs_threads W i),
     cur = ft_cur (fs_threads W i)\<rparr>"

definition put_view :: "nat \<Rightarrow> fiber_world \<Rightarrow> 'z fiber_space_scheme \<Rightarrow> 'z fiber_space_scheme" where
  "put_view i w W = W\<lparr>fs_fibers := fibers w, fs_fresh := fresh_ptr w, fs_next_id := s_fiber_id w,
     fs_count := s_fiber_cnt w,
     fs_threads := (fs_threads W)(i := (fs_threads W i)\<lparr>ft_fiber := t_fiber w,
       ft_main := t_thread_fiber w, ft_sched := t_scheduler_fiber w, ft_cur := cur w\<rparr>)\<rparr>"

definition on_thread ::
  "nat \<Rightarrow> (fiber_world \<Rightarrow> fiber_world res) \<Rightarrow> 'z fiber_space_scheme \<Rightarrow> 'z fiber_space_scheme res"
where
  "on_thread i f W = bind_res (f (view i W)) (\<lambda>w. Inr (put_view i w W))"

definition set_phase :: "nat \<Rightarrow> phase \<Rightarrow> 'z fiber_space_scheme \<Rightarrow> 'z fiber_space_scheme" where
  "set_phase i ph W = W\<lparr>fs_threads := (fs_threads W)(i := (fs_threads W i)\<lparr>ft_phase := ph\<rparr>)\<rparr>"

text \<open>Thread \<open>i\<close> performs an operation that switches and is then at another place.\<close>

definition switch ::
  "nat \<Rightarrow> (fiber_world \<Rightarrow> fiber_world res) \<Rightarrow> phase \<Rightarrow> 'z fiber_space_scheme \<Rightarrow> 'z fiber_space_scheme res"
where
  "switch i f ph W = bind_res (on_thread i f W) (\<lambda>W'. Inr (set_phase i ph W'))"

lemma view_sel [simp]:
  "fibers (view i W) = fs_fibers W" "fresh_ptr (view i W) = fs_fresh W"
  "s_fiber_id (view i W) = fs_next_id W" "s_fiber_cnt (view i W) = fs_count W"
  "t_fiber (view i W) = ft_fiber (fs_threads W i)"
  "t_thread_fiber (view i W) = ft_main (fs_threads W i)"
  "t_scheduler_fiber (view i W) = ft_sched (fs_threads W i)" "cur (view i W) = ft_cur (fs_threads W i)"
  by (simp_all add: view_def)

lemma put_view_sel [simp]:
  "fs_fibers (put_view i w W) = fibers w" "fs_fresh (put_view i w W) = fresh_ptr w"
  "fs_next_id (put_view i w W) = s_fiber_id w" "fs_count (put_view i w W) = s_fiber_cnt w"
  "fs_threads (put_view i w W) = (fs_threads W)(i := (fs_threads W i)\<lparr>ft_fiber := t_fiber w,
     ft_main := t_thread_fiber w, ft_sched := t_scheduler_fiber w, ft_cur := cur w\<rparr>)"
  by (simp_all add: put_view_def)

lemma set_phase_sel [simp]:
  "fs_fibers (set_phase i ph W) = fs_fibers W" "fs_fresh (set_phase i ph W) = fs_fresh W"
  "fs_next_id (set_phase i ph W) = fs_next_id W" "fs_count (set_phase i ph W) = fs_count W"
  "fs_threads (set_phase i ph W) = (fs_threads W)(i := (fs_threads W i)\<lparr>ft_phase := ph\<rparr>)"
  by (simp_all add: set_phase_def)

lemma view_put [simp]: "view i (put_view i w W) = w" "put_view i w (put_view i v W) = put_view i w W"
  by (simp_all add: view_def put_view_def)

section \<open>Threads, fibers and flows\<close>

text \<open>The fiber a thread executes beside its main and its scheduler fiber.\<close>

definition exec :: "fthread \<Rightarrow> fiber_ptr option" where
  "exec t = (case ft_phase t of Inside f \<Rightarrow> Some f | In_idle \<Rightarrow> Some (ft_idle t) | _ \<Rightarrow> None)"

definition runs_in_scheduler :: "(fiber_ptr \<Rightarrow> fiber option) \<Rightarrow> fiber_ptr \<Rightarrow> bool" where
  "runs_in_scheduler F p \<longleftrightarrow> (\<exists>fb. F p = Some fb \<and> m_runInScheduler fb = Some True)"

text \<open>
  The pointers of a thread agree with what it executes: its scheduler fiber, or a fiber for which
  the scheduler fiber has saved the scheduler's flow.
\<close>

definition thread_ctl :: "(fiber_ptr \<Rightarrow> fiber option) \<Rightarrow> fthread \<Rightarrow> bool" where
  "thread_ctl F t \<longleftrightarrow> (\<exists>m s g. ft_main t = Some m \<and> ft_sched t = Some s \<and> F m \<noteq> None
     \<and> F s = Some g \<and> m_runInScheduler g \<noteq> Some True
     \<and> (case exec t of
          None \<Rightarrow> ft_fiber t = Some s \<and> ft_cur t = home m s
        | Some p \<Rightarrow> ft_fiber t = Some p \<and> ft_cur t = On_stack p \<and> m_ctx g = Saved (home m s)
            \<and> runs_in_scheduler F p))"

text \<open>
  The first \<open>n\<close> threads: no two have a scheduler fiber in common or execute the same fiber, a fiber
  of the scheduler is \<open>RUNNING\<close> when a thread executes it, and a \<open>READY\<close> one continues on its stack.
\<close>

definition fiber_ctl :: "nat \<Rightarrow> 'z fiber_space_scheme \<Rightarrow> fiber_ptr \<Rightarrow> fiber \<Rightarrow> bool" where
  "fiber_ctl n W p fb \<longleftrightarrow> p < fs_fresh W \<and> (m_runInScheduler fb = Some True \<longrightarrow>
     (fiber_st fb = RUNNING \<longleftrightarrow> (\<exists>i<n. exec (fs_threads W i) = Some p))
     \<and> (fiber_st fb = READY \<longrightarrow> m_ctx fb = Fresh \<or> m_ctx fb = Saved (On_stack p)))"

definition space_ctl :: "nat \<Rightarrow> 'z fiber_space_scheme \<Rightarrow> bool" where
  "space_ctl n W \<longleftrightarrow> (\<forall>i<n. thread_ctl (fs_fibers W) (fs_threads W i))
     \<and> (\<forall>i<n. \<forall>j<n. ft_sched (fs_threads W i) = ft_sched (fs_threads W j) \<longrightarrow> i = j)
     \<and> (\<forall>i<n. \<forall>j<n. \<forall>p. exec (fs_threads W i) = Some p \<longrightarrow> exec (fs_threads W j) = Some p \<longrightarrow> i = j)
     \<and> (\<forall>p fb. fs_fibers W p = Some fb \<longrightarrow> fiber_ctl n W p fb)"

lemma space_ctlD:
  assumes "space_ctl n W"
  shows "i < n \<Longrightarrow> thread_ctl (fs_fibers W) (fs_threads W i)"
    and "i < n \<Longrightarrow> j < n \<Longrightarrow> ft_sched (fs_threads W i) = ft_sched (fs_threads W j) \<Longrightarrow> i = j"
    and "i < n \<Longrightarrow> j < n \<Longrightarrow> exec (fs_threads W i) = Some p \<Longrightarrow> exec (fs_threads W j) = Some p \<Longrightarrow> i = j"
    and "fs_fibers W p = Some fb \<Longrightarrow> fiber_ctl n W p fb"
  using assms unfolding space_ctl_def by blast+

lemma runs_in_schedulerE:
  assumes "runs_in_scheduler F p"
  obtains fb where "F p = Some fb" "m_runInScheduler fb = Some True"
  using assms by (auto simp: runs_in_scheduler_def)

lemma thread_ctl_restE:
  assumes "thread_ctl F t" and "exec t = None"
  obtains m s g where "ft_main t = Some m" "ft_sched t = Some s" "F m \<noteq> None" "F s = Some g"
    "m_runInScheduler g \<noteq> Some True" "ft_fiber t = Some s" "ft_cur t = home m s"
  using assms by (auto simp: thread_ctl_def)

lemma thread_ctl_execE:
  assumes "thread_ctl F t" and "exec t = Some p"
  obtains m s g fb where "ft_main t = Some m" "ft_sched t = Some s" "F m \<noteq> None" "F s = Some g"
    "m_runInScheduler g \<noteq> Some True" "ft_fiber t = Some p" "ft_cur t = On_stack p"
    "m_ctx g = Saved (home m s)" "F p = Some fb" "m_runInScheduler fb = Some True" "s \<noteq> p"
  using assms by (auto simp: thread_ctl_def runs_in_scheduler_def) (metis option.inject)

text \<open>Changes to other fibers leave a thread's picture in order.\<close>

definition same_kind :: "(fiber_ptr \<Rightarrow> fiber option) \<Rightarrow> (fiber_ptr \<Rightarrow> fiber option) \<Rightarrow> bool" where
  "same_kind F F' \<longleftrightarrow> (\<forall>p fb. F p = Some fb \<longrightarrow>
     (\<exists>fb'. F' p = Some fb' \<and> m_runInScheduler fb' = m_runInScheduler fb))"

lemma same_kindD: "same_kind F F' \<Longrightarrow> F p = Some fb \<Longrightarrow>
  \<exists>fb'. F' p = Some fb' \<and> m_runInScheduler fb' = m_runInScheduler fb"
  by (simp add: same_kind_def)

lemma same_kind_alive: "same_kind F F' \<Longrightarrow> F p \<noteq> None \<Longrightarrow> F' p \<noteq> None"
  by (auto dest: same_kindD)

lemma same_kind_runs: "same_kind F F' \<Longrightarrow> runs_in_scheduler F p \<Longrightarrow> runs_in_scheduler F' p"
  by (auto simp: runs_in_scheduler_def dest: same_kindD)

lemma thread_ctl_cong:
  assumes "thread_ctl F t" and "same_kind F F'"
    and "\<And>s g g'. ft_sched t = Some s \<Longrightarrow> F s = Some g \<Longrightarrow> F' s = Some g' \<Longrightarrow> m_ctx g' = m_ctx g"
  shows "thread_ctl F' t"
proof -
  obtain m s g where h: "ft_main t = Some m" "ft_sched t = Some s" "F m \<noteq> None" "F s = Some g"
      "m_runInScheduler g \<noteq> Some True"
    and c: "case exec t of None \<Rightarrow> ft_fiber t = Some s \<and> ft_cur t = home m s
        | Some p \<Rightarrow> ft_fiber t = Some p \<and> ft_cur t = On_stack p \<and> m_ctx g = Saved (home m s)
            \<and> runs_in_scheduler F p"
    using assms(1) unfolding thread_ctl_def by blast
  obtain g' where g': "F' s = Some g'" "m_runInScheduler g' = m_runInScheduler g"
    using same_kindD [OF assms(2) h(4)] by blast
  show ?thesis
    using h c g' assms(3) [OF h(2,4) g'(1)] same_kind_alive [OF assms(2) h(3)]
      same_kind_runs [OF assms(2)]
    unfolding thread_ctl_def by (intro exI [of _ m] exI [of _ s] exI [of _ g']) (auto split: option.splits)
qed

lemma thread_ctl_elsewhere:
  assumes "space_ctl n W" and "j < n" and "same_kind (fs_fibers W) F"
    and "\<And>q. ft_sched (fs_threads W j) = Some q \<Longrightarrow> F q = fs_fibers W q"
  shows "thread_ctl F (fs_threads W j)"
  by (rule thread_ctl_cong [OF space_ctlD(1) [OF assms(1,2)] assms(3)]) (use assms(4) in force)

lemma sched_not_task:
  assumes "space_ctl n W" and "j < n" and "runs_in_scheduler (fs_fibers W) p"
  shows "ft_sched (fs_threads W j) \<noteq> Some p"
  using space_ctlD(1) [OF assms(1,2)] assms(3) by (auto simp: thread_ctl_def runs_in_scheduler_def)

section \<open>Switching on a thread of many\<close>

text \<open>The state after thread \<open>i\<close> has entered fiber \<open>p\<close> from its scheduler fiber \<open>s\<close>, and left it again.\<close>

definition entered ::
  "nat \<Rightarrow> phase \<Rightarrow> fiber_ptr \<Rightarrow> fiber_ptr \<Rightarrow> fiber \<Rightarrow> fiber \<Rightarrow> 'z fiber_space_scheme \<Rightarrow> 'z fiber_space_scheme"
where
  "entered i ph s p g fb W = W\<lparr>
     fs_fibers := (fs_fibers W)(p \<mapsto> fb\<lparr>fiber_st := RUNNING\<rparr>,
       s \<mapsto> g\<lparr>m_ctx := Saved (ft_cur (fs_threads W i))\<rparr>),
     fs_threads := (fs_threads W)(i := (fs_threads W i)\<lparr>ft_fiber := Some p, ft_cur := On_stack p,
       ft_phase := ph\<rparr>)\<rparr>"

definition left_fiber ::
  "nat \<Rightarrow> phase \<Rightarrow> fiber_ptr \<Rightarrow> flow \<Rightarrow> fiber_ptr \<Rightarrow> fiber \<Rightarrow> 'z fiber_space_scheme \<Rightarrow> 'z fiber_space_scheme"
where
  "left_fiber i ph s fl p fb W = W\<lparr>fs_fibers := (fs_fibers W)(p \<mapsto> fb\<lparr>m_ctx := Saved (On_stack p)\<rparr>),
     fs_threads := (fs_threads W)(i := (fs_threads W i)\<lparr>ft_fiber := Some s, ft_cur := fl,
       ft_phase := ph\<rparr>)\<rparr>"

lemma entered_sel [simp]:
  "fs_fibers (entered i ph s p g fb W) = (fs_fibers W)(p \<mapsto> fb\<lparr>fiber_st := RUNNING\<rparr>,
       s \<mapsto> g\<lparr>m_ctx := Saved (ft_cur (fs_threads W i))\<rparr>)"
  "fs_fresh (entered i ph s p g fb W) = fs_fresh W"
  "fs_threads (entered i ph s p g fb W) = (fs_threads W)(i := (fs_threads W i)\<lparr>ft_fiber := Some p,
       ft_cur := On_stack p, ft_phase := ph\<rparr>)"
  by (simp_all add: entered_def)

lemma left_fiber_sel [simp]:
  "fs_fibers (left_fiber i ph s fl p fb W) = (fs_fibers W)(p \<mapsto> fb\<lparr>m_ctx := Saved (On_stack p)\<rparr>)"
  "fs_fresh (left_fiber i ph s fl p fb W) = fs_fresh W"
  "fs_threads (left_fiber i ph s fl p fb W) = (fs_threads W)(i := (fs_threads W i)\<lparr>ft_fiber := Some s,
       ft_cur := fl, ft_phase := ph\<rparr>)"
  by (simp_all add: left_fiber_def)

lemma exec_phase [simp]:
  "exec (t\<lparr>ft_fiber := a\<rparr>) = exec t" "exec (t\<lparr>ft_cur := c\<rparr>) = exec t"
  "exec (t\<lparr>ft_main := a\<rparr>) = exec t" "exec (t\<lparr>ft_sched := a\<rparr>) = exec t"
  "exec (t\<lparr>ft_fiber := a, ft_cur := c, ft_phase := ph\<rparr>) = exec (t\<lparr>ft_phase := ph\<rparr>)"
  by (simp_all add: exec_def split: phase.splits)

lemma fiber_ctl_frame:
  assumes "fiber_ctl n W q fb" and "fs_fresh W' = fs_fresh W"
    and "\<And>j. exec (fs_threads W' j) = (if j = i then e else exec (fs_threads W j))"
    and "e \<noteq> Some q" and "exec (fs_threads W i) \<noteq> Some q"
  shows "fiber_ctl n W' q fb"
proof -
  have "exec (fs_threads W' j) = Some q \<longleftrightarrow> exec (fs_threads W j) = Some q" for j
    using assms(3-5) by (cases "j = i") simp_all
  with assms(1,2) show ?thesis by (simp add: fiber_ctl_def)
qed

lemma space_ctl_frame:
  assumes "space_ctl n W" and "\<And>j. ft_sched (fs_threads W' j) = ft_sched (fs_threads W j)"
    and "\<And>j. exec (fs_threads W' j) = (if j = i then e else exec (fs_threads W j))"
    and "\<And>j p. j < n \<Longrightarrow> e = Some p \<Longrightarrow> exec (fs_threads W j) \<noteq> Some p"
    and "\<And>j. j < n \<Longrightarrow> thread_ctl (fs_fibers W') (fs_threads W' j)"
    and "\<And>p fb. fs_fibers W' p = Some fb \<Longrightarrow> fiber_ctl n W' p fb"
  shows "space_ctl n W'"
proof -
  have "j = k" if "j < n" "k < n" "exec (fs_threads W' j) = Some p" "exec (fs_threads W' k) = Some p" for j k p
    using that assms(3,4) space_ctlD(3) [OF assms(1) that(1,2)] by (metis (no_types))
  moreover have "j = k" if "j < n" "k < n" "ft_sched (fs_threads W' j) = ft_sched (fs_threads W' k)" for j k
    using that assms(2) space_ctlD(2) [OF assms(1) that(1,2)] by simp
  ultimately show ?thesis
    using assms(5,6) unfolding space_ctl_def by blast
qed

text \<open>A thread that is with its scheduler resumes a \<open>READY\<close> fiber of the scheduler.\<close>

lemma enter_fiber:
  assumes "space_ctl n W" and "i < n" and "exec (fs_threads W i) = None"
    and "fs_fibers W p = Some fb" and "m_runInScheduler fb = Some True" and "fiber_st fb = READY"
  obtains s g where "ft_sched (fs_threads W i) = Some s" "fs_fibers W s = Some g" "s \<noteq> p"
    "m_runInScheduler g \<noteq> Some True"
    "\<And>ph. switch i (resume p) ph W = Inr (entered i ph s p g fb W)"
proof -
  let ?t = "fs_threads W i"
  obtain m s g where h: "ft_main ?t = Some m" "ft_sched ?t = Some s" "fs_fibers W s = Some g"
      "m_runInScheduler g \<noteq> Some True" "ft_cur ?t = home m s"
    using space_ctlD(1) [OF assms(1,2)] assms(3) by (rule thread_ctl_restE)
  have sp: "s \<noteq> p" using h(3,4) assms(4,5) by auto
  have "m_ctx fb = Fresh \<or> m_ctx fb = Saved (On_stack p)"
    using space_ctlD(4) [OF assms(1,4)] assms(5,6) by (simp add: fiber_ctl_def)
  then have c: "continue_in p (m_ctx fb) = On_stack p" by (auto simp: continue_in_def)
  have "resume p (view i W) = Inr ((view i W)\<lparr>t_fiber := Some p,
      fibers := (fs_fibers W)(p \<mapsto> fb\<lparr>fiber_st := RUNNING\<rparr>, s \<mapsto> g\<lparr>m_ctx := Saved (ft_cur ?t)\<rparr>),
      cur := On_stack p\<rparr>)"
    using resume_eq [of "view i W" p fb True s g] assms(4-6) h(2,3) sp c by simp
  then have "switch i (resume p) ph W = Inr (entered i ph s p g fb W)" for ph
    by (simp add: switch_def on_thread_def put_view_def set_phase_def entered_def view_def)
  with h sp that show ?thesis by blast
qed

lemma resume_pointers:
  "resume p w = Inr w' \<Longrightarrow> t_thread_fiber w' = t_thread_fiber w \<and> t_scheduler_fiber w' = t_scheduler_fiber w"
  by (auto simp: resume_def swapcontext_def Let_def res_simps)

lemma space_ctl_entered:
  assumes "space_ctl n W" and "i < n" and "exec (fs_threads W i) = None"
    and "fs_fibers W p = Some fb" and "m_runInScheduler fb = Some True" and "fiber_st fb = READY"
    and "ft_sched (fs_threads W i) = Some s" and "fs_fibers W s = Some g" and "s \<noteq> p"
    and "exec ((fs_threads W i)\<lparr>ft_phase := ph\<rparr>) = Some p"
  shows "space_ctl n (entered i ph s p g fb W)" and "same_kind (fs_fibers W) (fs_fibers (entered i ph s p g fb W))"
proof -
  let ?W = "entered i ph s p g fb W" and ?t = "fs_threads W i"
  let ?t' = "?t\<lparr>ft_fiber := Some p, ft_cur := On_stack p, ft_phase := ph\<rparr>"
  have ex: "exec (fs_threads ?W j) = (if j = i then Some p else exec (fs_threads W j))" for j
    using assms(10) by simp
  obtain m where h: "ft_main ?t = Some m" "fs_fibers W m \<noteq> None" "ft_cur ?t = home m s"
      "m_runInScheduler g \<noteq> Some True"
    using space_ctlD(1) [OF assms(1,2)] assms(3) by (rule thread_ctl_restE) (use assms(7,8) in auto)
  show kind: "same_kind (fs_fibers W) (fs_fibers ?W)"
    using assms(4,8) by (auto simp: same_kind_def)
  have free: "exec (fs_threads W j) \<noteq> Some p" if "j < n" for j
    using space_ctlD(4) [OF assms(1,4)] assms(5,6) that by (auto simp: fiber_ctl_def)
  have "thread_ctl (fs_fibers ?W) (fs_threads ?W j)" if j: "j < n" for j
  proof (cases "j = i")
    case True
    then show ?thesis
      using h assms(4,5,7-9) ex [of i] by (auto simp: thread_ctl_def runs_in_scheduler_def)
  next
    case False
    have "ft_sched (fs_threads W j) \<noteq> Some s"
      using space_ctlD(2) [OF assms(1) j assms(2)] assms(7) False by auto
    moreover have "ft_sched (fs_threads W j) \<noteq> Some p"
      using sched_not_task [OF assms(1) j] assms(4,5) by (auto simp: runs_in_scheduler_def)
    ultimately have "thread_ctl (fs_fibers ?W) (fs_threads W j)"
      by (intro thread_ctl_elsewhere [OF assms(1) j kind]) auto
    then show ?thesis using False by simp
  qed
  moreover have "fiber_ctl n ?W q gb" if "fs_fibers ?W q = Some gb" for q gb
  proof -
    have old: "fiber_ctl n W q gb'" if "fs_fibers W q = Some gb'" for gb'
      using space_ctlD(4) [OF assms(1) that] .
    consider "q = s" | "q = p" | "q \<noteq> s" "q \<noteq> p" by blast
    then show ?thesis
    proof cases
      case 1 then show ?thesis
        using that old [of g] assms(8) h(4) by (auto simp: fiber_ctl_def)
    next
      case 2 then show ?thesis
        using that old [of fb] assms(2,4,9) ex by (auto simp: fiber_ctl_def)
    next
      case 3
      then have "fs_fibers W q = Some gb" using that by simp
      then show ?thesis
        by (rule fiber_ctl_frame [OF old _ ex]) (use 3(2) assms(3) in simp_all)
    qed
  qed
  ultimately show "space_ctl n ?W"
  proof (intro space_ctl_frame [OF assms(1) _ ex])
    show "exec (fs_threads W j) \<noteq> Some r" if "j < n" "Some p = Some r" for j r
      using free [OF that(1)] that(2) by simp
  qed simp_all
qed

text \<open>
  The fiber a thread executes yields, or its function ends: control returns to the scheduler of
  that thread, whichever thread the fiber ran on before.
\<close>

definition yielded :: "fiber \<Rightarrow> fiber" where "yielded fb = fb\<lparr>fiber_st := READY\<rparr>"

definition finished :: "fiber \<Rightarrow> fiber" where
  "finished fb = fb\<lparr>fiber_cb := None, fiber_st := TERMINATED\<rparr>"

lemma finished_sel [simp]:
  "m_runInScheduler (finished fb) = m_runInScheduler fb" "fiber_st (finished fb) = TERMINATED"
  "m_runInScheduler (yielded fb) = m_runInScheduler fb" "fiber_st (yielded fb) = READY"
  by (simp_all add: finished_def yielded_def)

lemma leave_fiber:
  assumes "space_ctl n W" and "i < n" and "exec (fs_threads W i) = Some p"
  obtains m s fb where "ft_main (fs_threads W i) = Some m" "ft_sched (fs_threads W i) = Some s"
    "fs_fibers W p = Some fb" "m_runInScheduler fb = Some True" "fiber_st fb = RUNNING" "s \<noteq> p"
    "\<And>ph. switch i (fiber_yield p) ph W
       = Inr (left_fiber i ph s (home m s) p (yielded fb) W)"
    "\<And>ph. switch i (MainFunc_leave p) ph W
       = Inr (left_fiber i ph s (home m s) p (finished fb) W)"
proof -
  let ?t = "fs_threads W i" and ?v = "view i W"
  obtain m s g fb where h: "ft_main ?t = Some m" "ft_sched ?t = Some s" "fs_fibers W s = Some g"
      "ft_cur ?t = On_stack p" "m_ctx g = Saved (home m s)" "fs_fibers W p = Some fb"
      "m_runInScheduler fb = Some True" "s \<noteq> p"
    using space_ctlD(1) [OF assms(1,2)] assms(3) by (rule thread_ctl_execE) blast
  have st: "fiber_st fb = RUNNING"
    using space_ctlD(4) [OF assms(1) h(6)] assms(2,3) h(7) by (auto simp: fiber_ctl_def)
  have y: "fiber_yield p v = Inr (v\<lparr>t_fiber := Some s, fibers := (fibers v)(p \<mapsto>
        (if fiber_st b = TERMINATED then b else yielded b)\<lparr>m_ctx := Saved (On_stack p)\<rparr>), cur := home m s\<rparr>)"
    if "fibers v p = Some b" "fiber_st b \<noteq> READY" "m_runInScheduler b = Some True"
      "t_scheduler_fiber v = Some s" "fibers v s = Some g" "cur v = On_stack p" for v b
    using yield_eq [of v p b True s g] that h(5,8) by (simp add: continue_in_def yielded_def)
  have "fiber_yield p ?v = Inr (?v\<lparr>t_fiber := Some s,
      fibers := (fs_fibers W)(p \<mapsto> (yielded fb)\<lparr>m_ctx := Saved (On_stack p)\<rparr>), cur := home m s\<rparr>)"
    using y [of ?v fb] h st by simp
  then have 1: "switch i (fiber_yield p) ph W
      = Inr (left_fiber i ph s (home m s) p (yielded fb) W)" for ph
    by (simp add: switch_def on_thread_def put_view_def set_phase_def left_fiber_def view_def)
  have "MainFunc_leave p ?v = Inr (?v\<lparr>t_fiber := Some s,
      fibers := (fs_fibers W)(p \<mapsto> (finished fb)\<lparr>m_ctx := Saved (On_stack p)\<rparr>), cur := home m s\<rparr>)"
    using y [of "upd_fiber p finished ?v" "finished fb"] h
    by (simp add: MainFunc_leave_def finished_def upd_fiber_def)
  then have 2: "switch i (MainFunc_leave p) ph W
      = Inr (left_fiber i ph s (home m s) p (finished fb) W)" for ph
    by (simp add: switch_def on_thread_def put_view_def set_phase_def left_fiber_def view_def)
  from that [OF h(1,2,6,7) st h(8) 1 2] show ?thesis .
qed

lemma space_ctl_left:
  assumes "space_ctl n W" and "i < n" and "exec (fs_threads W i) = Some p"
    and "ft_main (fs_threads W i) = Some m" and "ft_sched (fs_threads W i) = Some s"
    and "fs_fibers W p = Some fb" and "m_runInScheduler fb' = m_runInScheduler fb"
    and "fiber_st fb' \<noteq> RUNNING" and "exec ((fs_threads W i)\<lparr>ft_phase := ph\<rparr>) = None"
  shows "space_ctl n (left_fiber i ph s (home m s) p fb' W)"
    and "same_kind (fs_fibers W) (fs_fibers (left_fiber i ph s (home m s) p fb' W))"
proof -
  let ?W = "left_fiber i ph s (home m s) p fb' W" and ?t = "fs_threads W i"
  have ex: "exec (fs_threads ?W j) = (if j = i then None else exec (fs_threads W j))" for j
    using assms(9) by simp
  obtain g where h: "fs_fibers W m \<noteq> None" "fs_fibers W s = Some g" "m_runInScheduler fb = Some True"
      "m_runInScheduler g \<noteq> Some True" "s \<noteq> p"
    using space_ctlD(1) [OF assms(1,2)] assms(3) by (rule thread_ctl_execE) (use assms(4-6) in auto)
  show kind: "same_kind (fs_fibers W) (fs_fibers ?W)"
    using assms(6,7) by (auto simp: same_kind_def)
  have free: "exec (fs_threads W j) \<noteq> Some p" if "j < n" "j \<noteq> i" for j
    using space_ctlD(3) [OF assms(1) that(1) assms(2) _ assms(3)] that(2) by blast
  have "thread_ctl (fs_fibers ?W) (fs_threads ?W j)" if j: "j < n" for j
  proof (cases "j = i")
    case True
    then show ?thesis
      using h assms(4,5) ex [of i] by (auto simp: thread_ctl_def)
  next
    case False
    have "thread_ctl (fs_fibers ?W) (fs_threads W j)"
      using sched_not_task [OF assms(1) j] assms(6) h(3)
      by (intro thread_ctl_elsewhere [OF assms(1) j kind]) (auto simp: runs_in_scheduler_def)
    then show ?thesis using False by simp
  qed
  moreover have "fiber_ctl n ?W q gb" if "fs_fibers ?W q = Some gb" for q gb
  proof (cases "q = p")
    case True
    then show ?thesis
      using that space_ctlD(4) [OF assms(1,6)] free ex assms(7,8) by (auto simp: fiber_ctl_def)
  next
    case False
    then have "fs_fibers W q = Some gb" using that by simp
    then show ?thesis
      by (rule fiber_ctl_frame [OF space_ctlD(4) [OF assms(1)] _ ex]) (use False assms(3) in simp_all)
  qed
  ultimately show "space_ctl n ?W"
    by (intro space_ctl_frame [OF assms(1) _ ex]) simp_all
qed

section \<open>Other changes\<close>

text \<open>A thread makes a fiber.\<close>

definition create_fiber ::
  "nat \<Rightarrow> closure option \<Rightarrow> u64 \<Rightarrow> bool \<Rightarrow> 'z fiber_space_scheme \<Rightarrow> 'z fiber_space_scheme"
where
  "create_fiber i cb ss b W = put_view i (snd (new_fiber cb ss b (view i W))) W"

lemma create_fiber_sel [simp]:
  "fs_fibers (create_fiber i cb ss b W) = (fs_fibers W)(fs_fresh W \<mapsto> child_fiber cb ss b (view i W))"
  "fs_fresh (create_fiber i cb ss b W) = Suc (fs_fresh W)"
  "fs_threads (create_fiber i cb ss b W) = fs_threads W"
  by (simp_all add: create_fiber_def new_fiber_def Let_def)

lemma space_ctl_unused:
  assumes "space_ctl n W" and "fs_fresh W \<le> p"
  shows "fs_fibers W p = None" and "i < n \<Longrightarrow> exec (fs_threads W i) \<noteq> Some p"
    and "i < n \<Longrightarrow> ft_sched (fs_threads W i) \<noteq> Some p"
proof -
  show none: "fs_fibers W p = None"
  proof (cases "fs_fibers W p")
    case (Some fb)
    from space_ctlD(4) [OF assms(1) this] assms(2) show ?thesis by (simp add: fiber_ctl_def)
  qed simp
  then show "i < n \<Longrightarrow> exec (fs_threads W i) \<noteq> Some p" and "i < n \<Longrightarrow> ft_sched (fs_threads W i) \<noteq> Some p"
    using space_ctlD(1) [OF assms(1), of i] by (auto simp: thread_ctl_def runs_in_scheduler_def)
qed

lemma space_ctl_create:
  assumes "space_ctl n W"
  shows "space_ctl n (create_fiber i cb ss b W)"
    and "same_kind (fs_fibers W) (fs_fibers (create_fiber i cb ss b W))"
proof -
  let ?p = "fs_fresh W"
  note new = space_ctl_unused [OF assms order.refl]
  show kind: "same_kind (fs_fibers W) (fs_fibers (create_fiber i cb ss b W))"
    using new(1) by (auto simp: same_kind_def)
  have "thread_ctl (fs_fibers (create_fiber i cb ss b W)) (fs_threads W j)" if "j < n" for j
    using new(3) [OF that] by (intro thread_ctl_elsewhere [OF assms that kind]) auto
  moreover have "fiber_ctl n (create_fiber i cb ss b W) q gb"
    if "fs_fibers (create_fiber i cb ss b W) q = Some gb" for q gb
  proof (cases "q = ?p")
    case True
    then show ?thesis using that new(2) by (auto simp: fiber_ctl_def child_fiber_def)
  next
    case False
    then show ?thesis using that space_ctlD(4) [OF assms, of q gb] by (simp add: fiber_ctl_def)
  qed
  ultimately show "space_ctl n (create_fiber i cb ss b W)"
    using space_ctlD(2,3) [OF assms] unfolding space_ctl_def by simp
qed

text \<open>The last reference to a fiber goes away, which none of the threads points to.\<close>

definition drop_fiber :: "fiber_ptr \<Rightarrow> 'z fiber_space_scheme \<Rightarrow> 'z fiber_space_scheme" where
  "drop_fiber p W = W\<lparr>fs_fibers := (fs_fibers W)(p := None), fs_count := fs_count W - 1\<rparr>"

lemma drop_fiber_sel [simp]:
  "fs_fibers (drop_fiber p W) = (fs_fibers W)(p := None)" "fs_fresh (drop_fiber p W) = fs_fresh W"
  "fs_threads (drop_fiber p W) = fs_threads W"
  by (simp_all add: drop_fiber_def)

lemma drop_fiber_delete: "view i (drop_fiber p W) = delete_fiber p (view i W)"
  by (simp add: view_def drop_fiber_def delete_fiber_def)

definition pointed_to :: "nat \<Rightarrow> 'z fiber_space_scheme \<Rightarrow> fiber_ptr \<Rightarrow> bool" where
  "pointed_to n W p \<longleftrightarrow> (\<exists>i<n. Some p \<in> {ft_fiber (fs_threads W i), ft_main (fs_threads W i),
     ft_sched (fs_threads W i), Some (ft_idle (fs_threads W i))})"

lemma space_ctl_drop:
  assumes "space_ctl n W" and "\<not> pointed_to n W p"
  shows "space_ctl n (drop_fiber p W)"
proof -
  have "thread_ctl ((fs_fibers W)(p := None)) (fs_threads W j)" if j: "j < n" for j
  proof -
    have "Some p \<notin> {ft_fiber (fs_threads W j), ft_main (fs_threads W j), ft_sched (fs_threads W j)}"
      using assms(2) j unfolding pointed_to_def by blast
    then have "thread_ctl F (fs_threads W j) \<Longrightarrow> thread_ctl (F(p := None)) (fs_threads W j)" for F
      unfolding thread_ctl_def
      apply (elim exE)
      subgoal for m s g
        by (intro exI [of _ m] exI [of _ s] exI [of _ g], cases "exec (fs_threads W j)")
          (auto simp: runs_in_scheduler_def)
      done
    then show ?thesis using space_ctlD(1) [OF assms(1) j] .
  qed
  then show ?thesis
    using assms(1) by (simp add: space_ctl_def fiber_ctl_def)
qed

text \<open>A thread goes from one place to another without executing another fiber.\<close>

lemma space_ctl_phase:
  assumes "space_ctl n W" and "exec ((fs_threads W i)\<lparr>ft_phase := ph\<rparr>) = exec (fs_threads W i)"
  shows "space_ctl n (set_phase i ph W)"
proof -
  have ex: "exec (fs_threads (set_phase i ph W) j) = exec (fs_threads W j)" for j
    using assms(2) by simp
  have "thread_ctl (fs_fibers W) (fs_threads (set_phase i ph W) j)" if "j < n" for j
    using space_ctlD(1) [OF assms(1) that] assms(2)
    by (cases "exec (fs_threads W i)") (auto simp: thread_ctl_def)
  moreover have "fiber_ctl n (set_phase i ph W) p fb \<longleftrightarrow> fiber_ctl n W p fb" for p fb
    unfolding fiber_ctl_def ex by simp
  moreover have "ft_sched (fs_threads (set_phase i ph W) j) = ft_sched (fs_threads W j)" for j by simp
  ultimately show ?thesis
    using assms(1) unfolding space_ctl_def ex by (simp del: set_phase_sel(5))
qed

section \<open>Threads that start\<close>

text \<open>
  A thread that has not used fibers yet, and what it becomes when it calls \<open>GetThis\<close> and makes its
  idle fiber.
\<close>

definition blank :: "fthread \<Rightarrow> bool" where
  "blank t \<longleftrightarrow> ft_fiber t = None \<and> ft_cur t = On_thread \<and> ft_phase t = Outside"

definition join_thread :: "nat \<Rightarrow> 'z fiber_space_scheme \<Rightarrow> 'z fiber_space_scheme res" where
  "join_thread i = on_thread i (\<lambda>w. bind_res (GetThis w) (\<lambda>(_, w'). Inr w'))"

definition make_idle :: "nat \<Rightarrow> closure \<Rightarrow> 'z fiber_space_scheme \<Rightarrow> 'z fiber_space_scheme" where
  "make_idle i cb W =
     (let W1 = create_fiber i (Some cb) 0 True W
      in W1\<lparr>fs_threads := (fs_threads W1)(i := (fs_threads W1 i)\<lparr>ft_idle := fs_fresh W\<rparr>)\<rparr>)"

fun start_threads :: "closure \<Rightarrow> nat \<Rightarrow> 'z fiber_space_scheme \<Rightarrow> 'z fiber_space_scheme res" where
  "start_threads cb 0 W = Inr W"
| "start_threads cb (Suc n) W =
     bind_res (start_threads cb n W) (\<lambda>W1. bind_res (join_thread n W1) (\<lambda>W2. Inr (make_idle n cb W2)))"

text \<open>The first \<open>n\<close> threads have started.\<close>

definition started :: "nat \<Rightarrow> 'z fiber_space_scheme \<Rightarrow> bool" where
  "started n W \<longleftrightarrow> space_ctl n W \<and> (\<forall>i\<ge>n. blank (fs_threads W i))
     \<and> (\<forall>i<n. ft_phase (fs_threads W i) = Outside \<and> (\<exists>fb. fs_fibers W (ft_idle (fs_threads W i)) = Some fb
          \<and> fiber_st fb = READY \<and> m_runInScheduler fb = Some True))
     \<and> (\<forall>i<n. \<forall>j<n. ft_idle (fs_threads W i) = ft_idle (fs_threads W j) \<longrightarrow> i = j)"

lemma join_thread_eq:
  assumes "blank (fs_threads W i)"
  shows "\<exists>g W'. join_thread i W = Inr W' \<and> m_runInScheduler g = None
    \<and> fs_fibers W' = (fs_fibers W)(fs_fresh W \<mapsto> g) \<and> fs_fresh W' = Suc (fs_fresh W)
    \<and> fs_threads W' = (fs_threads W)(i := (fs_threads W i)\<lparr>ft_fiber := Some (fs_fresh W),
        ft_main := Some (fs_fresh W), ft_sched := Some (fs_fresh W)\<rparr>)
    \<and> fiber_space.more W' = fiber_space.more W"
  using assms
  by (intro exI [of _ "main_fiber (SetThis (Some (fs_fresh W)) (view i W))"], cases "fs_threads W i")
    (simp add: blank_def join_thread_def on_thread_def GetThis_def new_main_fiber_def Let_def main_fiber_def
      put_view_def SetThis_def)

lemma space_ctl_join:
  assumes "space_ctl n W" and "blank (fs_threads W n)" and "m_runInScheduler g = None"
    and "fs_fibers W' = (fs_fibers W)(fs_fresh W \<mapsto> g)" and "fs_fresh W' = Suc (fs_fresh W)"
    and "fs_threads W' = (fs_threads W)(n := (fs_threads W n)\<lparr>ft_fiber := Some (fs_fresh W),
           ft_main := Some (fs_fresh W), ft_sched := Some (fs_fresh W)\<rparr>)"
  shows "space_ctl (Suc n) W'"
proof -
  let ?p = "fs_fresh W"
  note new = space_ctl_unused [OF assms(1) order.refl]
  have kind: "same_kind (fs_fibers W) (fs_fibers W')"
    using new(1) assms(4) by (auto simp: same_kind_def)
  have ex: "exec (fs_threads W' i) = (if i = n then None else exec (fs_threads W i))" for i
    using assms(2,6) by (simp add: exec_def blank_def)
  have "thread_ctl (fs_fibers W') (fs_threads W' i)" if i: "i < Suc n" for i
  proof (cases "i = n")
    case True
    then show ?thesis
      using ex [of n] assms(2-4,6) by (simp add: thread_ctl_def blank_def home_def)
  next
    case False
    then have "i < n" using i by simp
    then have "thread_ctl (fs_fibers W') (fs_threads W i)"
      using new(3) by (intro thread_ctl_elsewhere [OF assms(1) _ kind]) (auto simp: assms(4))
    then show ?thesis using False assms(6) by simp
  qed
  moreover have "i = j" if "i < Suc n" "j < Suc n" "ft_sched (fs_threads W' i) = ft_sched (fs_threads W' j)" for i j
    using that new(3) space_ctlD(2) [OF assms(1), of i j] assms(6) by (auto simp: less_Suc_eq split: if_splits)
  moreover have "fiber_ctl (Suc n) W' q fb" if "fs_fibers W' q = Some fb" for q fb
  proof (cases "q = ?p")
    case True
    then show ?thesis using that assms(3-5) by (auto simp: fiber_ctl_def)
  next
    case False
    have "(\<exists>i<Suc n. exec (fs_threads W' i) = Some q) \<longleftrightarrow> (\<exists>i<n. exec (fs_threads W i) = Some q)"
      unfolding ex by (auto simp: less_Suc_eq)
    then show ?thesis
      using False that assms(4,5) space_ctlD(4) [OF assms(1), of q fb] by (simp add: fiber_ctl_def)
  qed
  moreover have "i = j" if "i < Suc n" "j < Suc n" "exec (fs_threads W' i) = Some q"
    "exec (fs_threads W' j) = Some q" for i j q
    using that space_ctlD(3) [OF assms(1), of i j q] unfolding ex by (auto simp: less_Suc_eq split: if_splits)
  ultimately show ?thesis unfolding space_ctl_def by blast
qed

lemma make_idle_sel [simp]:
  "fs_fibers (make_idle i cb W) = (fs_fibers W)(fs_fresh W \<mapsto> child_fiber (Some cb) 0 True (view i W))"
  "fs_fresh (make_idle i cb W) = Suc (fs_fresh W)"
  "fs_threads (make_idle i cb W) = (fs_threads W)(i := (fs_threads W i)\<lparr>ft_idle := fs_fresh W\<rparr>)"
  "fiber_space.more (make_idle i cb W) = fiber_space.more W"
  by (simp_all add: make_idle_def Let_def create_fiber_def put_view_def new_fiber_def)

lemma space_ctl_make_idle:
  assumes "space_ctl n W" and "ft_phase (fs_threads W i) = Outside"
  shows "space_ctl n (make_idle i cb W)"
proof -
  let ?W = "create_fiber i (Some cb) 0 True W" and ?W' = "make_idle i cb W"
  have c: "space_ctl n ?W" by (rule space_ctl_create [OF assms(1)])
  have ex: "exec (fs_threads ?W' j) = (if j = i then None else exec (fs_threads ?W j))" for j
    using assms(2) by (simp add: exec_def)
  have t: "thread_ctl (fs_fibers ?W') (fs_threads ?W' j) = thread_ctl (fs_fibers ?W) (fs_threads ?W j)" for j
    using assms(2) by (cases "j = i") (auto simp: thread_ctl_def exec_def)
  show ?thesis
  proof (rule space_ctl_frame [OF c _ ex])
    show "thread_ctl (fs_fibers ?W') (fs_threads ?W' j)" if "j < n" for j
      unfolding t by (rule space_ctlD(1) [OF c that])
    show "fiber_ctl n ?W' p fb" if "fs_fibers ?W' p = Some fb" for p fb
    proof (rule fiber_ctl_frame [OF space_ctlD(4) [OF c] _ ex])
      show "fs_fibers ?W p = Some fb" using that by simp
      show "exec (fs_threads ?W i) \<noteq> Some p" using assms(2) by (simp add: exec_def)
    qed simp_all
  qed simp_all
qed

lemma start_threads_ok:
  assumes "fs_fibers W = (\<lambda>_. None)" and "\<forall>i. blank (fs_threads W i)"
  shows "\<exists>W'. start_threads cb n W = Inr W' \<and> started n W' \<and> fiber_space.more W' = fiber_space.more W"
proof (induction n)
  case 0
  then show ?case using assms by (simp add: started_def space_ctl_def)
next
  case (Suc n)
  then obtain W1 where W1: "start_threads cb n W = Inr W1" "started n W1" "fiber_space.more W1 = fiber_space.more W"
    by blast
  then have s: "space_ctl n W1" and b: "blank (fs_threads W1 i)" if "n \<le> i" for i
    using that by (auto simp: started_def)
  obtain g W2 where W2: "join_thread n W1 = Inr W2" "m_runInScheduler g = None"
      "fs_fibers W2 = (fs_fibers W1)(fs_fresh W1 \<mapsto> g)" "fs_fresh W2 = Suc (fs_fresh W1)"
      "fs_threads W2 = (fs_threads W1)(n := (fs_threads W1 n)\<lparr>ft_fiber := Some (fs_fresh W1),
           ft_main := Some (fs_fresh W1), ft_sched := Some (fs_fresh W1)\<rparr>)"
      "fiber_space.more W2 = fiber_space.more W1"
    using join_thread_eq [OF b [OF order.refl]] by blast
  have c: "space_ctl (Suc n) (make_idle n cb W2)"
    using b [of n] W2(5) by (intro space_ctl_make_idle space_ctl_join [OF s [OF order.refl] _ W2(2-5)])
      (simp_all add: blank_def)
  have old: "ft_idle (fs_threads W1 i) < fs_fresh W1" if "i < n" for i
    using W1(2) space_ctlD(4) [OF s [OF order.refl]] that by (fastforce simp: started_def fiber_ctl_def)
  then have "ft_idle (fs_threads W1 i) \<noteq> fs_fresh W1" "ft_idle (fs_threads W1 i) \<noteq> Suc (fs_fresh W1)"
      "Suc (fs_fresh W1) \<noteq> ft_idle (fs_threads W1 i)" if "i < n" for i
    using that by fastforce+
  then have "started (Suc n) (make_idle n cb W2)"
    using c W1(2) W2(3-5) b unfolding started_def
    by (auto simp: less_Suc_eq child_fiber_def blank_def)
  then show ?case using W1(1,3) W2(1,6) by simp
qed

end
