(* ===== verification/Fiber_Pool.thy ===== *)
theory Fiber_Pool
  imports Worker_Pool Shared_Fibers
begin

text \<open>
  The pool of workers together with the fibers they run, and \<open>Fiber::m_mtx\<close>: a worker takes the
  mutex of a task's fiber before it looks at the fiber's state and resumes it, and keeps it until
  the fiber gives control back. A fiber that yielded on one worker may be continued by another.
  Each step is one access to shared state, or one switch.
\<close>

section \<open>State and operations\<close>

record fiber_pool = fiber_space +
  fp_pool :: pool
  fp_locks :: "fiber_ptr \<Rightarrow> nat option"   \<comment> \<open>the worker that holds a fiber's \<open>m_mtx\<close>\<close>

abbreviation workers :: "fiber_pool \<Rightarrow> worker list" where
  "workers W \<equiv> p_workers (fp_pool W)"

text \<open>\<open>scheduleLock\<close>, and the scan of the queue.\<close>

definition fp_schedule :: "schedule_task \<Rightarrow> fiber_pool \<Rightarrow> fiber_pool res" where
  "fp_schedule t W = bind_res (pool_schedule t (fp_pool W)) (\<lambda>p. Inr (W\<lparr>fp_pool := p\<rparr>))"

definition fp_fetch :: "nat \<Rightarrow> fiber_pool \<Rightarrow> fiber_pool res" where
  "fp_fetch i W = bind_res (pool_fetch i (fp_pool W)) (\<lambda>p. Inr (W\<lparr>fp_pool := p\<rparr>))"

text \<open>A task with a fiber: the mutex, and under it the test of the state and \<open>resume\<close>.\<close>

definition lock_fiber :: "nat \<Rightarrow> fiber_ptr \<Rightarrow> fiber_pool \<Rightarrow> fiber_pool" where
  "lock_fiber i f W = set_phase i (Locked f) (W\<lparr>fp_locks := (fp_locks W)(f \<mapsto> i)\<rparr>)"

definition serve_fiber :: "nat \<Rightarrow> fiber_ptr \<Rightarrow> fiber_pool \<Rightarrow> fiber_pool res" where
  "serve_fiber i f W =
     bind_res (fiber_at f (view i W)) (\<lambda>fb.
     if fiber_st fb \<noteq> TERMINATED then switch i (resume f) (Inside f) W
     else Inr (set_phase i (Left f) W))"

text \<open>A task with a callback: a new fiber, its mutex, \<open>resume\<close>.\<close>

definition serve_cb :: "nat \<Rightarrow> closure option \<Rightarrow> fiber_pool \<Rightarrow> fiber_pool res" where
  "serve_cb i cb W =
     (let f = fs_fresh W
      in switch i (resume f) (Inside f) (lock_fiber i f (create_fiber i cb 0 True W)))"

text \<open>What the fiber does, as far as the pool is concerned: it yields, or its function ends.\<close>

definition fiber_yields :: "nat \<Rightarrow> fiber_ptr \<Rightarrow> fiber_pool \<Rightarrow> fiber_pool res" where
  "fiber_yields i f W = switch i (fiber_yield f) (Left f) W"

definition fiber_ends :: "nat \<Rightarrow> fiber_ptr \<Rightarrow> fiber_pool \<Rightarrow> fiber_pool res" where
  "fiber_ends i f W = switch i (MainFunc_leave f) (Left f) W"

text \<open>Back from the fiber: the mutex is released, then the count of active threads goes down.\<close>

definition unlock_fiber :: "nat \<Rightarrow> fiber_ptr \<Rightarrow> fiber_pool \<Rightarrow> fiber_pool" where
  "unlock_fiber i f W = set_phase i Served (W\<lparr>fp_locks := (fp_locks W)(f := None)\<rparr>)"

definition task_served :: "nat \<Rightarrow> schedule_task \<Rightarrow> fiber_pool \<Rightarrow> fiber_pool" where
  "task_served i t W = set_phase i Outside (W\<lparr>fp_pool := pool_done i t (fp_pool W)\<rparr>)"

text \<open>
  No task: the worker leaves the loop or resumes its idle fiber; a turn of \<open>idle\<close>, in which the
  fiber sleeps before it yields; back from it.
\<close>

definition no_task :: "nat \<Rightarrow> fiber_pool \<Rightarrow> fiber_pool res" where
  "no_task i W =
     bind_res (fiber_at (ft_idle (fs_threads W i)) (view i W)) (\<lambda>fb.
     if fiber_st fb = TERMINATED then Inr (W\<lparr>fp_pool := set_pc i Exited (fp_pool W)\<rparr>)
     else switch i (resume (ft_idle (fs_threads W i))) In_idle
            (W\<lparr>fp_pool := pool_go_idle i (fp_pool W)\<rparr>))"

definition idle_turn_on :: "nat \<Rightarrow> fiber_pool \<Rightarrow> fiber_pool res" where
  "idle_turn_on i W =
     bind_res (pool_idle_turn i (fp_pool W)) (\<lambda>p.
     let f = ft_idle (fs_threads W i)
     in switch i (if base_stopping (p_sched (fp_pool W)) then MainFunc_leave f else fiber_yield f) Outside
          (W\<lparr>fp_pool := p\<rparr>))"

definition back_from_idle :: "nat \<Rightarrow> fiber_pool \<Rightarrow> fiber_pool" where
  "back_from_idle i W = W\<lparr>fp_pool := pool_leave_idle i (fp_pool W)\<rparr>"

text \<open>\<open>set_hook_enable\<close> in the code of a fiber.\<close>

definition fp_set_hook :: "nat \<Rightarrow> bool \<Rightarrow> fiber_pool \<Rightarrow> fiber_pool" where
  "fp_set_hook i b W = W\<lparr>fp_pool := pool_set_hook i b (fp_pool W)\<rparr>"

section \<open>Steps\<close>

text \<open>A fiber that may be scheduled: alive, of the scheduler, and not the idle fiber of a worker.\<close>

definition servable :: "fiber_pool \<Rightarrow> fiber_ptr \<Rightarrow> bool" where
  "servable W f \<longleftrightarrow> runs_in_scheduler (fs_fibers W) f
     \<and> (\<forall>i < length (workers W). ft_idle (fs_threads W i) \<noteq> f)"

fun phase_fiber :: "phase \<Rightarrow> fiber_ptr option" where
  "phase_fiber (Locked f) = Some f"
| "phase_fiber (Inside f) = Some f"
| "phase_fiber (Left f) = Some f"
| "phase_fiber _ = None"

text \<open>The tasks whose fibers the pool keeps alive, and the fibers it refers to at all.\<close>

definition pool_tasks :: "pool \<Rightarrow> schedule_task set" where
  "pool_tasks p = set (m_tasks (p_sched p)) \<union> {t. \<exists>w\<in>set (p_workers p). w_pc w = Holding t}"

definition referenced :: "fiber_pool \<Rightarrow> fiber_ptr \<Rightarrow> bool" where
  "referenced W f \<longleftrightarrow> pointed_to (length (workers W)) W f
     \<or> (\<exists>t\<in>pool_tasks (fp_pool W). task_fiber t = Some f)
     \<or> (\<exists>i < length (workers W). phase_fiber (ft_phase (fs_threads W i)) = Some f)"

definition place :: "nat \<Rightarrow> worker_pc \<Rightarrow> phase \<Rightarrow> fiber_pool \<Rightarrow> bool" where
  "place i c ph W \<longleftrightarrow> worker_at i c (fp_pool W) \<and> ft_phase (fs_threads W i) = ph"

inductive fp_step :: "bool \<Rightarrow> fiber_pool \<Rightarrow> fiber_pool \<Rightarrow> bool" for ext where
  schedule: "ext \<or> someone_holds (fp_pool W) \<Longrightarrow> \<forall>f. task_fiber t = Some f \<longrightarrow> servable W f \<Longrightarrow>
    fp_schedule t W = Inr W' \<Longrightarrow> fp_step ext W W'"
| fetch: "place i Fetching Outside W \<Longrightarrow> fp_fetch i W = Inr W' \<Longrightarrow> fp_step ext W W'"
| lock: "place i (Holding t) Outside W \<Longrightarrow> task_fiber t = Some f \<Longrightarrow> fp_locks W f = None \<Longrightarrow>
    fp_step ext W (lock_fiber i f W)"
| serve: "place i (Holding t) (Locked f) W \<Longrightarrow> serve_fiber i f W = Inr W' \<Longrightarrow> fp_step ext W W'"
| serve_cb: "place i (Holding t) Outside W \<Longrightarrow> task_fiber t = None \<Longrightarrow> serve_cb i (task_cb t) W = Inr W' \<Longrightarrow>
    fp_step ext W W'"
| create: "place i (Holding t) (Inside f) W \<Longrightarrow> fp_step ext W (create_fiber i cb ss b W)"
| set_hook: "place i (Holding t) (Inside f) W \<Longrightarrow> fp_step ext W (fp_set_hook i b W)"
| yields: "place i (Holding t) (Inside f) W \<Longrightarrow> fiber_yields i f W = Inr W' \<Longrightarrow> fp_step ext W W'"
| ends: "place i (Holding t) (Inside f) W \<Longrightarrow> fiber_ends i f W = Inr W' \<Longrightarrow> fp_step ext W W'"
| unlock: "place i (Holding t) (Left f) W \<Longrightarrow> fp_step ext W (unlock_fiber i f W)"
| served: "place i (Holding t) Served W \<Longrightarrow> fp_step ext W (task_served i t W)"
| no_task: "place i Empty_handed Outside W \<Longrightarrow> no_task i W = Inr W' \<Longrightarrow> fp_step ext W W'"
| idle_turn: "place i Idling In_idle W \<Longrightarrow> idle_turn_on i W = Inr W' \<Longrightarrow> fp_step ext W W'"
| leave_idle: "place i Leaving Outside W \<Longrightarrow> fp_step ext W (back_from_idle i W)"
| drop: "\<not> referenced W f \<Longrightarrow> fp_step ext W (drop_fiber f W)"
| stop: "fp_step ext W (W\<lparr>fp_pool := (fp_pool W)\<lparr>p_sched := (p_sched (fp_pool W))\<lparr>m_stopping := True\<rparr>\<rparr>\<rparr>)"

text \<open>
  The workers have gone through the prologue of \<open>run\<close>: each is with its scheduler fiber and has its
  own idle fiber, which has not run yet.
\<close>

definition fp_init :: "fiber_pool \<Rightarrow> bool" where
  "fp_init W \<longleftrightarrow> pool_init (fp_pool W) \<and> space_ctl (length (workers W)) W \<and> fp_locks W = (\<lambda>_. None)
     \<and> (\<forall>i < length (workers W). ft_phase (fs_threads W i) = Outside
          \<and> (\<exists>fb. fs_fibers W (ft_idle (fs_threads W i)) = Some fb \<and> fiber_st fb = READY
               \<and> m_runInScheduler fb = Some True))
     \<and> (\<forall>i < length (workers W). \<forall>j < length (workers W).
          ft_idle (fs_threads W i) = ft_idle (fs_threads W j) \<longrightarrow> i = j)
     \<and> (\<forall>t\<in>set (m_tasks (p_sched (fp_pool W))). \<forall>f. task_fiber t = Some f \<longrightarrow> servable W f)"

section \<open>The books of the pool\<close>

definition worker_books :: "fiber_pool \<Rightarrow> nat \<Rightarrow> bool" where
  "worker_books W i \<longleftrightarrow> (let t = fs_threads W i; w = workers W ! i in
     (ft_phase t = In_idle \<longleftrightarrow> w_pc w = Idling)
     \<and> (ft_phase t \<noteq> Outside \<longrightarrow> ft_phase t \<noteq> In_idle \<longrightarrow> (\<exists>u. w_pc w = Holding u))
     \<and> (\<forall>f. phase_fiber (ft_phase t) = Some f \<longrightarrow> servable W f)
     \<and> (\<exists>fb. fs_fibers W (ft_idle t) = Some fb \<and> m_runInScheduler fb = Some True
          \<and> (fiber_st fb = TERMINATED \<longleftrightarrow> w_idle_term w)))"

definition books :: "fiber_pool \<Rightarrow> bool" where
  "books W \<longleftrightarrow> pool_inv (fp_pool W) \<and> space_ctl (length (workers W)) W
     \<and> (\<forall>f i. fp_locks W f = Some i \<longleftrightarrow>
          i < length (workers W) \<and> phase_fiber (ft_phase (fs_threads W i)) = Some f)
     \<and> (\<forall>i < length (workers W). worker_books W i)
     \<and> (\<forall>i < length (workers W). \<forall>j < length (workers W).
          ft_idle (fs_threads W i) = ft_idle (fs_threads W j) \<longrightarrow> i = j)
     \<and> (\<forall>t\<in>pool_tasks (fp_pool W). \<forall>f. task_fiber t = Some f \<longrightarrow> servable W f)"

lemma booksD:
  assumes "books W"
  shows "pool_inv (fp_pool W)" and "space_ctl (length (workers W)) W"
    and "fp_locks W f = Some i \<longleftrightarrow>
          i < length (workers W) \<and> phase_fiber (ft_phase (fs_threads W i)) = Some f"
    and "i < length (workers W) \<Longrightarrow> worker_books W i"
    and "i < length (workers W) \<Longrightarrow> j < length (workers W) \<Longrightarrow>
          ft_idle (fs_threads W i) = ft_idle (fs_threads W j) \<Longrightarrow> i = j"
    and "t \<in> pool_tasks (fp_pool W) \<Longrightarrow> task_fiber t = Some f \<Longrightarrow> servable W f"
  using assms unfolding books_def by blast+

lemma sel_pool [simp]:
  "fp_pool (entered i ph s p g fb W) = fp_pool W" "fp_locks (entered i ph s p g fb W) = fp_locks W"
  "fp_pool (left_fiber i ph s fl p fb W) = fp_pool W" "fp_locks (left_fiber i ph s fl p fb W) = fp_locks W"
  "fp_pool (create_fiber i cb ss b W) = fp_pool W" "fp_locks (create_fiber i cb ss b W) = fp_locks W"
  "fp_pool (drop_fiber p W) = fp_pool W" "fp_locks (drop_fiber p W) = fp_locks W"
  "fp_pool (set_phase i ph W) = fp_pool W" "fp_locks (set_phase i ph W) = fp_locks W"
  by (simp_all add: entered_def left_fiber_def create_fiber_def put_view_def drop_fiber_def set_phase_def)

text \<open>
  What the other workers rely on while worker \<open>i\<close> makes a step: their places, their part of the pool
  and the state of their idle fibers stay, no fiber dies or changes kind, and no task comes.
\<close>

definition elsewhere :: "nat \<Rightarrow> fiber_pool \<Rightarrow> fiber_pool \<Rightarrow> bool" where
  "elsewhere i W W' \<longleftrightarrow> length (workers W') = length (workers W)
     \<and> (\<forall>j. j \<noteq> i \<longrightarrow> fs_threads W' j = fs_threads W j \<and> workers W' ! j = workers W ! j)
     \<and> ft_idle (fs_threads W' i) = ft_idle (fs_threads W i)
     \<and> same_kind (fs_fibers W) (fs_fibers W')
     \<and> (\<forall>j < length (workers W). j \<noteq> i \<longrightarrow>
          map_option fiber_st (fs_fibers W' (ft_idle (fs_threads W j)))
            = map_option fiber_st (fs_fibers W (ft_idle (fs_threads W j))))
     \<and> pool_tasks (fp_pool W') \<subseteq> pool_tasks (fp_pool W)"

lemma servable_elsewhere:
  assumes "elsewhere i W W'" and "servable W f"
  shows "servable W' f"
proof -
  have "ft_idle (fs_threads W' j) = ft_idle (fs_threads W j)" for j
    using assms(1) by (cases "j = i") (auto simp: elsewhere_def)
  then show ?thesis
    using assms by (auto simp: servable_def elsewhere_def intro: same_kind_runs)
qed

lemma worker_books_elsewhere:
  assumes "elsewhere i W W'" and "worker_books W j" and "j \<noteq> i" and "j < length (workers W)"
  shows "worker_books W' j"
proof -
  have same: "fs_threads W' j = fs_threads W j" "workers W' ! j = workers W ! j"
    using assms(1,3) by (auto simp: elsewhere_def)
  obtain fb where fb: "fs_fibers W (ft_idle (fs_threads W j)) = Some fb" "m_runInScheduler fb = Some True"
      "fiber_st fb = TERMINATED \<longleftrightarrow> w_idle_term (workers W ! j)"
    using assms(2) by (auto simp: worker_books_def Let_def)
  have "same_kind (fs_fibers W) (fs_fibers W')" using assms(1) by (simp add: elsewhere_def)
  from same_kindD [OF this fb(1)] obtain fb' where
    fb': "fs_fibers W' (ft_idle (fs_threads W j)) = Some fb'" "m_runInScheduler fb' = Some True"
    using fb(2) by auto
  moreover have "map_option fiber_st (fs_fibers W' (ft_idle (fs_threads W j)))
      = map_option fiber_st (fs_fibers W (ft_idle (fs_threads W j)))"
    using assms(1,3,4) by (simp add: elsewhere_def)
  ultimately show ?thesis
    using assms(2) fb servable_elsewhere [OF assms(1)] same by (auto simp: worker_books_def Let_def)
qed

text \<open>Hence a step of worker \<open>i\<close> keeps the books if it keeps its own.\<close>

lemma books_step:
  assumes "books W" and "elsewhere i W W'" and "i < length (workers W)"
    and "pool_inv (fp_pool W')" and "space_ctl (length (workers W)) W'"
    and "\<And>f k. fp_locks W' f = Some k \<longleftrightarrow> (if k = i then phase_fiber (ft_phase (fs_threads W' i)) = Some f
           else fp_locks W f = Some k)"
    and "worker_books W' i"
  shows "books W'"
proof -
  have len: "length (workers W') = length (workers W)" using assms(2) by (simp add: elsewhere_def)
  have idle: "ft_idle (fs_threads W' j) = ft_idle (fs_threads W j)" for j
    using assms(2) by (cases "j = i") (auto simp: elsewhere_def)
  have "fp_locks W' f = Some k \<longleftrightarrow>
      k < length (workers W') \<and> phase_fiber (ft_phase (fs_threads W' k)) = Some f" for f k
    using assms(2,3,6) booksD(3) [OF assms(1), of f k] len by (cases "k = i") (auto simp: elsewhere_def)
  moreover have "worker_books W' j" if "j < length (workers W')" for j
    using that assms(7) worker_books_elsewhere [OF assms(2) booksD(4) [OF assms(1)]] len by (cases "j = i") auto
  moreover have "servable W' f" if "t \<in> pool_tasks (fp_pool W')" "task_fiber t = Some f" for t f
    using that assms(2) booksD(6) [OF assms(1), of t f] servable_elsewhere [OF assms(2)]
    by (auto simp: elsewhere_def)
  ultimately show ?thesis
    using assms(4,5) booksD(5) [OF assms(1)] unfolding books_def len idle by blast
qed

lemma books_init: "fp_init W \<Longrightarrow> books W"
  by (auto simp: fp_init_def books_def pool_inv_init worker_books_def Let_def pool_init_def pool_tasks_def
      servable_def)

section \<open>Steps of a worker keep the books\<close>

lemma ctl_pool [simp]:
  "space_ctl n (W\<lparr>fp_pool := p\<rparr>) = space_ctl n W" "space_ctl n (W\<lparr>fp_locks := L\<rparr>) = space_ctl n W"
  by (simp_all add: space_ctl_def fiber_ctl_def)

lemma set_phase_pool:
  "(set_phase i ph W)\<lparr>fp_pool := p\<rparr> = set_phase i ph (W\<lparr>fp_pool := p\<rparr>)"
  "(set_phase i ph W)\<lparr>fp_locks := L\<rparr> = set_phase i ph (W\<lparr>fp_locks := L\<rparr>)"
  by (simp_all add: set_phase_def)

lemma space_ctl_cong:
  assumes "fs_fibers W' = fs_fibers W" and "fs_fresh W' = fs_fresh W" and "fs_threads W' = fs_threads W"
  shows "space_ctl n W \<longleftrightarrow> space_ctl n W'"
  unfolding space_ctl_def fiber_ctl_def assms by (rule refl)

definition fits :: "phase \<Rightarrow> worker \<Rightarrow> bool" where
  "fits ph v \<longleftrightarrow> (ph = In_idle \<longleftrightarrow> w_pc v = Idling)
     \<and> (ph \<noteq> Outside \<longrightarrow> ph \<noteq> In_idle \<longrightarrow> (\<exists>u. w_pc v = Holding u))"

text \<open>The step leaves worker \<open>i\<close> as \<open>v\<close> in the pool and as \<open>t\<close> among the fibers.\<close>

lemma books_worker_step:
  assumes "books W" and "i < length (workers W)"
    and "workers W' = (workers W)[i := v]" and "pool_inv (fp_pool W')"
    and "pool_tasks (fp_pool W') \<subseteq> pool_tasks (fp_pool W)"
    and "\<And>f k. fp_locks W' f = Some k \<longleftrightarrow>
           (if k = i then phase_fiber (ft_phase t) = Some f else fp_locks W f = Some k)"
    and "space_ctl (length (workers W)) W'" and "same_kind (fs_fibers W) (fs_fibers W')"
    and "fs_threads W' = (fs_threads W)(i := t)" and "ft_idle t = ft_idle (fs_threads W i)"
    and "\<And>j. j < length (workers W) \<Longrightarrow> j \<noteq> i \<Longrightarrow>
           map_option fiber_st (fs_fibers W' (ft_idle (fs_threads W j)))
             = map_option fiber_st (fs_fibers W (ft_idle (fs_threads W j)))"
    and "map_option fiber_st (fs_fibers W' (ft_idle t)) = Some TERMINATED \<longleftrightarrow> w_idle_term v"
    and "fits (ft_phase t) v" and "\<And>f. phase_fiber (ft_phase t) = Some f \<Longrightarrow> servable W f"
  shows "books W'"
proof (rule books_step [OF assms(1) _ assms(2,4,7)])
  show else: "elsewhere i W W'"
    using assms(3,5,8-11) by (auto simp: elsewhere_def)
  show "fp_locks W' f = Some k \<longleftrightarrow> (if k = i then phase_fiber (ft_phase (fs_threads W' i)) = Some f
           else fp_locks W f = Some k)" for f k
    using assms(6,9) by simp
  obtain fb where "fs_fibers W (ft_idle t) = Some fb" "m_runInScheduler fb = Some True"
    using booksD(4) [OF assms(1,2)] assms(10) by (auto simp: worker_books_def Let_def)
  with same_kindD [OF assms(8)] have "\<exists>fb. fs_fibers W' (ft_idle t) = Some fb \<and> m_runInScheduler fb = Some True"
    by fastforce
  then show "worker_books W' i"
    using assms(2,3,9,12,13) servable_elsewhere [OF else assms(14)]
    by (auto simp: worker_books_def Let_def fits_def)
qed

lemma others_idle:
  assumes "books W" and "i < length (workers W)" and "p = ft_idle (fs_threads W i) \<or> servable W p"
    and "j < length (workers W)" and "j \<noteq> i"
  shows "ft_idle (fs_threads W j) \<noteq> p"
  using assms booksD(5) [OF assms(1), of j i] by (auto simp: servable_def)

lemma booksE:
  assumes "books W" and "i < length (workers W)"
  obtains fb where "fs_fibers W (ft_idle (fs_threads W i)) = Some fb" "m_runInScheduler fb = Some True"
    "fiber_st fb = TERMINATED \<longleftrightarrow> w_idle_term (workers W ! i)" "fits (ft_phase (fs_threads W i)) (workers W ! i)"
    "\<And>f. phase_fiber (ft_phase (fs_threads W i)) = Some f \<Longrightarrow> servable W f"
  using booksD(4) [OF assms] by (auto simp: worker_books_def Let_def fits_def)

lemma books_worker:
  assumes "books W" and "i < length (workers W)"
  shows "fits (ft_phase (fs_threads W i)) (workers W ! i)"
    and "phase_fiber (ft_phase (fs_threads W i)) = Some f \<Longrightarrow> servable W f"
  by (rule booksE [OF assms], assumption)+

text \<open>A worker only changes its place, and the pool or a mutex with it.\<close>

lemma books_phase:
  assumes "books W" and "i < length (workers W)"
    and "workers W' = (workers W)[i := v]" and "pool_inv (fp_pool W')"
    and "pool_tasks (fp_pool W') \<subseteq> pool_tasks (fp_pool W)"
    and "fs_fibers W' = fs_fibers W" and "fs_fresh W' = fs_fresh W"
    and "fs_threads W' = (fs_threads W)(i := (fs_threads W i)\<lparr>ft_phase := ph\<rparr>)"
    and "exec ((fs_threads W i)\<lparr>ft_phase := ph\<rparr>) = exec (fs_threads W i)"
    and "\<And>f k. fp_locks W' f = Some k \<longleftrightarrow> (if k = i then phase_fiber ph = Some f else fp_locks W f = Some k)"
    and "w_idle_term v = w_idle_term (workers W ! i)" and "fits ph v"
    and "\<And>f. phase_fiber ph = Some f \<Longrightarrow> servable W f"
  shows "books W'"
proof -
  have "space_ctl (length (workers W)) (set_phase i ph W)"
    by (rule space_ctl_phase [OF booksD(2) [OF assms(1)] assms(9)])
  then have "space_ctl (length (workers W)) W'"
    by (rule space_ctl_cong [THEN iffD1, rotated -1]) (use assms(6-8) in simp_all)
  moreover have "map_option fiber_st (fs_fibers W (ft_idle (fs_threads W i))) = Some TERMINATED \<longleftrightarrow> w_idle_term v"
    by (rule booksE [OF assms(1,2)]) (simp add: assms(11))
  ultimately show ?thesis
    using assms(3-8,10,12,13)
    by (intro books_worker_step [OF assms(1,2), of W' v "(fs_threads W i)\<lparr>ft_phase := ph\<rparr>"])
      (simp_all add: same_kind_def)
qed

text \<open>Only the pool and the mutexes differ.\<close>

lemma same_space:
  assumes "W2 = W\<lparr>fp_pool := p, fp_locks := L\<rparr>"
  shows "fs_fibers W2 = fs_fibers W" and "fs_threads W2 = fs_threads W" and "space_ctl n W2 = space_ctl n W"
  by (simp_all add: assms)

text \<open>A worker enters a fiber.\<close>

lemma books_enter:
  assumes "books W" and "i < length (workers W)" and "exec (fs_threads W i) = None"
    and "fs_fibers W p = Some fb" and "m_runInScheduler fb = Some True" and "fiber_st fb = READY"
    and "p = ft_idle (fs_threads W i) \<or> servable W p"
    and "exec ((fs_threads W i)\<lparr>ft_phase := ph\<rparr>) = Some p"
    and "workers W2 = (workers W)[i := v]" and "pool_inv (fp_pool W2)"
    and "pool_tasks (fp_pool W2) \<subseteq> pool_tasks (fp_pool W)"
    and "W2 = W\<lparr>fp_pool := fp_pool W2, fp_locks := fp_locks W2\<rparr>"
    and "\<And>f k. fp_locks W2 f = Some k \<longleftrightarrow> (if k = i then phase_fiber ph = Some f else fp_locks W f = Some k)"
    and "w_idle_term v = w_idle_term (workers W ! i)" and "fits ph v"
    and "\<And>f. phase_fiber ph = Some f \<Longrightarrow> servable W f"
  shows "\<exists>W'. switch i (resume p) ph W2 = Inr W' \<and> books W' \<and> fp_pool W' = fp_pool W2
    \<and> fp_locks W' = fp_locks W2 \<and> ft_fiber (fs_threads W' i) = Some p \<and> ft_cur (fs_threads W' i) = On_stack p
    \<and> ft_phase (fs_threads W' i) = ph \<and> (\<forall>j. j \<noteq> i \<longrightarrow> fs_threads W' j = fs_threads W j)"
proof -
  note space = same_space(1,2) [OF assms(12)]
  have ctl: "space_ctl (length (workers W)) W2"
    using booksD(2) [OF assms(1)] same_space(3) [OF assms(12)] by simp
  note in2 = ctl assms(2) assms(3) [folded space(2)] assms(4) [folded space(1)] assms(5,6)
  obtain s g where s: "ft_sched (fs_threads W2 i) = Some s" "fs_fibers W2 s = Some g" "s \<noteq> p"
      "m_runInScheduler g \<noteq> Some True" "switch i (resume p) ph W2 = Inr (entered i ph s p g fb W2)"
    using enter_fiber [OF in2] by metis
  let ?W = "entered i ph s p g fb W2"
  note ent = space_ctl_entered [OF in2 s(1-3) assms(8) [folded space(2)]]
  obtain fi where own: "fs_fibers W (ft_idle (fs_threads W i)) = Some fi"
      "fiber_st fi = TERMINATED \<longleftrightarrow> w_idle_term (workers W ! i)"
    by (rule booksE [OF assms(1,2)])
  have st: "map_option fiber_st (fs_fibers ?W q) = map_option fiber_st (fs_fibers W q)" if "q \<noteq> p" for q
    using that s(2) space by auto
  have "books ?W"
  proof (rule books_worker_step [OF assms(1,2), of _ v])
    show "map_option fiber_st (fs_fibers ?W (ft_idle (fs_threads W j)))
        = map_option fiber_st (fs_fibers W (ft_idle (fs_threads W j)))"
      if "j < length (workers W)" "j \<noteq> i" for j
      using others_idle [OF assms(1,2,7) that] by (rule st)
    show "map_option fiber_st (fs_fibers ?W (ft_idle ((fs_threads W i)\<lparr>ft_fiber := Some p,
          ft_cur := On_stack p, ft_phase := ph\<rparr>))) = Some TERMINATED \<longleftrightarrow> w_idle_term v"
      using st [of "ft_idle (fs_threads W i)"] own assms(4,6,14) s(3) space
      by (cases "ft_idle (fs_threads W i) = p") auto
  qed (use assms(9-11,13,15,16) ent space in simp_all)
  with s(5) space show ?thesis by simp
qed

text \<open>A worker is back from the fiber it executes, which has yielded or whose function has ended.\<close>

definition leaves :: "fiber_ptr \<Rightarrow> (fiber_world \<Rightarrow> fiber_world res) \<Rightarrow> (fiber \<Rightarrow> fiber) \<Rightarrow> bool" where
  "leaves p f upd \<longleftrightarrow> f = fiber_yield p \<and> upd = yielded \<or> f = MainFunc_leave p \<and> upd = finished"

lemma yielded_not_finished: "yielded \<noteq> finished"
proof
  assume "yielded = finished"
  then have "fiber_st (yielded fb) = fiber_st (finished fb)" for fb by simp
  then show False by simp
qed

lemma books_leave:
  assumes "books W" and "i < length (workers W)" and "exec (fs_threads W i) = Some p" and "leaves p f upd"
    and "p = ft_idle (fs_threads W i) \<or> servable W p"
    and "exec ((fs_threads W i)\<lparr>ft_phase := ph\<rparr>) = None"
    and "workers W2 = (workers W)[i := v]" and "pool_inv (fp_pool W2)"
    and "pool_tasks (fp_pool W2) \<subseteq> pool_tasks (fp_pool W)"
    and "W2 = W\<lparr>fp_pool := fp_pool W2, fp_locks := fp_locks W2\<rparr>"
    and "\<And>f k. fp_locks W2 f = Some k \<longleftrightarrow> (if k = i then phase_fiber ph = Some f else fp_locks W f = Some k)"
    and "w_idle_term v \<longleftrightarrow> (if p = ft_idle (fs_threads W i) then upd = finished else w_idle_term (workers W ! i))"
    and "fits ph v" and "\<And>f. phase_fiber ph = Some f \<Longrightarrow> servable W f"
  shows "\<exists>W' m s fb. switch i f ph W2 = Inr W' \<and> books W' \<and> fp_pool W' = fp_pool W2
    \<and> fp_locks W' = fp_locks W2 \<and> ft_main (fs_threads W i) = Some m \<and> ft_sched (fs_threads W i) = Some s
    \<and> fs_fibers W p = Some fb \<and> fs_fibers W' = (fs_fibers W)(p \<mapsto> (upd fb)\<lparr>m_ctx := Saved (On_stack p)\<rparr>)
    \<and> fs_threads W' = (fs_threads W)(i := (fs_threads W i)\<lparr>ft_fiber := Some s, ft_cur := home m s, ft_phase := ph\<rparr>)"
proof -
  note space = same_space(1,2) [OF assms(10)]
  have ctl: "space_ctl (length (workers W)) W2"
    using booksD(2) [OF assms(1)] same_space(3) [OF assms(10)] by simp
  note in2 = ctl assms(2) assms(3) [folded space(2)]
  obtain m s fb where s: "ft_main (fs_threads W2 i) = Some m" "ft_sched (fs_threads W2 i) = Some s"
      "fs_fibers W2 p = Some fb" "switch i f ph W2 = Inr (left_fiber i ph s (home m s) p (upd fb) W2)"
    using leave_fiber [OF in2] assms(4) unfolding leaves_def by metis
  have u: "m_runInScheduler (upd fb) = m_runInScheduler fb" "fiber_st (upd fb) \<noteq> RUNNING"
      "fiber_st (upd fb) = TERMINATED \<longleftrightarrow> upd = finished"
    using assms(4) yielded_not_finished by (auto simp: leaves_def)
  let ?W = "left_fiber i ph s (home m s) p (upd fb) W2"
  note lft = space_ctl_left [OF in2 s(1-3) u(1,2) assms(6) [folded space(2)]]
  obtain fi where own: "fs_fibers W (ft_idle (fs_threads W i)) = Some fi"
      "fiber_st fi = TERMINATED \<longleftrightarrow> w_idle_term (workers W ! i)"
    by (rule booksE [OF assms(1,2)])
  have st: "map_option fiber_st (fs_fibers ?W q) = map_option fiber_st (fs_fibers W q)" if "q \<noteq> p" for q
    using that space by auto
  have "books ?W"
  proof (rule books_worker_step [OF assms(1,2), of _ v])
    show "map_option fiber_st (fs_fibers ?W (ft_idle (fs_threads W j)))
        = map_option fiber_st (fs_fibers W (ft_idle (fs_threads W j)))"
      if "j < length (workers W)" "j \<noteq> i" for j
      using others_idle [OF assms(1,2,5) that] by (rule st)
    show "map_option fiber_st (fs_fibers ?W (ft_idle ((fs_threads W i)\<lparr>ft_fiber := Some s,
          ft_cur := home m s, ft_phase := ph\<rparr>))) = Some TERMINATED \<longleftrightarrow> w_idle_term v"
      using st [of "ft_idle (fs_threads W i)"] own assms(12) u(3)
      by (cases "ft_idle (fs_threads W i) = p") auto
  qed (use assms(7-9,11,13,14) lft space in simp_all)
  with s space show ?thesis by simp
qed

section \<open>The operations, one by one\<close>

text \<open>
  What a step of worker \<open>i\<close> achieves: it ends without a fault, keeps the books, and is a step of the
  pool or none.
\<close>

definition achieves :: "fiber_pool \<Rightarrow> fiber_pool res \<Rightarrow> (fiber_pool \<Rightarrow> bool) \<Rightarrow> bool" where
  "achieves W r post \<longleftrightarrow> (\<exists>W'. r = Inr W' \<and> books W' \<and> post W'
     \<and> (fp_pool W' = fp_pool W \<or> (\<forall>ext. pool_step ext (fp_pool W) (fp_pool W'))))"

lemma pool_tasks_update:
  assumes "p_workers q = (p_workers p)[i := v]" and "set (m_tasks (p_sched q)) \<subseteq> set (m_tasks (p_sched p))"
    and "\<And>t. w_pc v = Holding t \<Longrightarrow> t \<in> pool_tasks p"
  shows "pool_tasks q \<subseteq> pool_tasks p"
proof
  fix t assume "t \<in> pool_tasks q"
  then consider "t \<in> set (m_tasks (p_sched p))" | w where "w \<in> set (p_workers q)" "w_pc w = Holding t"
    using assms(2) by (auto simp: pool_tasks_def)
  then show "t \<in> pool_tasks p"
  proof cases
    case 2
    then have "w = v \<or> w \<in> set (p_workers p)"
      using assms(1) set_update_subset_insert [of "p_workers p" i v] by auto
    then show ?thesis using 2(2) assms(3) by (auto simp: pool_tasks_def)
  qed (simp add: pool_tasks_def)
qed

lemma placeE:
  assumes "books W" and "place i c ph W"
  obtains "i < length (workers W)" "w_pc (workers W ! i) = c" "ft_phase (fs_threads W i) = ph"
    "(workers W)[i := workers W ! i] = workers W"
    "\<And>f. phase_fiber ph = Some f \<Longrightarrow> servable W f"
    "\<And>t f. c = Holding t \<Longrightarrow> task_fiber t = Some f \<Longrightarrow> servable W f"
    "\<And>f. phase_fiber ph \<noteq> Some f \<Longrightarrow> fp_locks W f \<noteq> Some i"
    "exec (fs_threads W i) = None \<longleftrightarrow> ph \<noteq> In_idle \<and> (\<forall>f. ph \<noteq> Inside f)"
proof
  show i: "i < length (workers W)" and c: "w_pc (workers W ! i) = c" and ph: "ft_phase (fs_threads W i) = ph"
    using assms(2) by (simp_all add: place_def worker_at_def)
  show "servable W f" if "phase_fiber ph = Some f" for f
    by (rule booksE [OF assms(1) i]) (use that ph in auto)
  show "servable W f" if "c = Holding t" "task_fiber t = Some f" for t f
    using that(1) c i by (intro booksD(6) [OF assms(1) _ that(2)]) (auto simp: pool_tasks_def)
  show "fp_locks W f \<noteq> Some i" if "phase_fiber ph \<noteq> Some f" for f
    using that booksD(3) [OF assms(1)] ph by simp
  show "exec (fs_threads W i) = None \<longleftrightarrow> ph \<noteq> In_idle \<and> (\<forall>f. ph \<noteq> Inside f)"
    using ph by (simp add: exec_def split: phase.splits)
qed simp

text \<open>Who executes a fiber that may be scheduled holds its mutex.\<close>

lemma executed_servable:
  assumes "books W" and "servable W f" and "k < length (workers W)" and "exec (fs_threads W k) = Some f"
  shows "ft_phase (fs_threads W k) = Inside f" and "fp_locks W f = Some k"
proof -
  show "ft_phase (fs_threads W k) = Inside f"
    using assms(2-4) by (auto simp: exec_def servable_def split: phase.splits)
  then show "fp_locks W f = Some k" using assms(3) booksD(3) [OF assms(1)] by simp
qed

lemma books_lock:
  assumes "books W" and "place i (Holding t) Outside W" and "task_fiber t = Some f" and "fp_locks W f = None"
  shows "achieves W (Inr (lock_fiber i f W)) (place i (Holding t) (Locked f))"
proof -
  note at = placeE [OF assms(1,2)]
  have i: "i < length (workers W)" and pc: "w_pc (workers W ! i) = Holding t"
    and ph: "ft_phase (fs_threads W i) = Outside" by (rule at, assumption)+
  have sv: "servable W f" by (rule at) (simp add: assms(3))
  have free: "fp_locks W g \<noteq> Some i" for g by (rule at) simp
  have "books (lock_fiber i f W)"
    by (rule books_phase [OF assms(1) i, of _ "workers W ! i" "Locked f"])
      (use free sv pc ph assms(4) booksD(1) [OF assms(1)] in
        \<open>auto simp: lock_fiber_def fits_def exec_def\<close>)
  then show ?thesis
    using i pc by (auto simp: achieves_def place_def worker_at_def lock_fiber_def)
qed

lemma books_serve:
  assumes "books W" and "place i (Holding t) (Locked f) W"
  shows "achieves W (serve_fiber i f W) (\<lambda>W'. place i (Holding t)
     (if map_option fiber_st (fs_fibers W f) = Some TERMINATED then Left f else Inside f) W'
     \<and> fp_locks W' = fp_locks W \<and> fp_pool W' = fp_pool W \<and> (\<forall>j. j \<noteq> i \<longrightarrow> fs_threads W' j = fs_threads W j)
     \<and> (ft_phase (fs_threads W' i) = Inside f \<longrightarrow>
          ft_fiber (fs_threads W' i) = Some f \<and> ft_cur (fs_threads W' i) = On_stack f))"
proof -
  note at = placeE [OF assms]
  have i: "i < length (workers W)" and pc: "w_pc (workers W ! i) = Holding t"
    and ph: "ft_phase (fs_threads W i) = Locked f" by (rule at, assumption)+
  have sv: "servable W f" and ex: "exec (fs_threads W i) = None" by (rule at, simp)+
  have same: "W = W\<lparr>fp_pool := fp_pool W, fp_locks := fp_locks W\<rparr>" by simp
  obtain fb where fb: "fs_fibers W f = Some fb" "m_runInScheduler fb = Some True"
    using sv by (auto simp: servable_def runs_in_scheduler_def)
  have lock: "fp_locks W g = Some i \<longleftrightarrow> g = f" for g
    using booksD(3) [OF assms(1), of g i] i ph by auto
  show ?thesis
  proof (cases "fiber_st fb = TERMINATED")
    case True
    have "books (set_phase i (Left f) W)"
      by (rule books_phase [OF assms(1) i, of _ "workers W ! i" "Left f"])
        (use lock sv pc ph booksD(1) [OF assms(1)] in \<open>auto simp: fits_def exec_def\<close>)
    then show ?thesis
      using True fb i pc by (auto simp: achieves_def serve_fiber_def place_def worker_at_def)
  next
    case False
    have "fiber_st fb \<noteq> RUNNING"
    proof
      assume "fiber_st fb = RUNNING"
      then obtain k where k: "k < length (workers W)" "exec (fs_threads W k) = Some f"
        using space_ctlD(4) [OF booksD(2) [OF assms(1)] fb(1)] fb(2) by (auto simp: fiber_ctl_def)
      from executed_servable [OF assms(1) sv this] have "k = i" using lock [of f] by simp
      with k(2) ex show False by simp
    qed
    with False have st: "fiber_st fb = READY" by (cases "fiber_st fb") auto
    have "\<exists>W'. switch i (resume f) (Inside f) W = Inr W' \<and> books W' \<and> fp_pool W' = fp_pool W
      \<and> fp_locks W' = fp_locks W \<and> ft_fiber (fs_threads W' i) = Some f
      \<and> ft_cur (fs_threads W' i) = On_stack f \<and> ft_phase (fs_threads W' i) = Inside f
      \<and> (\<forall>j. j \<noteq> i \<longrightarrow> fs_threads W' j = fs_threads W j)"
      by (rule books_enter [OF assms(1) i ex fb st, of "Inside f" W "workers W ! i"])
        (use sv lock pc booksD(1) [OF assms(1)] in \<open>auto simp: fits_def exec_def\<close>)
    then show ?thesis
      using st fb i pc by (auto simp: achieves_def serve_fiber_def place_def worker_at_def)
  qed
qed

lemma books_create:
  assumes "books W" and "i < length (workers W)"
  shows "books (create_fiber i cb ss b W)" and "servable W f \<Longrightarrow> servable (create_fiber i cb ss b W) f"
proof -
  let ?W = "create_fiber i cb ss b W"
  note c = space_ctl_create [OF booksD(2) [OF assms(1)], of i cb ss b]
  have new: "fs_fibers W (fs_fresh W) = None" by (rule space_ctl_unused [OF booksD(2) [OF assms(1)] order.refl])
  have idle: "ft_idle (fs_threads W j) \<noteq> fs_fresh W" if "j < length (workers W)" for j
    by (rule booksE [OF assms(1) that]) (use new in auto)
  have "elsewhere i W ?W"
    using c(2) idle by (auto simp: elsewhere_def)
  then show "servable W f \<Longrightarrow> servable ?W f" by (rule servable_elsewhere)
  show "books ?W"
  proof (rule books_worker_step [OF assms, of _ "workers W ! i" "fs_threads W i"])
    show "fp_locks ?W f = Some k \<longleftrightarrow> (if k = i then phase_fiber (ft_phase (fs_threads W i)) = Some f
        else fp_locks W f = Some k)" for f k
      using booksD(3) [OF assms(1)] assms(2) by simp
    show "map_option fiber_st (fs_fibers ?W (ft_idle (fs_threads W i))) = Some TERMINATED
        \<longleftrightarrow> w_idle_term (workers W ! i)"
      by (rule booksE [OF assms]) (use idle [OF assms(2)] in simp)
  qed (use c idle booksD(1) [OF assms(1)] books_worker [OF assms] in auto)
qed

lemma books_serve_cb:
  assumes "books W" and "place i (Holding t) Outside W"
  shows "achieves W (serve_cb i cb W) (\<lambda>W'. place i (Holding t) (Inside (fs_fresh W)) W'
    \<and> ft_fiber (fs_threads W' i) = Some (fs_fresh W) \<and> ft_cur (fs_threads W' i) = On_stack (fs_fresh W))"
proof -
  let ?f = "fs_fresh W" and ?W1 = "create_fiber i cb 0 True W"
  let ?W2 = "lock_fiber i ?f ?W1"
  note at = placeE [OF assms]
  have i: "i < length (workers W)" and pc: "w_pc (workers W ! i) = Holding t"
    and ph: "ft_phase (fs_threads W i) = Outside" by (rule at, assumption)+
  have b1: "books ?W1" by (rule books_create [OF assms(1) i])
  have new: "fs_fibers W ?f = None" by (rule space_ctl_unused [OF booksD(2) [OF assms(1)] order.refl])
  have "ft_idle (fs_threads W j) \<noteq> ?f" if "j < length (workers W)" for j
    by (rule booksE [OF assms(1) that]) (use new in auto)
  then have sv: "servable ?W1 ?f" by (simp add: servable_def runs_in_scheduler_def child_fiber_def)
  have free: "fp_locks ?W1 g \<noteq> Some i" for g using booksD(3) [OF b1, of g i] ph by simp
  have "\<not> servable W ?f" using new by (simp add: servable_def runs_in_scheduler_def)
  then have unheld: "fp_locks W ?f = None"
    using booksD(3) [OF assms(1), of ?f] books_worker(2) [OF assms(1)] by (cases "fp_locks W ?f") auto
  have b2: "books ?W2"
    by (rule books_phase [OF b1, of i _ "workers W ! i" "Locked ?f"])
      (use free sv pc ph i unheld booksD(1) [OF assms(1)] in \<open>auto simp: lock_fiber_def fits_def exec_def\<close>)
  have "\<exists>W'. switch i (resume ?f) (Inside ?f) ?W2 = Inr W' \<and> books W' \<and> fp_pool W' = fp_pool ?W2
      \<and> fp_locks W' = fp_locks ?W2 \<and> ft_fiber (fs_threads W' i) = Some ?f
      \<and> ft_cur (fs_threads W' i) = On_stack ?f \<and> ft_phase (fs_threads W' i) = Inside ?f
      \<and> (\<forall>j. j \<noteq> i \<longrightarrow> fs_threads W' j = fs_threads ?W2 j)"
    by (rule books_enter [OF b2, of i ?f "child_fiber cb 0 True (view i W)" "Inside ?f" ?W2 "workers W ! i"])
      (use sv free pc i ph booksD(1) [OF assms(1)] in
        \<open>auto simp: lock_fiber_def exec_def child_fiber_def fits_def servable_def\<close>)
  then show ?thesis
    using i pc by (auto simp: achieves_def serve_cb_def Let_def place_def worker_at_def lock_fiber_def)
qed

lemma books_leaves:
  assumes "books W" and "place i (Holding t) (Inside f) W" and "leaves f op upd"
  shows "achieves W (switch i op (Left f) W) (\<lambda>W'. place i (Holding t) (Left f) W'
    \<and> fp_locks W' = fp_locks W \<and> fp_pool W' = fp_pool W \<and> (\<exists>m s fb. ft_main (fs_threads W i) = Some m \<and> ft_sched (fs_threads W i) = Some s
        \<and> fs_fibers W f = Some fb
        \<and> fs_fibers W' = (fs_fibers W)(f \<mapsto> (upd fb)\<lparr>m_ctx := Saved (On_stack f)\<rparr>)
        \<and> fs_threads W' = (fs_threads W)(i := (fs_threads W i)\<lparr>ft_fiber := Some s, ft_cur := home m s,
            ft_phase := Left f\<rparr>)))"
proof -
  note at = placeE [OF assms(1,2)]
  have i: "i < length (workers W)" and pc: "w_pc (workers W ! i) = Holding t"
    and ph: "ft_phase (fs_threads W i) = Inside f" by (rule at, assumption)+
  have sv: "servable W f" by (rule at) simp
  have ex: "exec (fs_threads W i) = Some f" using ph by (simp add: exec_def)
  have lock: "fp_locks W g = Some i \<longleftrightarrow> g = f" for g
    using booksD(3) [OF assms(1), of g i] i ph by auto
  have "\<exists>W' m s fb. switch i op (Left f) W = Inr W' \<and> books W' \<and> fp_pool W' = fp_pool W
    \<and> fp_locks W' = fp_locks W \<and> ft_main (fs_threads W i) = Some m \<and> ft_sched (fs_threads W i) = Some s
    \<and> fs_fibers W f = Some fb \<and> fs_fibers W' = (fs_fibers W)(f \<mapsto> (upd fb)\<lparr>m_ctx := Saved (On_stack f)\<rparr>)
    \<and> fs_threads W' = (fs_threads W)(i := (fs_threads W i)\<lparr>ft_fiber := Some s, ft_cur := home m s, ft_phase := Left f\<rparr>)"
    by (rule books_leave [OF assms(1) i ex assms(3), of "Left f" W "workers W ! i"])
      (use sv lock pc i booksD(1) [OF assms(1)] in \<open>auto simp: fits_def exec_def servable_def\<close>)
  then show ?thesis
    using i pc unfolding achieves_def place_def worker_at_def by fastforce
qed

lemma books_unlock:
  assumes "books W" and "place i (Holding t) (Left f) W"
  shows "achieves W (Inr (unlock_fiber i f W)) (place i (Holding t) Served)"
proof -
  note at = placeE [OF assms]
  have i: "i < length (workers W)" and pc: "w_pc (workers W ! i) = Holding t"
    and ph: "ft_phase (fs_threads W i) = Left f" by (rule at, assumption)+
  have held: "fp_locks W f = Some i" and lock: "g \<noteq> f \<Longrightarrow> fp_locks W g \<noteq> Some i" for g
    using booksD(3) [OF assms(1), of _ i] i ph by auto
  have "books (unlock_fiber i f W)"
    by (rule books_phase [OF assms(1) i, of _ "workers W ! i" Served])
      (use held lock pc ph booksD(1) [OF assms(1)] in \<open>auto simp: unlock_fiber_def fits_def exec_def\<close>)
  then show ?thesis
    using i pc by (auto simp: achieves_def place_def worker_at_def unlock_fiber_def)
qed

text \<open>Steps that change the worker's part of the pool.\<close>

lemma books_pool_move:
  assumes "books W" and "i < length (workers W)" and "pool_inv p" and "p_workers p = (workers W)[i := v]"
    and "set (m_tasks (p_sched p)) \<subseteq> set (m_tasks (p_sched (fp_pool W)))"
    and "\<And>t. w_pc v = Holding t \<Longrightarrow> t \<in> pool_tasks (fp_pool W)"
    and "w_idle_term v = w_idle_term (workers W ! i)" and "fits Outside v"
    and "ft_phase (fs_threads W i) = Outside \<or> ft_phase (fs_threads W i) = Served"
  shows "books (set_phase i Outside (W\<lparr>fp_pool := p\<rparr>))"
proof -
  have "phase_fiber (ft_phase (fs_threads W i)) = None" using assms(9) by auto
  then have free: "fp_locks W g \<noteq> Some i" for g using booksD(3) [OF assms(1)] by simp
  show ?thesis
    by (rule books_phase [OF assms(1,2), of _ v Outside])
      (use assms free pool_tasks_update in \<open>auto simp: exec_def\<close>)
qed

lemma set_phase_same: "ft_phase (fs_threads W i) = ph \<Longrightarrow> set_phase i ph W = W"
  by (auto simp: set_phase_def)

lemma books_served:
  assumes "books W" and "place i (Holding t) Served W"
  shows "achieves W (Inr (task_served i t W)) (place i Fetching Outside)"
proof -
  have at: "i < length (workers W)" "w_pc (workers W ! i) = Holding t" "ft_phase (fs_threads W i) = Served"
      "worker_at i (Holding t) (fp_pool W)"
    using assms(2) by (simp_all add: place_def worker_at_def)
  have "books (task_served i t W)"
    unfolding task_served_def
    by (rule books_pool_move [OF assms(1) at(1), of _ "(workers W ! i)\<lparr>w_pc := Fetching\<rparr>"])
      (use at pool_inv_local(1) [OF booksD(1) [OF assms(1)]] in \<open>auto simp: pool_defs fits_def\<close>)
  moreover have "pool_step ext (fp_pool W) (pool_done i t (fp_pool W))" for ext
    by (rule pool_step.finish [OF at(4)])
  ultimately show ?thesis
    using at by (auto simp: achieves_def place_def worker_at_def task_served_def pool_done_def)
qed

lemma books_fetch:
  assumes "books W" and "place i Fetching Outside W"
  shows "achieves W (fp_fetch i W) (\<lambda>W'. place i Empty_handed Outside W'
    \<or> (\<exists>t. place i (Holding t) Outside W' \<and> t \<in> set (m_tasks (p_sched (fp_pool W)))))"
proof -
  have at: "i < length (workers W)" "ft_phase (fs_threads W i) = Outside" "worker_at i Fetching (fp_pool W)"
    using assms(2) by (simp_all add: place_def worker_at_def)
  note tasks = pool_inv_tasks [OF booksD(1) [OF assms(1)]]
  obtain p where p: "pool_fetch i (fp_pool W) = Inr p" using pool_fetch_total [OF tasks] by blast
  have inv: "pool_inv p" by (rule pool_inv_fetch [OF booksD(1) [OF assms(1)] at(3) p])
  obtain c where c: "p_workers p = (workers W)[i := (workers W ! i)\<lparr>w_pc := c\<rparr>]"
      "set (m_tasks (p_sched p)) \<subseteq> set (m_tasks (p_sched (fp_pool W)))"
      "c = Empty_handed \<or> (\<exists>t. c = Holding t \<and> t \<in> set (m_tasks (p_sched (fp_pool W))))"
    using pool_fetch_spec [OF p tasks] by (fastforce simp: set_pc_def)
  have "books (set_phase i Outside (W\<lparr>fp_pool := p\<rparr>))"
    by (rule books_pool_move [OF assms(1) at(1) inv c(1,2)])
      (use c(3) at(2) in \<open>auto simp: pool_tasks_def fits_def\<close>)
  moreover have "fp_fetch i W = Inr (set_phase i Outside (W\<lparr>fp_pool := p\<rparr>))"
    using p at(2) by (simp add: fp_fetch_def set_phase_same)
  moreover have "pool_step ext (fp_pool W) p" for ext by (rule pool_step.fetch [OF at(3) p])
  ultimately show ?thesis
    using c(1,3) at(1) by (auto simp: achieves_def place_def worker_at_def)
qed

lemma books_back:
  assumes "books W" and "place i Leaving Outside W"
  shows "achieves W (Inr (back_from_idle i W)) (place i Fetching Outside)"
proof -
  have at: "i < length (workers W)" "w_pc (workers W ! i) = Leaving" "ft_phase (fs_threads W i) = Outside"
      "worker_at i Leaving (fp_pool W)"
    using assms(2) by (simp_all add: place_def worker_at_def)
  have "books (set_phase i Outside (W\<lparr>fp_pool := pool_leave_idle i (fp_pool W)\<rparr>))"
    by (rule books_pool_move [OF assms(1) at(1), of _ "(workers W ! i)\<lparr>w_pc := Fetching\<rparr>"])
      (use at pool_inv_local(4) [OF booksD(1) [OF assms(1)]] in \<open>auto simp: pool_defs fits_def\<close>)
  then have "books (back_from_idle i W)" using at(3) by (simp add: set_phase_same back_from_idle_def)
  moreover have "pool_step ext (fp_pool W) (pool_leave_idle i (fp_pool W))" for ext
    by (rule pool_step.leave_idle [OF at(4)])
  ultimately show ?thesis
    using at by (auto simp: achieves_def place_def worker_at_def back_from_idle_def pool_leave_idle_def)
qed

text \<open>The idle fiber is ready whenever its worker is not in it, until its function has ended.\<close>

lemma idle_ready:
  assumes "books W" and "i < length (workers W)" and "ft_phase (fs_threads W i) = Outside"
    and "fs_fibers W (ft_idle (fs_threads W i)) = Some fb" and "fiber_st fb \<noteq> TERMINATED"
  shows "fiber_st fb = READY"
proof -
  have rs: "m_runInScheduler fb = Some True" by (rule booksE [OF assms(1,2)]) (simp add: assms(4))
  have "exec (fs_threads W k) \<noteq> Some (ft_idle (fs_threads W i))" if "k < length (workers W)" for k
    using booksD(5) [OF assms(1) that assms(2)] books_worker(2) [OF assms(1) that] assms(2,3)
    by (auto simp: exec_def servable_def split: phase.splits)
  then have "fiber_st fb \<noteq> RUNNING"
    using space_ctlD(4) [OF booksD(2) [OF assms(1)] assms(4)] rs by (auto simp: fiber_ctl_def)
  with assms(5) show ?thesis by (cases "fiber_st fb") auto
qed

lemma books_no_task:
  assumes "books W" and "place i Empty_handed Outside W"
  shows "achieves W (no_task i W) (\<lambda>W'. place i Exited Outside W' \<or> place i Idling In_idle W')"
proof -
  let ?f = "ft_idle (fs_threads W i)"
  note at = placeE [OF assms]
  have i: "i < length (workers W)" and pc: "w_pc (workers W ! i) = Empty_handed"
    and ph: "ft_phase (fs_threads W i) = Outside" by (rule at, assumption)+
  have ex: "exec (fs_threads W i) = None" and free: "fp_locks W g \<noteq> Some i" for g by (rule at, simp)+
  have wat: "worker_at i Empty_handed (fp_pool W)" using i pc by (simp add: worker_at_def)
  obtain fb where fb: "fs_fibers W ?f = Some fb" "m_runInScheduler fb = Some True"
      "fiber_st fb = TERMINATED \<longleftrightarrow> w_idle_term (workers W ! i)"
    by (rule booksE [OF assms(1) i])
  show ?thesis
  proof (cases "fiber_st fb = TERMINATED")
    case True
    let ?p = "set_pc i Exited (fp_pool W)"
    have "books (set_phase i Outside (W\<lparr>fp_pool := ?p\<rparr>))"
      by (rule books_pool_move [OF assms(1) i, of _ "(workers W ! i)\<lparr>w_pc := Exited\<rparr>"])
        (use True fb pc ph wat pool_inv_local(3) [OF booksD(1) [OF assms(1)]] in \<open>auto simp: fits_def\<close>)
    moreover have "pool_step ext (fp_pool W) ?p" for ext
      using True fb(3) wat by (intro pool_step.exit_loop) auto
    ultimately show ?thesis
      using True fb(1) i ph by (auto simp: achieves_def no_task_def set_phase_same place_def worker_at_def)
  next
    case False
    let ?W2 = "W\<lparr>fp_pool := pool_go_idle i (fp_pool W)\<rparr>"
    have alive: "\<not> w_idle_term (workers W ! i)" using False fb(3) by simp
    have sub: "pool_tasks (fp_pool ?W2) \<subseteq> pool_tasks (fp_pool W)"
      by (rule pool_tasks_update [of _ _ i "(workers W ! i)\<lparr>w_pc := Idling\<rparr>"]) (simp_all add: pool_defs)
    note go = pool_inv_local(2) [OF booksD(1) [OF assms(1)] wat alive] pool_step.go_idle [OF wat alive]
    have "\<exists>W'. switch i (resume ?f) In_idle ?W2 = Inr W' \<and> books W' \<and> fp_pool W' = fp_pool ?W2
        \<and> fp_locks W' = fp_locks ?W2 \<and> ft_fiber (fs_threads W' i) = Some ?f
        \<and> ft_cur (fs_threads W' i) = On_stack ?f \<and> ft_phase (fs_threads W' i) = In_idle
        \<and> (\<forall>j. j \<noteq> i \<longrightarrow> fs_threads W' j = fs_threads W j)"
      by (rule books_enter [OF assms(1) i ex fb(1,2) idle_ready [OF assms(1) i ph fb(1) False],
            of In_idle ?W2 "(workers W ! i)\<lparr>w_pc := Idling\<rparr>"])
        (use go(1) free sub in \<open>auto simp: exec_def pool_go_idle_def fits_def\<close>)
    then show ?thesis
      using False fb(1) i go(2) by (auto simp: achieves_def no_task_def place_def worker_at_def pool_go_idle_def)
  qed
qed

lemma books_idle_turn:
  assumes "books W" and "place i Idling In_idle W" and "\<not> idle_faults i (fp_pool W)"
  shows "achieves W (idle_turn_on i W) (\<lambda>W'. place i Leaving Outside W'
    \<and> (base_stopping (p_sched (fp_pool W)) \<longleftrightarrow>
         map_option fiber_st (fs_fibers W' (ft_idle (fs_threads W i))) = Some TERMINATED))"
proof -
  let ?f = "ft_idle (fs_threads W i)" and ?W2 = "W\<lparr>fp_pool := idle_turned i (fp_pool W)\<rparr>"
  let ?stop = "base_stopping (p_sched (fp_pool W))"
  define op where "op = (if ?stop then MainFunc_leave ?f else fiber_yield ?f)"
  define upd where "upd = (if ?stop then finished else yielded)"
  have eq: "idle_turn_on i W = switch i op Outside ?W2"
    using assms(3) by (simp add: idle_turn_on_def pool_idle_turn_eq op_def Let_def)
  note at = placeE [OF assms(1,2)]
  have i: "i < length (workers W)" and pc: "w_pc (workers W ! i) = Idling"
    and ph: "ft_phase (fs_threads W i) = In_idle" by (rule at, assumption)+
  have free: "fp_locks W g \<noteq> Some i" for g by (rule at) simp
  have wat: "worker_at i Idling (fp_pool W)" using i pc by (simp add: worker_at_def)
  have ex: "exec (fs_threads W i) = Some ?f" using ph by (simp add: exec_def)
  have lv: "leaves ?f op upd" by (simp add: leaves_def op_def upd_def)
  have fin: "upd = finished \<longleftrightarrow> ?stop" using yielded_not_finished by (simp add: upd_def)
  have alive: "\<not> w_idle_term (workers W ! i)"
    using pool_inv_worker_ok [OF booksD(1) [OF assms(1)] i] pc by (simp add: worker_ok_def)
  let ?v = "(workers W ! i)\<lparr>w_pc := Leaving, w_idle_term := ?stop\<rparr>"
  have ws: "workers ?W2 = (workers W)[i := ?v]" using alive by simp
  have sub: "pool_tasks (fp_pool ?W2) \<subseteq> pool_tasks (fp_pool W)"
    by (rule pool_tasks_update [of _ _ i ?v]) (use ws in simp_all)
  have "\<exists>W' m s fb. switch i op Outside ?W2 = Inr W' \<and> books W' \<and> fp_pool W' = fp_pool ?W2
    \<and> fp_locks W' = fp_locks ?W2 \<and> ft_main (fs_threads W i) = Some m \<and> ft_sched (fs_threads W i) = Some s
    \<and> fs_fibers W ?f = Some fb \<and> fs_fibers W' = (fs_fibers W)(?f \<mapsto> (upd fb)\<lparr>m_ctx := Saved (On_stack ?f)\<rparr>)
    \<and> fs_threads W' = (fs_threads W)(i := (fs_threads W i)\<lparr>ft_fiber := Some s, ft_cur := home m s, ft_phase := Outside\<rparr>)"
    by (rule books_leave [OF assms(1) i ex lv _ _ ws])
      (use free fin sub pool_inv_idle_turn [OF booksD(1) [OF assms(1)] wat] in
        \<open>auto simp: exec_def fits_def\<close>)
  moreover have "fiber_st (upd fb) = TERMINATED \<longleftrightarrow> ?stop" for fb by (simp add: upd_def)
  moreover have "pool_step ext (fp_pool W) (idle_turned i (fp_pool W))" for ext
    using assms(3) by (intro pool_step.idle_turn [OF wat]) (simp add: pool_idle_turn_Inr)
  ultimately show ?thesis
    using i ws unfolding achieves_def eq by (auto simp: place_def worker_at_def)
qed

lemma idle_turn_faults: "idle_faults i (fp_pool W) \<Longrightarrow> idle_turn_on i W = Inl Null_pointer"
  by (simp add: idle_turn_on_def pool_idle_turn_eq)

lemma idle_turn_Inr: "idle_turn_on i W = Inr W' \<Longrightarrow> \<not> idle_faults i (fp_pool W)"
  using idle_turn_faults by fastforce

lemma books_set_hook:
  assumes "books W" and "place i (Holding t) (Inside f) W"
  shows "achieves W (Inr (fp_set_hook i b W)) (place i (Holding t) (Inside f))"
proof -
  note at = placeE [OF assms]
  have i: "i < length (workers W)" and pc: "w_pc (workers W ! i) = Holding t"
    and ph: "ft_phase (fs_threads W i) = Inside f" by (rule at, assumption)+
  have wat: "worker_at i (Holding t) (fp_pool W)" using i pc by (simp add: worker_at_def)
  let ?v = "(workers W ! i)\<lparr>w_hook := b\<rparr>"
  have sub: "pool_tasks (pool_set_hook i b (fp_pool W)) \<subseteq> pool_tasks (fp_pool W)"
    by (rule pool_tasks_update [of _ _ i ?v]) (use i pc in \<open>auto simp: pool_tasks_def\<close>)
  have "books (fp_set_hook i b W)"
    by (rule books_phase [OF assms(1) i, of _ ?v "Inside f"])
      (use sub ph booksD(3) [OF assms(1)] i pool_inv_set_hook [OF booksD(1) [OF assms(1)] i]
         books_worker [OF assms(1) i] in \<open>auto simp: fp_set_hook_def fits_def exec_def\<close>)
  then show ?thesis
    using i pc ph pool_step.set_hook [OF wat]
    by (auto simp: achieves_def place_def worker_at_def fp_set_hook_def)
qed

section \<open>All steps\<close>

lemma books_pool:
  assumes "books W" and "pool_inv p" and "p_workers p = workers W"
    and "\<And>t f. t \<in> set (m_tasks (p_sched p)) \<Longrightarrow> task_fiber t = Some f \<Longrightarrow> servable W f"
  shows "books (W\<lparr>fp_pool := p\<rparr>)"
proof -
  have "servable (W\<lparr>fp_pool := p\<rparr>) f = servable W f" for f by (simp add: servable_def assms(3))
  then show ?thesis
    using assms by (auto simp: books_def worker_books_def pool_tasks_def)
qed

lemma books_schedule:
  assumes "books W" and "\<forall>f. task_fiber t = Some f \<longrightarrow> servable W f" and "fp_schedule t W = Inr W'"
  shows "books W'"
proof -
  obtain p where p: "pool_schedule t (fp_pool W) = Inr p" "W' = W\<lparr>fp_pool := p\<rparr>"
    using assms(3) by (auto simp: fp_schedule_def res_simps)
  have "servable W f" if "u \<in> set (m_tasks (p_sched (fp_pool W)))" "task_fiber u = Some f" for u f
    using that by (intro booksD(6) [OF assms(1)]) (auto simp: pool_tasks_def)
  then show ?thesis
    unfolding p(2) using p(1) assms(2) pool_inv_schedule [OF booksD(1) [OF assms(1)] p(1)]
    by (intro books_pool [OF assms(1)]) (auto simp: pool_schedule_eq push_task_def split: if_splits)
qed

lemma books_stop:
  assumes "books W"
  shows "books (W\<lparr>fp_pool := (fp_pool W)\<lparr>p_sched := (p_sched (fp_pool W))\<lparr>m_stopping := True\<rparr>\<rparr>\<rparr>)"
proof (rule books_pool [OF assms])
  show "servable W f"
    if "t \<in> set (m_tasks (p_sched ((fp_pool W)\<lparr>p_sched := (p_sched (fp_pool W))\<lparr>m_stopping := True\<rparr>\<rparr>)))"
      "task_fiber t = Some f" for t f
    using that by (intro booksD(6) [OF assms, of t]) (auto simp: pool_tasks_def)
qed (use booksD(1) [OF assms] in \<open>simp_all add: pool_inv_def held_def\<close>)

text \<open>A fiber that goes away is one that nothing refers to.\<close>

lemma books_drop:
  assumes "books W" and "\<not> referenced W f"
  shows "books (drop_fiber f W)"
proof -
  have ctl: "space_ctl (length (workers W)) (drop_fiber f W)"
    using assms by (intro space_ctl_drop booksD(2)) (simp_all add: referenced_def)
  have keep: "servable (drop_fiber f W) g" if "servable W g" "g \<noteq> f" for g
    using that by (simp add: servable_def runs_in_scheduler_def)
  have idle: "ft_idle (fs_threads W i) \<noteq> f" if "i < length (workers W)" for i
    using assms(2) that by (auto simp: referenced_def pointed_to_def)
  have phase: "phase_fiber (ft_phase (fs_threads W i)) \<noteq> Some f" if "i < length (workers W)" for i
    using assms(2) that by (auto simp: referenced_def)
  have task: "task_fiber t \<noteq> Some f" if "t \<in> pool_tasks (fp_pool W)" for t
    using assms(2) that by (auto simp: referenced_def)
  have "worker_books (drop_fiber f W) i" if i: "i < length (workers W)" for i
    using booksD(4) [OF assms(1) i] idle [OF i] phase [OF i] keep
    by (auto simp: worker_books_def Let_def)
  moreover have "servable (drop_fiber f W) g" if "t \<in> pool_tasks (fp_pool W)" "task_fiber t = Some g" for t g
    using keep [OF booksD(6) [OF assms(1) that]] task [OF that(1)] that(2) by auto
  ultimately show ?thesis
    using ctl booksD(1,3,5) [OF assms(1)] unfolding books_def by auto
qed

lemma achieves_books: "achieves W (Inr W') post \<Longrightarrow> books W'"
  by (simp add: achieves_def)

lemma achieves_result: "achieves W r post \<Longrightarrow> r = Inr W' \<Longrightarrow> books W'"
  by (auto simp: achieves_def)

lemma leavesI: "leaves f (fiber_yield f) yielded" "leaves f (MainFunc_leave f) finished"
  by (simp_all add: leaves_def)

lemma books_fp_step: "fp_step ext W W' \<Longrightarrow> books W \<Longrightarrow> books W'"
proof (induction rule: fp_step.induct)
  case (create i t f W cb ss b)
  then show ?case by (intro books_create) (auto simp: place_def worker_at_def)
next
  case (yields i t f W W')
  then show ?case using achieves_result [OF books_leaves [OF _ _ leavesI(1)]] by (auto simp: fiber_yields_def)
next
  case (ends i t f W W')
  then show ?case using achieves_result [OF books_leaves [OF _ _ leavesI(2)]] by (auto simp: fiber_ends_def)
next
  case (idle_turn i W W')
  then show ?case using achieves_result [OF books_idle_turn [OF _ _ idle_turn_Inr]] by blast
qed (auto intro: books_schedule books_stop books_drop achieves_books [OF books_lock] achieves_books [OF books_set_hook] achieves_books [OF books_unlock]
    achieves_books [OF books_served] achieves_books [OF books_back] achieves_result [OF books_fetch]
    achieves_result [OF books_serve] achieves_result [OF books_serve_cb] achieves_result [OF books_no_task])

interpretation fiber_books: inductive_invariant fp_init "fp_step ext" books
  by unfold_locales (auto intro: books_init books_fp_step)

section \<open>Steps of the pool and inner steps\<close>

text \<open>
  How far a worker is with the fiber of its task. An inner step, one that the pool does not see,
  moves no worker, or takes one worker that holds a task further on this way, so that it makes at
  most four of them between the taking of a task and its end.
\<close>

definition phase_rank :: "phase \<Rightarrow> nat" where
  "phase_rank ph = (case ph of Locked f \<Rightarrow> 1 | Inside f \<Rightarrow> 2 | Left f \<Rightarrow> 3 | Served \<Rightarrow> 4 | _ \<Rightarrow> 0)"

definition inner_step :: "fiber_pool \<Rightarrow> fiber_pool \<Rightarrow> bool" where
  "inner_step W W' \<longleftrightarrow> fp_pool W' = fp_pool W \<and> (fs_threads W' = fs_threads W \<or>
     (\<exists>i t. worker_at i (Holding t) (fp_pool W)
        \<and> phase_rank (ft_phase (fs_threads W i)) < phase_rank (ft_phase (fs_threads W' i))
        \<and> (\<forall>j. j \<noteq> i \<longrightarrow> fs_threads W' j = fs_threads W j)))"

lemma switch_frame:
  fixes W :: fiber_pool
  assumes "switch i f ph W = Inr W'"
  shows "fp_pool W' = fp_pool W" and "ft_phase (fs_threads W' i) = ph"
    and "j \<noteq> i \<Longrightarrow> fs_threads W' j = fs_threads W j"
  using assms by (auto simp: switch_def on_thread_def res_simps set_phase_def put_view_def)

lemma serve_cb_frame:
  assumes "serve_cb i cb W = Inr W'"
  shows "fp_pool W' = fp_pool W" and "ft_phase (fs_threads W' i) = Inside (fs_fresh W)"
    and "j \<noteq> i \<Longrightarrow> fs_threads W' j = fs_threads W j"
  using switch_frame [OF assms [unfolded serve_cb_def Let_def]] by (simp_all add: lock_fiber_def)

lemma serve_fiber_frame:
  assumes "serve_fiber i f W = Inr W'"
  shows "fp_pool W' = fp_pool W" and "ft_phase (fs_threads W' i) \<in> {Inside f, Left f}"
    and "j \<noteq> i \<Longrightarrow> fs_threads W' j = fs_threads W j"
  using assms by (auto simp: serve_fiber_def res_simps dest: switch_frame split: if_splits)

lemma inner_stepI:
  assumes "place i (Holding t) ph W" and "fp_pool W' = fp_pool W"
    and "phase_rank ph < phase_rank (ft_phase (fs_threads W' i))"
    and "\<And>j. j \<noteq> i \<Longrightarrow> fs_threads W' j = fs_threads W j"
  shows "inner_step W W'"
  using assms unfolding inner_step_def place_def by blast

definition outer_step :: "bool \<Rightarrow> fiber_pool \<Rightarrow> fiber_pool \<Rightarrow> bool" where
  "outer_step ext W W' \<longleftrightarrow> fp_pool W' \<noteq> fp_pool W \<and> pool_step ext (fp_pool W) (fp_pool W')"

lemma outer_or_same:
  "pool_step ext (fp_pool W) (fp_pool W') \<Longrightarrow> fs_threads W' = fs_threads W \<Longrightarrow>
   outer_step ext W W' \<or> inner_step W W'"
  by (auto simp: outer_step_def inner_step_def)

text \<open>A step that moves a worker in the pool is a step of the pool.\<close>

lemma achieves_moves:
  assumes "achieves W r post" and "r = Inr W'" and "place i c ph W" and "\<And>W'. post W' \<Longrightarrow> \<not> worker_at i c (fp_pool W')"
  shows "outer_step ext W W'"
  using assms by (fastforce simp: achieves_def place_def outer_step_def)

lemma fp_step_pool:
  assumes "fp_step ext W W'" and b: "books W"
  shows "outer_step ext W W' \<or> inner_step W W'"
  using assms(1)
proof cases
  case (schedule t)
  then obtain p where "pool_schedule t (fp_pool W) = Inr p" "W' = W\<lparr>fp_pool := p\<rparr>"
    by (auto simp: fp_schedule_def res_simps)
  then show ?thesis using pool_step.schedule [OF schedule(1)] by (intro outer_or_same) simp_all
next
  case (fetch i)
  then show ?thesis
    by (intro disjI1 achieves_moves [OF books_fetch [OF b fetch(1)] fetch(2,1)])
      (auto simp: place_def worker_at_def)
next
  case (lock i t f)
  then show ?thesis
    by (intro disjI2 inner_stepI [OF lock(2)]) (simp_all add: lock_fiber_def phase_rank_def)
next
  case (serve i t f)
  with serve_fiber_frame [OF serve(2)] show ?thesis
    by (intro disjI2 inner_stepI [OF serve(1)]) (auto simp: phase_rank_def)
next
  case (serve_cb i t)
  with serve_cb_frame [OF serve_cb(3)] show ?thesis
    by (intro disjI2 inner_stepI [OF serve_cb(1)]) (auto simp: phase_rank_def)
next
  case (create i t f cb ss b)
  then show ?thesis by (simp add: inner_step_def)
next
  case (set_hook i t f b)
  then have "worker_at i (Holding t) (fp_pool W)" by (simp add: place_def)
  with set_hook show ?thesis
    using pool_step.set_hook by (intro outer_or_same) (simp_all add: fp_set_hook_def)
next
  case (yields i t f)
  with switch_frame [OF yields(2) [unfolded fiber_yields_def]] show ?thesis
    by (intro disjI2 inner_stepI [OF yields(1)]) (auto simp: phase_rank_def)
next
  case (ends i t f)
  with switch_frame [OF ends(2) [unfolded fiber_ends_def]] show ?thesis
    by (intro disjI2 inner_stepI [OF ends(1)]) (auto simp: phase_rank_def)
next
  case (unlock i t f)
  then show ?thesis
    by (intro disjI2 inner_stepI [OF unlock(2)]) (simp_all add: unlock_fiber_def phase_rank_def)
next
  case (served i t)
  then show ?thesis
    by (intro disjI1 achieves_moves [OF books_served [OF b served(2)] _ served(2)])
      (auto simp: place_def worker_at_def)
next
  case (no_task i)
  then show ?thesis
    by (intro disjI1 achieves_moves [OF books_no_task [OF b no_task(1)] no_task(2,1)])
      (auto simp: place_def worker_at_def)
next
  case (idle_turn i)
  then show ?thesis
    by (intro disjI1 achieves_moves [OF books_idle_turn [OF b idle_turn(1) idle_turn_Inr [OF idle_turn(2)]]
          idle_turn(2,1)]) (auto simp: place_def worker_at_def)
next
  case (leave_idle i)
  then show ?thesis
    by (intro disjI1 achieves_moves [OF books_back [OF b leave_idle(2)] _ leave_idle(2)])
      (auto simp: place_def worker_at_def)
next
  case (drop f)
  then show ?thesis by (simp add: inner_step_def)
next
  case stop
  then show ?thesis using pool_step.stop by (intro outer_or_same) simp_all
qed

text \<open>Only the end of a served task ends a task in the pool.\<close>

lemma fp_step_finished:
  assumes "fp_step ext W W'" and "books W"
  shows "p_finished (fp_pool W') = p_finished (fp_pool W)
    \<or> (\<exists>i t. place i (Holding t) Served W \<and> W' = task_served i t W)"
  using assms(1)
proof cases
  case (fetch i)
  then obtain p where p: "pool_fetch i (fp_pool W) = Inr p" "W' = W\<lparr>fp_pool := p\<rparr>"
    by (auto simp: fp_fetch_def res_simps)
  then show ?thesis
    using pool_fetch_spec [OF p(1) pool_inv_tasks [OF booksD(1) [OF assms(2)]]] by auto
next
  case (no_task i)
  then show ?thesis
    by (auto simp: no_task_def res_simps pool_go_idle_def dest!: switch_frame(1) split: if_splits)
next
  case (idle_turn i)
  then show ?thesis
    by (auto simp: idle_turn_on_def res_simps pool_idle_turn_Inr Let_def dest!: switch_frame(1))
qed (auto simp: fp_schedule_def res_simps pool_schedule_eq lock_fiber_def unlock_fiber_def fp_set_hook_def
    fiber_yields_def fiber_ends_def back_from_idle_def pool_leave_idle_def
    dest: switch_frame(1) serve_fiber_frame(1) serve_cb_frame(1))

lemma holder_stays:
  assumes "pool_step ext p p'" and "worker_at i (Holding t) p" and "p_finished p' = p_finished p"
  shows "worker_at i (Holding t) p'"
  using assms(1)
proof cases
  case (fetch k)
  then show ?thesis
    using assms(2) by (cases "k = i") (auto simp: worker_at_def pool_fetch_def res_simps)
qed (use assms(2,3) in \<open>auto simp: pool_schedule_eq pool_idle_turn_Inr pool_defs nth_list_update\<close>)

lemma fp_step_ends_task:
  assumes "fp_step ext W W'" and "books W" and "worker_at i (Holding t) (fp_pool W)"
    and "\<not> worker_at i (Holding t) (fp_pool W')"
  shows "ft_phase (fs_threads W i) = Served \<and> fp_pool W' = pool_done i t (fp_pool W)"
proof -
  have "p_finished (fp_pool W') \<noteq> p_finished (fp_pool W)"
    using fp_step_pool [OF assms(1,2)] holder_stays [OF _ assms(3)] assms(3,4) by (auto simp: inner_step_def outer_step_def)
  then obtain k u where k: "place k (Holding u) Served W" "W' = task_served k u W"
    using fp_step_finished [OF assms(1,2)] by blast
  then have "k = i" using assms(3,4) by (cases "k = i") (auto simp: task_served_def pool_done_def worker_at_def)
  with k assms(3) show ?thesis by (auto simp: place_def worker_at_def task_served_def)
qed

text \<open>The holder of a mutex comes to release it, and nobody else moves meanwhile.\<close>

definition only_moves :: "nat \<Rightarrow> fiber_pool \<Rightarrow> fiber_pool \<Rightarrow> bool" where
  "only_moves i W W' \<longleftrightarrow> fp_pool W' = fp_pool W \<and> (\<forall>j. j \<noteq> i \<longrightarrow> fs_threads W' j = fs_threads W j)"

lemma release_left:
  assumes "books W" and "place i (Holding t) (Left f) W"
  shows "\<exists>W'. (fp_step ext)\<^sup>*\<^sup>* W W' \<and> books W' \<and> fp_locks W' f = None \<and> only_moves i W W'"
  using fp_step.unlock [OF assms(2), of ext] achieves_books [OF books_unlock [OF assms]]
  by (intro exI [of _ "unlock_fiber i f W"]) (auto simp: unlock_fiber_def only_moves_def)

lemma release_inside:
  assumes "books W" and "place i (Holding t) (Inside f) W"
  shows "\<exists>W'. (fp_step ext)\<^sup>*\<^sup>* W W' \<and> books W' \<and> fp_locks W' f = None \<and> only_moves i W W'"
proof -
  obtain W1 where W1: "fiber_yields i f W = Inr W1" "books W1" "place i (Holding t) (Left f) W1"
      "only_moves i W W1"
    using books_leaves [OF assms leavesI(1)] by (auto simp: achieves_def fiber_yields_def only_moves_def)
  from release_left [OF W1(2,3)] obtain W2 where "(fp_step ext)\<^sup>*\<^sup>* W1 W2" "books W2" "fp_locks W2 f = None"
      "only_moves i W1 W2" by blast
  then show ?thesis
    using fp_step.yields [OF assms(2) W1(1)] W1(4) unfolding only_moves_def
    by (metis converse_rtranclp_into_rtranclp)
qed

lemma release:
  assumes "books W" and "fp_locks W f = Some i"
  shows "\<exists>W'. (fp_step ext)\<^sup>*\<^sup>* W W' \<and> books W' \<and> fp_locks W' f = None \<and> only_moves i W W'"
proof -
  have i: "i < length (workers W)" "phase_fiber (ft_phase (fs_threads W i)) = Some f"
    using booksD(3) [OF assms(1), of f i] assms(2) by auto
  then obtain t where t: "w_pc (workers W ! i) = Holding t"
    using books_worker(1) [OF assms(1) i(1)] by (cases "ft_phase (fs_threads W i)") (auto simp: fits_def)
  from i(2) consider "place i (Holding t) (Locked f) W" | "place i (Holding t) (Inside f) W"
    | "place i (Holding t) (Left f) W"
    using i(1) t by (cases "ft_phase (fs_threads W i)") (auto simp: place_def worker_at_def)
  then show ?thesis
  proof cases
    case 1
    obtain W1 where W1: "serve_fiber i f W = Inr W1" "books W1" "only_moves i W W1"
        "place i (Holding t) (Left f) W1 \<or> place i (Holding t) (Inside f) W1"
      using books_serve [OF assms(1) 1] by (auto simp: achieves_def only_moves_def split: if_splits)
    from W1(4) obtain W2 where "(fp_step ext)\<^sup>*\<^sup>* W1 W2" "books W2" "fp_locks W2 f = None" "only_moves i W1 W2"
      using release_left [OF W1(2)] release_inside [OF W1(2)] by blast
    then show ?thesis
      using fp_step.serve [OF 1 W1(1)] W1(3) unfolding only_moves_def
      by (metis converse_rtranclp_into_rtranclp)
  qed (use assms(1) release_left release_inside in blast)+
qed

text \<open>A task in hand can be brought to its end without any other move in the pool.\<close>

definition finishes :: "bool \<Rightarrow> nat \<Rightarrow> schedule_task \<Rightarrow> fiber_pool \<Rightarrow> bool" where
  "finishes ext i t W \<longleftrightarrow> (\<exists>W'. (fp_step ext)\<^sup>*\<^sup>* W W' \<and> fp_pool W' = pool_done i t (fp_pool W))"

lemma finishes_steps:
  "(fp_step ext)\<^sup>*\<^sup>* W W1 \<Longrightarrow> fp_pool W1 = fp_pool W \<Longrightarrow> finishes ext i t W1 \<Longrightarrow> finishes ext i t W"
  unfolding finishes_def by (metis rtranclp_trans)

lemma finishes_left:
  assumes "books W" and "place i (Holding t) (Left f) W"
  shows "finishes ext i t W"
proof -
  have p: "place i (Holding t) Served (unlock_fiber i f W)"
    using books_unlock [OF assms] by (simp add: achieves_def)
  have "(fp_step ext)\<^sup>*\<^sup>* W (task_served i t (unlock_fiber i f W))"
    using fp_step.unlock [OF assms(2)] fp_step.served [OF p]
    by (meson r_into_rtranclp rtranclp.rtrancl_into_rtrancl)
  then show ?thesis
    unfolding finishes_def
    by (intro exI [of _ "task_served i t (unlock_fiber i f W)"]) (simp add: task_served_def unlock_fiber_def)
qed

lemma finishes_inside:
  assumes "books W" and "place i (Holding t) (Inside f) W"
  shows "finishes ext i t W"
proof -
  obtain W1 where W1: "fiber_yields i f W = Inr W1" "books W1" "place i (Holding t) (Left f) W1"
      "fp_pool W1 = fp_pool W"
    using books_leaves [OF assms leavesI(1)] by (auto simp: achieves_def fiber_yields_def)
  show ?thesis
    by (rule finishes_steps [OF r_into_rtranclp [of "fp_step ext", OF fp_step.yields [OF assms(2) W1(1)]] W1(4)
          finishes_left [OF W1(2,3)]])
qed

lemma finishes_locked:
  assumes "books W" and "place i (Holding t) (Locked f) W"
  shows "finishes ext i t W"
proof -
  obtain W1 where W1: "serve_fiber i f W = Inr W1" "books W1" "fp_pool W1 = fp_pool W"
      "place i (Holding t) (Left f) W1 \<or> place i (Holding t) (Inside f) W1"
    using books_serve [OF assms] by (auto simp: achieves_def split: if_splits)
  from W1(4) have "finishes ext i t W1"
    using finishes_left [OF W1(2)] finishes_inside [OF W1(2)] by blast
  then show ?thesis
    by (rule finishes_steps [OF r_into_rtranclp [of "fp_step ext", OF fp_step.serve [OF assms(2) W1(1)]] W1(3)])
qed

lemma finishes_fiber:
  assumes "books W" and "place i (Holding t) Outside W" and "task_fiber t = Some f"
  shows "finishes ext i t W"
proof -
  obtain W1 where W1: "(fp_step ext)\<^sup>*\<^sup>* W W1" "books W1" "fp_locks W1 f = None" "fp_pool W1 = fp_pool W"
      "place i (Holding t) Outside W1"
  proof (cases "fp_locks W f")
    case None
    then show thesis using that [of W] assms(1,2) by blast
  next
    case (Some k)
    then have "k \<noteq> i" using booksD(3) [OF assms(1), of f k] assms(2) by (auto simp: place_def)
    with release [OF assms(1) Some, of ext] assms(2) that show thesis
      unfolding only_moves_def place_def by (metis (no_types, lifting))
  qed
  note l = books_lock [OF W1(2,5) assms(3) W1(3)]
  have "finishes ext i t (lock_fiber i f W1)"
    using l by (intro finishes_locked [of _ i t f]) (simp_all add: achieves_def)
  moreover have "(fp_step ext)\<^sup>*\<^sup>* W (lock_fiber i f W1)"
    using W1(1) fp_step.lock [OF W1(5) assms(3) W1(3)] by (rule rtranclp.rtrancl_into_rtrancl)
  ultimately show ?thesis
    by (rule finishes_steps [rotated 2]) (simp add: lock_fiber_def W1(4))
qed

lemma finishes_holding:
  assumes "books W" and "worker_at i (Holding t) (fp_pool W)"
  shows "finishes ext i t W"
proof -
  have i: "i < length (workers W)" and pc: "w_pc (workers W ! i) = Holding t"
    using assms(2) by (simp_all add: worker_at_def)
  have pl: "place i (Holding t) (ft_phase (fs_threads W i)) W" using assms(2) by (simp add: place_def)
  show ?thesis
  proof (cases "ft_phase (fs_threads W i)")
    case Outside
    with pl have out: "place i (Holding t) Outside W" by simp
    show ?thesis
    proof (cases "task_fiber t")
      case None
      obtain W1 where W1: "serve_cb i (task_cb t) W = Inr W1" "books W1"
          "place i (Holding t) (Inside (fs_fresh W)) W1"
        using books_serve_cb [OF assms(1) out, of "task_cb t"] by (auto simp: achieves_def)
      show ?thesis
        by (rule finishes_steps [OF r_into_rtranclp [of "fp_step ext", OF fp_step.serve_cb [OF out None W1(1)]]
              serve_cb_frame(1) [OF W1(1)] finishes_inside [OF W1(2,3)]])
    qed (rule finishes_fiber [OF assms(1) out])
  next
    case Served
    then show ?thesis
      using fp_step.served [of i t W ext] pl unfolding finishes_def
      by (intro exI [of _ "task_served i t W"]) (auto simp: task_served_def)
  next
    case In_idle
    then show ?thesis using books_worker(1) [OF assms(1) i] pc by (simp add: fits_def)
  qed (use pl assms(1) finishes_left finishes_inside finishes_locked in auto)
qed

section \<open>An example\<close>

text \<open>
  Two workers with main fibers 0 and 2 and idle fibers 1 and 3, and two tasks for fiber 4.
\<close>

definition ex_fiber_pool :: fiber_pool where
  "ex_fiber_pool = \<lparr>fs_fibers = [0 \<mapsto> ex_main, 1 \<mapsto> ex_child 1, 2 \<mapsto> ex_main, 3 \<mapsto> ex_child 3, 4 \<mapsto> ex_child 4],
     fs_fresh = 5, fs_next_id = 5, fs_count = 5,
     fs_threads = (\<lambda>i. \<lparr>ft_fiber = Some (2 * i), ft_main = Some (2 * i), ft_sched = Some (2 * i),
       ft_cur = On_thread, ft_idle = 2 * i + 1, ft_phase = Outside\<rparr>),
     fp_pool = ex_pool [fiber_task (Some 4) (- 1), fiber_task (Some 4) (- 1)], fp_locks = (\<lambda>_. None)\<rparr>"

lemma less_two: "i < 2 \<longleftrightarrow> i = 0 \<or> i = (1 :: nat)"
  by auto

lemma ex_fiber_pool_init: "fp_init ex_fiber_pool"
proof -
  have len: "length (workers ex_fiber_pool) = 2" by (simp add: ex_fiber_pool_def ex_pool_def)
  have "pool_init (fp_pool ex_fiber_pool)"
    using ex_pool_init [of "[fiber_task (Some 4) (- 1), fiber_task (Some 4) (- 1)]"]
    by (simp add: ex_fiber_pool_def fiber_task_def valid_task_def)
  moreover have "space_ctl 2 ex_fiber_pool"
    by (auto simp: space_ctl_def thread_ctl_def fiber_ctl_def exec_def home_def less_two ex_fiber_pool_def
        ex_main_def ex_child_def split: if_splits)
  ultimately show ?thesis
    unfolding fp_init_def len
    by (auto simp: less_two ex_fiber_pool_def ex_child_def servable_def runs_in_scheduler_def ex_pool_def
        ex_sched_def fiber_task_def split: if_splits)
qed

text \<open>Both workers take a task, the first one serves its fiber.\<close>

definition ex_busy :: fiber_pool where
  "ex_busy = projr (serve_fiber 0 4 (lock_fiber 0 4 (projr (fp_fetch 1 (projr (fp_fetch 0 ex_fiber_pool))))))"

lemma ex_busy:
  "reach fp_init (fp_step ext) ex_busy"
  "place 0 (Holding (fiber_task (Some 4) (- 1))) (Inside 4) ex_busy"
  "place 1 (Holding (fiber_task (Some 4) (- 1))) Outside ex_busy"
proof -
  let ?t = "fiber_task (Some 4) (- 1)"
  define W1 where "W1 = projr (fp_fetch 0 ex_fiber_pool)"
  define W2 where "W2 = projr (fp_fetch 1 W1)"
  define W3 where "W3 = lock_fiber 0 4 W2"
  note ex = ex_fiber_pool_def ex_pool_def ex_sched_def fp_fetch_def pool_fetch_def run_fetch_def fiber_task_def
    valid_task_def place_def worker_at_def
  have W1: "fp_fetch 0 ex_fiber_pool = Inr W1" "place 1 Fetching Outside W1"
    by (simp_all add: W1_def ex)
  have W2: "fp_fetch 1 W1 = Inr W2" "place 0 (Holding ?t) Outside W2" "fp_locks W2 4 = None"
    "place 1 (Holding ?t) Outside W2" "fs_fibers W2 = fs_fibers ex_fiber_pool"
    by (simp_all add: W1_def W2_def ex)
  have 0: "place 0 Fetching Outside ex_fiber_pool" by (simp add: ex)
  have r2: "reach fp_init (fp_step ext) W2" for ext
    using fp_step.fetch [OF 0 W1(1)] fp_step.fetch [OF W1(2) W2(1)]
    by (meson reach_init reach_step ex_fiber_pool_init)
  have t4: "task_fiber ?t = Some 4" by (simp add: fiber_task_def)
  have r3: "reach fp_init (fp_step ext) W3" for ext
    unfolding W3_def by (rule reach_step [OF r2 fp_step.lock [OF W2(2) t4 W2(3)]])
  have p3: "place 0 (Holding ?t) (Locked 4) W3" "place 1 (Holding ?t) Outside W3"
    using W2(2,4) by (simp_all add: W3_def lock_fiber_def place_def worker_at_def)
  have f4: "fs_fibers W3 4 = Some (ex_child 4)"
    using W2(5) by (simp add: W3_def lock_fiber_def ex_fiber_pool_def)
  obtain W4 where W4: "serve_fiber 0 4 W3 = Inr W4" "place 0 (Holding ?t) (Inside 4) W4" "books W4"
      "ft_fiber (fs_threads W4 0) = Some 4" "place 1 (Holding ?t) Outside W4"
    using books_serve [OF fiber_books.reach_inv [OF r3] p3(1)] p3(2) f4
    by (auto simp: achieves_def ex_child_def place_def)
  have "ex_busy = W4" using W4(1) by (simp add: ex_busy_def W3_def W2_def W1_def)
  with W4 reach_step [OF r3 fp_step.serve [OF p3(1) W4(1)]]
  show "reach fp_init (fp_step ext) ex_busy" "place 0 (Holding ?t) (Inside 4) ex_busy"
    "place 1 (Holding ?t) Outside ex_busy" by simp_all
qed

lemma serve_pointers:
  "serve_fiber i f W = Inr W' \<Longrightarrow> ft_main (fs_threads W' i) = ft_main (fs_threads W i)
     \<and> ft_sched (fs_threads W' i) = ft_sched (fs_threads W i)"
  by (auto simp: serve_fiber_def switch_def on_thread_def res_simps dest!: resume_pointers split: if_splits)

lemma serve_resumes:
  assumes "books W" and "place i (Holding t) (Locked f) W" and "map_option fiber_st (fs_fibers W f) \<noteq> Some TERMINATED"
  obtains W' where "serve_fiber i f W = Inr W'" "books W'" "place i (Holding t) (Inside f) W'"
    "ft_fiber (fs_threads W' i) = Some f" "ft_cur (fs_threads W' i) = On_stack f"
    "\<And>j. j \<noteq> i \<Longrightarrow> fs_threads W' j = fs_threads W j" "ft_main (fs_threads W' i) = ft_main (fs_threads W i)"
    "ft_sched (fs_threads W' i) = ft_sched (fs_threads W i)"
proof -
  obtain W' where W': "serve_fiber i f W = Inr W'" "books W'" "place i (Holding t) (Inside f) W'"
      "ft_phase (fs_threads W' i) = Inside f \<longrightarrow> ft_fiber (fs_threads W' i) = Some f
         \<and> ft_cur (fs_threads W' i) = On_stack f"
      "\<forall>j. j \<noteq> i \<longrightarrow> fs_threads W' j = fs_threads W j"
    using books_serve [OF assms(1,2)] assms(3) unfolding achieves_def by (simp only: if_False) blast
  with serve_pointers [OF W'(1)] show ?thesis
    by (intro that [OF W'(1)]) (simp_all add: place_def)
qed

section \<open>What the pool shares with the model of one thread\<close>

text \<open>Serving a task is \<open>run_dispatch\<close> on the worker's view of the fibers.\<close>

lemma view_set_phase [simp]: "view i (set_phase i ph W) = view i W"
  by (simp add: view_def)

lemma view_lock [simp]: "view i (W\<lparr>fp_locks := L\<rparr>) = view i W"
  by (simp add: view_def)

lemma serve_fiber_dispatch:
  assumes "serve_fiber i f W = Inr W'"
  shows "run_dispatch (fiber_task (Some f) thr) (view i W) = Inr (view i W')"
proof (cases "fiber_at f (view i W)")
  case (Inr fb)
  then show ?thesis
    using assms by (cases "fiber_st fb = TERMINATED"; cases "resume f (view i W)")
      (auto simp: serve_fiber_def run_dispatch_def fiber_task_def switch_def on_thread_def)
qed (use assms in \<open>simp add: serve_fiber_def\<close>)

lemma serve_cb_dispatch:
  assumes "serve_cb i cb W = Inr W'"
  shows "run_dispatch (cb_task cb thr) (view i W) = Inr (view i W')"
proof -
  let ?n = "new_fiber cb 0 True (view i W)"
  have n: "?n = (fs_fresh W, snd ?n)" by (simp add: new_fiber_def Let_def)
  have "view i (lock_fiber i (fs_fresh W) (create_fiber i cb 0 True W)) = snd ?n"
    by (simp add: lock_fiber_def create_fiber_def)
  then obtain w where "resume (fs_fresh W) (snd ?n) = Inr w" "view i W' = w"
    using assms by (auto simp: serve_cb_def Let_def switch_def on_thread_def res_simps)
  then show ?thesis using n by (simp add: run_dispatch_def cb_task_def case_prod_beta) (metis fst_conv)
qed

text \<open>The start of a thread is the prologue of \<open>run\<close> on its view.\<close>

lemma view_make_idle: "view i (make_idle i cb W) = snd (new_fiber (Some cb) 0 True (view i W))"
proof -
  have "view i (W\<lparr>fs_threads := (fs_threads W)(i := (fs_threads W i)\<lparr>ft_idle := p\<rparr>)\<rparr>) = view i W"
    for W :: "'z fiber_space_scheme" and p
    by (simp add: view_def)
  then show ?thesis by (simp add: make_idle_def Let_def create_fiber_def)
qed

lemma start_is_prologue:
  assumes "tid \<noteq> m_rootThread s" and "join_thread i W1 = Inr W2"
  shows "run_prologue tid s (l\<lparr>tl_fibers := view i W1\<rparr>) = Inr (fs_fresh W2, l\<lparr>t_hook_enable := True,
    t_scheduler := Some (m_this s), tl_fibers := view i (make_idle i (Scheduler_idle (m_this s)) W2)\<rparr>)"
proof -
  obtain p w where "GetThis (view i W1) = Inr (p, w)" "W2 = put_view i w W1"
    using assms(2) by (auto simp: join_thread_def on_thread_def res_simps)
  then show ?thesis
    using assms(1) by (simp add: run_prologue_def view_make_idle new_fiber_def Let_def)
qed

text \<open>A pool whose threads have not used fibers yet.\<close>

definition blank_pool :: "pool \<Rightarrow> fiber_pool" where
  "blank_pool p = \<lparr>fs_fibers = (\<lambda>_. None), fs_fresh = 0, fs_next_id = 0, fs_count = 0,
     fs_threads = (\<lambda>_. \<lparr>ft_fiber = None, ft_main = None, ft_sched = None, ft_cur = On_thread, ft_idle = 0,
       ft_phase = Outside\<rparr>),
     fp_pool = p, fp_locks = (\<lambda>_. None)\<rparr>"

lemma same_more:
  "fiber_space.more W' = fiber_space.more W \<Longrightarrow> fp_pool W' = fp_pool W \<and> fp_locks W' = fp_locks W"
  by (cases W; cases W') simp

section \<open>Properties\<close>

text \<open>
  The prologue of \<open>run\<close>, executed by one thread after the other of a process that has not used
  fibers, puts the pool into its initial state: each worker has its own main fiber as scheduler
  fiber and its own idle fiber.
\<close>

theorem prologue_establishes_pool:
  assumes "pool_init p" and "\<forall>t\<in>set (m_tasks (p_sched p)). task_fiber t = None"
  shows "\<exists>W. start_threads (Scheduler_idle (m_this (p_sched p))) (length (p_workers p)) (blank_pool p) = Inr W
      \<and> fp_init W \<and> fp_pool W = p"
proof -
  let ?cb = "Scheduler_idle (m_this (p_sched p))"
  obtain W where W: "start_threads ?cb (length (p_workers p)) (blank_pool p) = Inr W"
      "started (length (p_workers p)) W" "fiber_space.more W = fiber_space.more (blank_pool p)"
    using start_threads_ok [of "blank_pool p" ?cb "length (p_workers p)"]
    by (auto simp: blank_pool_def blank_def)
  have "fp_pool W = p" "fp_locks W = (\<lambda>_. None)"
    using same_more [OF W(3)] by (simp_all add: blank_pool_def)
  then show "\<exists>W. start_threads ?cb (length (p_workers p)) (blank_pool p) = Inr W \<and> fp_init W \<and> fp_pool W = p"
    using W(1,2) assms by (auto simp: fp_init_def started_def)
qed

theorem prologue_establishes_pool_witness:
  "\<exists>W. start_threads (Scheduler_idle 1) 2 (blank_pool (ex_pool [cb_task (Some (User_cb 1)) (- 1)])) = Inr W
     \<and> fp_init W"
proof -
  let ?p = "ex_pool [cb_task (Some (User_cb 1)) (- 1)]"
  have "pool_init ?p" "\<forall>t\<in>set (m_tasks (p_sched ?p)). task_fiber t = None"
    using ex_pool_init [of "[cb_task (Some (User_cb 1)) (- 1)]"]
    by (simp_all add: cb_task_def valid_task_def ex_pool_def ex_sched_def)
  from prologue_establishes_pool [OF this] show ?thesis
    by (auto simp: ex_pool_def ex_sched_def numeral_2_eq_2)
qed



text \<open>
  C12: A fiber runs on one thread at a time: it is \<open>RUNNING\<close> exactly when it is the \<open>t_fiber\<close> of a
  worker, and of one only; that worker executes the fiber's stack, and holds the fiber's mutex
  unless it is the worker's own idle fiber.
\<close>

theorem fiber_runs_on_one_worker:
  assumes "reach fp_init (fp_step ext) W" and "fs_fibers W f = Some fb" and "m_runInScheduler fb = Some True"
  shows "(fiber_st fb = RUNNING \<longleftrightarrow> (\<exists>!i. i < length (workers W) \<and> ft_fiber (fs_threads W i) = Some f))
    \<and> (\<forall>i < length (workers W). ft_fiber (fs_threads W i) = Some f \<longrightarrow>
         ft_cur (fs_threads W i) = On_stack f \<and> (fp_locks W f = Some i \<or> f = ft_idle (fs_threads W i)))"
proof -
  have b: "books W" by (rule fiber_books.reach_inv [OF assms(1)])
  note ctl = space_ctlD [OF booksD(2) [OF b]]
  have runs: "ft_fiber (fs_threads W i) = Some f \<longleftrightarrow> exec (fs_threads W i) = Some f"
    if "i < length (workers W)" for i
    using ctl(1) [OF that] sched_not_task [OF booksD(2) [OF b] that, of f] assms(2,3)
    by (cases "exec (fs_threads W i)") (auto simp: thread_ctl_def runs_in_scheduler_def)
  have "fiber_st fb = RUNNING \<longleftrightarrow> (\<exists>i < length (workers W). exec (fs_threads W i) = Some f)"
    using ctl(4) [OF assms(2)] assms(3) by (simp add: fiber_ctl_def)
  then have "fiber_st fb = RUNNING \<longleftrightarrow> (\<exists>!i. i < length (workers W) \<and> ft_fiber (fs_threads W i) = Some f)"
    using runs ctl(3) by blast
  moreover have "ft_cur (fs_threads W i) = On_stack f \<and> (fp_locks W f = Some i \<or> f = ft_idle (fs_threads W i))"
    if i: "i < length (workers W)" and e: "exec (fs_threads W i) = Some f" for i
    using ctl(1) [OF i] e booksD(3) [OF b, of f i] i
    by (auto simp: thread_ctl_def) (auto simp: exec_def split: phase.splits)
  ultimately show ?thesis using runs by blast
qed

theorem fiber_runs_on_one_worker_witness:
  "\<exists>!i. i < length (workers ex_busy) \<and> ft_fiber (fs_threads ex_busy i) = Some 4"
proof -
  have b: "books ex_busy" by (rule fiber_books.reach_inv [OF ex_busy(1)])
  have e: "0 < length (workers ex_busy)" "exec (fs_threads ex_busy 0) = Some 4"
    using ex_busy(2) by (simp_all add: place_def worker_at_def exec_def)
  obtain fb where fb: "fs_fibers ex_busy 4 = Some fb" "m_runInScheduler fb = Some True"
    using space_ctlD(1) [OF booksD(2) [OF b] e(1)] e(2) by (rule thread_ctl_execE)
  moreover have "fiber_st fb = RUNNING"
    using space_ctlD(4) [OF booksD(2) [OF b] fb(1)] fb(2) e by (auto simp: fiber_ctl_def)
  ultimately show ?thesis
    using fiber_runs_on_one_worker [OF ex_busy(1)] by simp
qed

text \<open>
  C13: A fiber migrates. When it yields on one worker, that worker is back with its own scheduler
  fiber; once the mutex is released, another worker that has a task for the fiber continues it on
  its stack, and when it yields there, it is this worker's scheduler that goes on, exactly where
  it was, while the first worker is not touched.
\<close>

theorem fiber_migrates_between_workers:
  assumes "reach fp_init (fp_step ext) W" and "place i (Holding t) (Inside f) W"
    and "place j (Holding u) Outside W" and "task_fiber u = Some f"
  shows "\<exists>W1 W2 W3. fiber_yields i f W = Inr W1
    \<and> ft_fiber (fs_threads W1 i) = ft_sched (fs_threads W i)
    \<and> ft_cur (fs_threads W1 i) = home (the (ft_main (fs_threads W i))) (the (ft_sched (fs_threads W i)))
    \<and> serve_fiber j f (lock_fiber j f (unlock_fiber i f W1)) = Inr W2
    \<and> ft_fiber (fs_threads W2 j) = Some f \<and> ft_cur (fs_threads W2 j) = ft_cur (fs_threads W i)
    \<and> fiber_yields j f W2 = Inr W3
    \<and> ft_fiber (fs_threads W3 j) = ft_fiber (fs_threads W j) \<and> ft_cur (fs_threads W3 j) = ft_cur (fs_threads W j)
    \<and> fs_threads W3 i = (fs_threads W1 i)\<lparr>ft_phase := Served\<rparr>"
proof -
  have b: "books W" by (rule fiber_books.reach_inv [OF assms(1)])
  have ij: "i < length (workers W)" "j < length (workers W)" "j \<noteq> i"
    using assms(2,3) by (auto simp: place_def worker_at_def)
  have curi: "ft_cur (fs_threads W i) = On_stack f"
    using space_ctlD(1) [OF booksD(2) [OF b] ij(1)] assms(2) by (auto simp: thread_ctl_def place_def exec_def)
  have "exec (fs_threads W j) = None" using assms(3) by (simp add: place_def exec_def)
  from thread_ctl_restE [OF space_ctlD(1) [OF booksD(2) [OF b] ij(2)] this] obtain m s where
    mj: "ft_main (fs_threads W j) = Some m" "ft_sched (fs_threads W j) = Some s"
      "ft_fiber (fs_threads W j) = Some s" "ft_cur (fs_threads W j) = home m s" by metis
  obtain W1 m' s' fb where W1: "fiber_yields i f W = Inr W1" "books W1" "place i (Holding t) (Left f) W1"
      "fp_pool W1 = fp_pool W" "ft_main (fs_threads W i) = Some m'" "ft_sched (fs_threads W i) = Some s'"
      "fs_fibers W1 = (fs_fibers W)(f \<mapsto> (yielded fb)\<lparr>m_ctx := Saved (On_stack f)\<rparr>)"
      "fs_threads W1 = (fs_threads W)(i := (fs_threads W i)\<lparr>ft_fiber := Some s', ft_cur := home m' s',
            ft_phase := Left f\<rparr>)"
    using books_leaves [OF b assms(2) leavesI(1)] by (auto simp: achieves_def fiber_yields_def)
  let ?W = "lock_fiber j f (unlock_fiber i f W1)"
  have b1: "books (unlock_fiber i f W1)" by (rule achieves_books [OF books_unlock [OF W1(2,3)]])
  have pj: "place j (Holding u) Outside (unlock_fiber i f W1)" "fp_locks (unlock_fiber i f W1) f = None"
    using assms(3) W1(4,8) ij(3) by (simp_all add: unlock_fiber_def place_def worker_at_def)
  have b2: "books ?W" "place j (Holding u) (Locked f) ?W"
    using books_lock [OF b1 pj(1) assms(4) pj(2)] by (simp_all add: achieves_def)
  have f2: "fs_fibers ?W f = Some ((yielded fb)\<lparr>m_ctx := Saved (On_stack f)\<rparr>)"
    using W1(7) by (simp add: lock_fiber_def unlock_fiber_def)
  obtain W2 where W2: "serve_fiber j f ?W = Inr W2" "books W2" "place j (Holding u) (Inside f) W2"
      "ft_fiber (fs_threads W2 j) = Some f" "ft_cur (fs_threads W2 j) = On_stack f"
      "\<And>k. k \<noteq> j \<Longrightarrow> fs_threads W2 k = fs_threads ?W k"
      "ft_main (fs_threads W2 j) = Some m" "ft_sched (fs_threads W2 j) = Some s"
    by (rule serve_resumes [OF b2]) (use f2 mj(1,2) ij(3) W1(8) in \<open>simp_all add: lock_fiber_def unlock_fiber_def\<close>)
  obtain W3 where W3: "fiber_yields j f W2 = Inr W3" "fs_threads W3 = (fs_threads W2)(j := (fs_threads W2 j)
      \<lparr>ft_fiber := Some s, ft_cur := home m s, ft_phase := Left f\<rparr>)"
    using books_leaves [OF W2(2,3) leavesI(1)] W2(7,8) by (auto simp: achieves_def fiber_yields_def)
  have "fs_threads W3 i = (fs_threads W1 i)\<lparr>ft_phase := Served\<rparr>"
    using W3(2) W2(6) ij(3) by (simp add: lock_fiber_def unlock_fiber_def)
  with W1 W2(1,4,5) W3 mj curi show ?thesis by simp
qed

theorem fiber_migrates_between_workers_witness:
  "\<exists>W1 W2 W3. fiber_yields 0 4 ex_busy = Inr W1 \<and> serve_fiber 1 4 (lock_fiber 1 4 (unlock_fiber 0 4 W1)) = Inr W2
     \<and> ft_fiber (fs_threads W2 1) = Some 4 \<and> fiber_yields 1 4 W2 = Inr W3"
  using fiber_migrates_between_workers [OF ex_busy] by (auto simp: fiber_task_def)

text \<open>
  C14: No worker waits for a mutex in vain: from every reachable state in which a worker has a task for
  a fiber, steps of the worker that holds the fiber lead to its release, and then the waiting
  worker takes the mutex and serves the fiber.
\<close>

theorem waiting_worker_gets_its_fiber:
  assumes "reach fp_init (fp_step ext) W" and "place j (Holding u) Outside W" and "task_fiber u = Some f"
  shows "\<exists>W' W''. (fp_step ext)\<^sup>*\<^sup>* W W' \<and> fp_pool W' = fp_pool W \<and> fp_locks W' f = None
    \<and> serve_fiber j f (lock_fiber j f W') = Inr W'' \<and> (fp_step ext)\<^sup>*\<^sup>* W W''
    \<and> (ft_fiber (fs_threads W'' j) = Some f \<or> map_option fiber_st (fs_fibers W' f) = Some TERMINATED)"
proof -
  have b: "books W" by (rule fiber_books.reach_inv [OF assms(1)])
  have "\<exists>W'. (fp_step ext)\<^sup>*\<^sup>* W W' \<and> books W' \<and> fp_locks W' f = None \<and> fp_pool W' = fp_pool W
      \<and> place j (Holding u) Outside W'"
  proof (cases "fp_locks W f")
    case (Some i)
    then have "i < length (workers W)" "phase_fiber (ft_phase (fs_threads W i)) = Some f"
      using booksD(3) [OF b, of f i] by auto
    then have "j \<noteq> i" using assms(2) by (auto simp: place_def)
    then show ?thesis
      using release [OF b Some] assms(2) unfolding only_moves_def place_def by (metis (no_types, lifting))
  qed (use b assms(2) in auto)
  then obtain W' where W': "(fp_step ext)\<^sup>*\<^sup>* W W'" "books W'" "fp_locks W' f = None" "fp_pool W' = fp_pool W"
      "place j (Holding u) Outside W'" by blast
  have b1: "books (lock_fiber j f W')" "place j (Holding u) (Locked f) (lock_fiber j f W')"
    using books_lock [OF W'(2,5) assms(3) W'(3)] by (simp_all add: achieves_def)
  obtain W'' where W'': "serve_fiber j f (lock_fiber j f W') = Inr W''"
      "ft_fiber (fs_threads W'' j) = Some f \<or> map_option fiber_st (fs_fibers W' f) = Some TERMINATED"
    using books_serve [OF b1] by (auto simp: achieves_def place_def lock_fiber_def split: if_splits)
  have "fp_step ext W' (lock_fiber j f W')" "fp_step ext (lock_fiber j f W') W''"
    using fp_step.lock [OF W'(5) assms(3) W'(3)] fp_step.serve [OF b1(2) W''(1)] by blast+
  then have "(fp_step ext)\<^sup>*\<^sup>* W W''" using W'(1) by (meson rtranclp.rtrancl_into_rtrancl)
  with W' W'' show ?thesis by blast
qed

theorem waiting_worker_gets_its_fiber_witness:
  "\<exists>W' W''. (fp_step True)\<^sup>*\<^sup>* ex_busy W' \<and> fp_locks W' 4 = None
     \<and> serve_fiber 1 4 (lock_fiber 1 4 W') = Inr W''"
  using waiting_worker_gets_its_fiber [OF ex_busy(1,3), of 4 True] by (auto simp: fiber_task_def)

text \<open>
  C15: No pointer to a fiber dangles: the thread-local pointers and the idle fiber of every worker, the
  fiber of every task queued or in hand, and every fiber whose mutex is held are alive, although
  fibers are destroyed as soon as nothing refers to them. They are of the kind their use needs:
  scheduler fibers trade with the main fiber, all others with the scheduler fiber.
\<close>

theorem fiber_pointers_are_alive:
  assumes "reach fp_init (fp_step ext) W"
  shows "(\<forall>i < length (workers W). \<exists>c m s g. ft_fiber (fs_threads W i) = Some c \<and> fs_fibers W c \<noteq> None
           \<and> ft_main (fs_threads W i) = Some m \<and> fs_fibers W m \<noteq> None
           \<and> ft_sched (fs_threads W i) = Some s \<and> fs_fibers W s = Some g \<and> m_runInScheduler g \<noteq> Some True
           \<and> (c = s \<or> runs_in_scheduler (fs_fibers W) c)
           \<and> runs_in_scheduler (fs_fibers W) (ft_idle (fs_threads W i)))
    \<and> (\<forall>t\<in>pool_tasks (fp_pool W). \<forall>f. task_fiber t = Some f \<longrightarrow> runs_in_scheduler (fs_fibers W) f)
    \<and> (\<forall>f i. fp_locks W f = Some i \<longrightarrow> i < length (workers W) \<and> runs_in_scheduler (fs_fibers W) f)"
proof -
  have b: "books W" by (rule fiber_books.reach_inv [OF assms])
  have "runs_in_scheduler (fs_fibers W) (ft_idle (fs_threads W i))" if "i < length (workers W)" for i
    by (rule booksE [OF b that]) (simp add: runs_in_scheduler_def)
  moreover have "\<exists>c m s g. ft_fiber (fs_threads W i) = Some c \<and> fs_fibers W c \<noteq> None
      \<and> ft_main (fs_threads W i) = Some m \<and> fs_fibers W m \<noteq> None
      \<and> ft_sched (fs_threads W i) = Some s \<and> fs_fibers W s = Some g \<and> m_runInScheduler g \<noteq> Some True
      \<and> (c = s \<or> runs_in_scheduler (fs_fibers W) c)" if "i < length (workers W)" for i
    using space_ctlD(1) [OF booksD(2) [OF b] that]
    by (cases "exec (fs_threads W i)") (fastforce simp: thread_ctl_def runs_in_scheduler_def)+
  ultimately show ?thesis
    using booksD(3,6) [OF b] books_worker(2) [OF b] unfolding servable_def by blast
qed

theorem fiber_pointers_are_alive_witness:
  "\<exists>c. ft_fiber (fs_threads ex_busy 1) = Some c \<and> fs_fibers ex_busy c \<noteq> None"
  using fiber_pointers_are_alive [OF ex_busy(1)] ex_busy(3) by (auto simp: place_def worker_at_def)

text \<open>
  C16: The pool with its fibers refines the pool without, and each task's way through its fiber is
  bounded. A step of the pool with fibers changes the pool, and then as a step of it; or it is an
  inner step: no worker moves (a fiber is made or destroyed, \<open>stop\<close> called again, a flag set to
  what it is), or one worker with a task gets further on its way (mutex, resume, back from the
  fiber, mutex released), never back. The places agree: a worker is in its idle fiber exactly when
  the pool says so, on its way through a fiber only with a task in hand, and the flag by which it
  leaves its loop is the state of its idle fiber. A task leaves a worker's hands only when it has
  been served, and is then counted as ended once; and a task in hand can always be brought to its
  end without any other move in the pool.
\<close>

theorem fiber_pool_refines_pool:
  assumes "reach fp_init (fp_step ext) W"
  shows "reach pool_init (pool_step ext) (fp_pool W)
    \<and> (\<forall>W'. fp_step ext W W' \<longrightarrow> outer_step ext W W' \<or> inner_step W W')
    \<and> (\<forall>i < length (workers W).
         (ft_phase (fs_threads W i) = In_idle \<longleftrightarrow> w_pc (workers W ! i) = Idling)
         \<and> (ft_phase (fs_threads W i) \<notin> {Outside, In_idle} \<longrightarrow> (\<exists>t. w_pc (workers W ! i) = Holding t))
         \<and> (w_idle_term (workers W ! i) \<longleftrightarrow>
              map_option fiber_st (fs_fibers W (ft_idle (fs_threads W i))) = Some TERMINATED))
    \<and> (\<forall>i t. worker_at i (Holding t) (fp_pool W) \<longrightarrow>
         (\<forall>W'. fp_step ext W W' \<and> \<not> worker_at i (Holding t) (fp_pool W') \<longrightarrow>
            ft_phase (fs_threads W i) = Served \<and> fp_pool W' = pool_done i t (fp_pool W))
         \<and> (\<exists>W'. (fp_step ext)\<^sup>*\<^sup>* W W' \<and> fp_pool W' = pool_done i t (fp_pool W)))"
proof -
  have "reach pool_init (pool_step ext) (fp_pool W)"
    using assms
  proof (induction rule: reach.induct)
    case (reach_init W)
    then show ?case by (simp add: fp_init_def reach.reach_init)
  next
    case (reach_step W W')
    then show ?case
      using fp_step_pool [OF _ fiber_books.reach_inv] unfolding inner_step_def outer_step_def by (metis reach.reach_step)
  qed
  moreover have b: "books W" by (rule fiber_books.reach_inv [OF assms])
  moreover have "w_idle_term (workers W ! i) \<longleftrightarrow>
      map_option fiber_st (fs_fibers W (ft_idle (fs_threads W i))) = Some TERMINATED"
    if "i < length (workers W)" for i
    by (rule booksE [OF b that]) simp
  ultimately show ?thesis
    using fp_step_pool [OF _ b] books_worker(1) [OF b] fp_step_ends_task [OF _ b]
      finishes_holding [OF b] unfolding fits_def finishes_def by blast
qed

theorem fiber_pool_refines_pool_witness:
  "reach pool_init (pool_step True) (fp_pool ex_busy) \<and> p_pushed (fp_pool ex_busy)
     = mset (m_tasks (p_sched (fp_pool ex_busy))) + held (fp_pool ex_busy) + p_finished (fp_pool ex_busy)"
proof -
  have "reach pool_init (pool_step True) (fp_pool ex_busy)"
    using fiber_pool_refines_pool [OF ex_busy(1)] by blast
  then show ?thesis using pool_acc.reach_inv by (auto simp: pool_inv_def)
qed

end
