(* ===== verification/Io_Manager.thy ===== *)
theory Io_Manager
  imports Timers Schedulers
begin

text \<open>
  \<open>code/ioscheduler.h\<close> and \<open>code/ioscheduler.cpp\<close>: \<open>IOManager\<close>, a scheduler that is also a timer
  manager and waits for descriptors. Its record extends the scheduler's. The \<open>FdContext\<close> objects
  live in a list by address, the vector \<open>m_fdContexts\<close> holds addresses, so that a thread may keep
  a pointer while the vector changes. What \<open>epoll_ctl\<close> and \<open>epoll_wait\<close> answer is an argument of
  the operations; \<open>io_interest\<close> records what the successful \<open>epoll_ctl\<close> calls asked for.
\<close>

section \<open>Events\<close>

text \<open>\<open>IOManager::Event\<close> and the bits of \<open><sys/epoll.h>\<close> it is compared with.\<close>

definition NONE :: u32 where "NONE = 0x0"
definition READ :: u32 where "READ = 0x1"
definition WRITE :: u32 where "WRITE = 0x4"

definition EPOLLIN :: u32 where "EPOLLIN = 0x001"
definition EPOLLOUT :: u32 where "EPOLLOUT = 0x004"
definition EPOLLERR :: u32 where "EPOLLERR = 0x008"
definition EPOLLHUP :: u32 where "EPOLLHUP = 0x010"
definition EPOLLET :: u32 where "EPOLLET = 0x80000000"

datatype ctl_op = CTL_ADD | CTL_MOD | CTL_DEL

record event_context =
  ev_scheduler :: "sched_ptr option"
  ev_fiber :: "fiber_ptr option"
  ev_cb :: "closure option"

record fd_context =
  ctx_read :: event_context
  ctx_write :: event_context
  ctx_fd :: int
  ctx_event :: u32

type_synonym ctx_ptr = nat

datatype ep_data = Data_fd int | Data_ptr ctx_ptr

record epoll_event =
  ep_events :: u32
  ep_data :: ep_data

record iomanager = scheduler +
  io_timers :: timer_manager
  m_epfd :: int
  m_tickleFds :: "int \<times> int"
  m_pendingEventCnt :: u64
  m_fdContexts :: "ctx_ptr option list"
  ctxs :: "fd_context list"                \<comment> \<open>the \<open>FdContext\<close> objects, by address\<close>
  io_interest :: "int \<Rightarrow> (u32 \<times> ep_data) option"
  io_pipe :: nat                           \<comment> \<open>bytes in the tickle pipe\<close>
  io_pipe_open :: bool
  io_foreign :: "(sched_ptr \<times> schedule_task) list"
    \<comment> \<open>tasks given to other schedulers than this one\<close>

definition empty_event_context :: event_context where
  "empty_event_context = \<lparr>ev_scheduler = None, ev_fiber = None, ev_cb = None\<rparr>"

definition new_fd_context :: "int \<Rightarrow> fd_context" where
  "new_fd_context fd = \<lparr>ctx_read = empty_event_context, ctx_write = empty_event_context,
     ctx_fd = fd, ctx_event = NONE\<rparr>"

section \<open>The scheduler's virtual functions\<close>

text \<open>\<open>IOManager::tickle\<close>; the \<open>write\<close> of one byte returns 1 as long as the pipe is open.\<close>

definition iom_tickle :: "iomanager \<Rightarrow> iomanager res" where
  "iom_tickle s =
     (if \<not> hasIdleThreads s then Inr s
      else bind_res (assert_res (io_pipe_open s)) (\<lambda>_. Inr (s\<lparr>io_pipe := io_pipe s + 1\<rparr>)))"

text \<open>\<open>IOManager::onTimerInsertedAtFront\<close>\<close>

definition onTimerInsertedAtFront :: "iomanager \<Rightarrow> iomanager res" where
  "onTimerInsertedAtFront s = iom_tickle s"

text \<open>\<open>IOManager::stopping\<close>, with the effect \<open>getNextTimer\<close> has on the timers.\<close>

definition iom_stopping :: "time_point \<Rightarrow> iomanager \<Rightarrow> bool \<times> iomanager" where
  "iom_stopping now s =
     (let (timeout, M) = getNextTimer now (io_timers s)
      in (timeout = - 1 \<and> m_pendingEventCnt s = 0 \<and> base_stopping s, s\<lparr>io_timers := M\<rparr>))"

text \<open>\<open>scheduleLock\<close> called on whatever scheduler a pointer names.\<close>

definition schedule_on :: "sched_ptr option \<Rightarrow> schedule_task \<Rightarrow> iomanager \<Rightarrow> iomanager res" where
  "schedule_on q t s =
     bind_res (deref q) (\<lambda>q.
     if q = m_this s then scheduleLock iom_tickle t s
     else Inr (s\<lparr>io_foreign := io_foreign s @ [(q, t)]\<rparr>))"

text \<open>The timer operations an \<open>IOManager\<close> inherits, with the virtual call at their end.\<close>

definition iom_addTimer ::
  "time_point \<Rightarrow> u64 \<Rightarrow> closure option \<Rightarrow> bool \<Rightarrow> iomanager \<Rightarrow> (timer_ptr \<times> iomanager) res"
where
  "iom_addTimer now ms cb recurring s =
     (let (p, M, at_front) = addTimer now ms cb recurring (io_timers s);
          s1 = s\<lparr>io_timers := M\<rparr>
      in bind_res (if at_front then onTimerInsertedAtFront s1 else Inr s1) (\<lambda>s2. Inr (p, s2)))"

definition iom_addConditionTimer ::
  "time_point \<Rightarrow> u64 \<Rightarrow> closure option \<Rightarrow> cond_ptr \<Rightarrow> bool \<Rightarrow> iomanager \<Rightarrow> (timer_ptr \<times> iomanager) res"
where
  "iom_addConditionTimer now ms cb weak_cond recurring s =
     (let (p, M, at_front) = addConditionTimer now ms cb weak_cond recurring (io_timers s);
          s1 = s\<lparr>io_timers := M\<rparr>
      in bind_res (if at_front then onTimerInsertedAtFront s1 else Inr s1) (\<lambda>s2. Inr (p, s2)))"

section \<open>Contexts\<close>

definition ctx_at :: "ctx_ptr \<Rightarrow> iomanager \<Rightarrow> fd_context res" where
  "ctx_at p s = (if p < length (ctxs s) then Inr (ctxs s ! p) else Inl Dangling_pointer)"

definition put_ctx :: "ctx_ptr \<Rightarrow> fd_context \<Rightarrow> iomanager \<Rightarrow> iomanager" where
  "put_ctx p c s = s\<lparr>ctxs := (ctxs s)[p := c]\<rparr>"

text \<open>\<open>FdContext::getEventContext\<close> and the assignment to the member it refers to.\<close>

definition getEventContext :: "u32 \<Rightarrow> fd_context \<Rightarrow> event_context res" where
  "getEventContext event c =
     bind_res (assert_res (event = READ \<or> event = WRITE)) (\<lambda>_.
     Inr (if event = READ then ctx_read c else ctx_write c))"

definition setEventContext :: "u32 \<Rightarrow> event_context \<Rightarrow> fd_context \<Rightarrow> fd_context" where
  "setEventContext event ec c =
     (if event = READ then c\<lparr>ctx_read := ec\<rparr> else c\<lparr>ctx_write := ec\<rparr>)"

definition resetEventContext :: "event_context \<Rightarrow> event_context" where
  "resetEventContext ec = ec\<lparr>ev_scheduler := None, ev_fiber := None, ev_cb := None\<rparr>"

text \<open>\<open>FdContext::triggerEvent\<close> on the object at \<open>p\<close>\<close>

definition triggerEvent :: "u32 \<Rightarrow> ctx_ptr \<Rightarrow> iomanager \<Rightarrow> iomanager res" where
  "triggerEvent event p s =
     bind_res (ctx_at p s) (\<lambda>c.
     bind_res (assert_res (ctx_event c AND event \<noteq> 0)) (\<lambda>_.
     let c1 = c\<lparr>ctx_event := ctx_event c AND NOT event\<rparr> in
     bind_res (getEventContext event c1) (\<lambda>ec.
     let (task, ec1) =
           (if ev_cb ec \<noteq> None
            then let (t, cb) = cb_task_swap (ev_cb ec) (- 1) in (t, ec\<lparr>ev_cb := cb\<rparr>)
            else let (t, f) = fiber_task_swap (ev_fiber ec) (- 1) in (t, ec\<lparr>ev_fiber := f\<rparr>)) in
     bind_res (schedule_on (ev_scheduler ec) task s) (\<lambda>s1.
     Inr (put_ctx p (setEventContext event (resetEventContext ec1) c1) s1)))))"

text \<open>\<open>IOManager::contextResize\<close>: new objects for the places that hold none.\<close>

fun fill_contexts :: "nat \<Rightarrow> nat \<Rightarrow> iomanager \<Rightarrow> iomanager" where
  "fill_contexts i 0 s = s"
| "fill_contexts i (Suc n) s =
     fill_contexts (Suc i) n
       (if m_fdContexts s ! i = None
        then s\<lparr>m_fdContexts := (m_fdContexts s)[i := Some (length (ctxs s))],
               ctxs := ctxs s @ [new_fd_context (int i)]\<rparr>
        else s)"

definition resize_vector :: "nat \<Rightarrow> 'a option list \<Rightarrow> 'a option list" where
  "resize_vector n xs = take n xs @ replicate (n - length xs) None"

definition contextResize :: "nat \<Rightarrow> iomanager \<Rightarrow> iomanager" where
  "contextResize n s = fill_contexts 0 n (s\<lparr>m_fdContexts := resize_vector n (m_fdContexts s)\<rparr>)"

text \<open>The look-up in the vector under its lock; \<open>None\<close> where the index is not below the size.\<close>

definition find_context :: "int \<Rightarrow> iomanager \<Rightarrow> ctx_ptr option res" where
  "find_context fd s =
     (if fd < int (length (m_fdContexts s))
      then bind_res (at_res (m_fdContexts s) fd) (\<lambda>p. bind_res (deref p) (\<lambda>p. Inr (Some p)))
      else Inr None)"

text \<open>What a successful \<open>epoll_ctl\<close> has asked for.\<close>

definition ctl :: "ctl_op \<Rightarrow> int \<Rightarrow> u32 \<Rightarrow> ep_data \<Rightarrow> iomanager \<Rightarrow> iomanager" where
  "ctl op fd events dat s =
     s\<lparr>io_interest := (io_interest s)(fd := if op = CTL_DEL then None else Some (events, dat))\<rparr>"

section \<open>Registering and unregistering\<close>

text \<open>\<open>IOManager::addEvent\<close> from the lock of the context on; \<open>rt\<close> is what \<open>epoll_ctl\<close> returns.\<close>

definition addEvent_locked ::
  "int \<Rightarrow> ctx_ptr \<Rightarrow> int \<Rightarrow> u32 \<Rightarrow> closure option \<Rightarrow> iomanager \<Rightarrow> thread_locals
   \<Rightarrow> (int \<times> iomanager \<times> thread_locals) res"
where
  "addEvent_locked rt p fd event cb s l =
     bind_res (ctx_at p s) (\<lambda>c.
     if ctx_event c AND event \<noteq> 0 then Inr (- 1, s, l)
     else
       let op = (if ctx_event c \<noteq> 0 then CTL_MOD else CTL_ADD) in
       if rt \<noteq> 0 then Inr (- 1, s, l)
       else
         let s1 = (ctl op fd (EPOLLET OR ctx_event c OR event) (Data_ptr p) s)
                    \<lparr>m_pendingEventCnt := m_pendingEventCnt s + 1\<rparr>;
             c1 = c\<lparr>ctx_event := ctx_event c OR event\<rparr> in
         bind_res (getEventContext event c1) (\<lambda>ec.
         bind_res (assert_res (ev_scheduler ec = None \<and> ev_fiber ec = None \<and> ev_cb ec = None)) (\<lambda>_.
         let ec1 = ec\<lparr>ev_scheduler := t_scheduler l\<rparr> in
         if cb \<noteq> None
         then Inr (0, put_ctx p (setEventContext event (ec1\<lparr>ev_cb := cb\<rparr>) c1) s1, l)
         else
           bind_res (GetThis (tl_fibers l)) (\<lambda>(f, w).
           bind_res (fiber_at f w) (\<lambda>fb.
           bind_res (assert_res (fiber_st fb = RUNNING)) (\<lambda>_.
           Inr (0, put_ctx p (setEventContext event (ec1\<lparr>ev_fiber := Some f\<rparr>) c1) s1,
                l\<lparr>tl_fibers := w\<rparr>)))))))"

text \<open>The part under the vector's lock: the vector grows by half if it is too small for \<open>fd\<close>.\<close>

definition addEvent_resize :: "int \<Rightarrow> iomanager \<Rightarrow> (ctx_ptr \<times> iomanager) res" where
  "addEvent_resize fd s =
     (let s1 = contextResize (nat (fd * 3 div 2)) s in
      bind_res (at_res (m_fdContexts s1) fd) (\<lambda>p. bind_res (deref p) (\<lambda>p. Inr (p, s1))))"

definition addEvent ::
  "int \<Rightarrow> int \<Rightarrow> u32 \<Rightarrow> closure option \<Rightarrow> iomanager \<Rightarrow> thread_locals
   \<Rightarrow> (int \<times> iomanager \<times> thread_locals) res"
where
  "addEvent rt fd event cb s l =
     bind_res (find_context fd s) (\<lambda>r.
     case r of
       Some p \<Rightarrow> addEvent_locked rt p fd event cb s l
     | None \<Rightarrow> bind_res (addEvent_resize fd s) (\<lambda>(p, s1). addEvent_locked rt p fd event cb s1 l))"

text \<open>\<open>IOManager::delEvent\<close>; the \<open>return -1\<close> of a \<open>bool\<close> function is a \<open>return true\<close>.\<close>

definition delEvent_locked :: "int \<Rightarrow> ctx_ptr \<Rightarrow> int \<Rightarrow> u32 \<Rightarrow> iomanager \<Rightarrow> (bool \<times> iomanager) res" where
  "delEvent_locked rt p fd event s =
     bind_res (ctx_at p s) (\<lambda>c.
     if ctx_event c AND event = 0 then Inr (False, s)
     else
       let new_events = ctx_event c AND NOT event;
           op = (if new_events \<noteq> 0 then CTL_MOD else CTL_DEL) in
       if rt \<noteq> 0 then Inr (True, s)
       else
         let s1 = (ctl op fd (EPOLLET OR new_events) (Data_ptr p) s)
                    \<lparr>m_pendingEventCnt := m_pendingEventCnt s - 1\<rparr>;
             c1 = c\<lparr>ctx_event := new_events\<rparr> in
         bind_res (getEventContext event c1) (\<lambda>ec.
         Inr (True, put_ctx p (setEventContext event (resetEventContext ec) c1) s1)))"

text \<open>\<open>IOManager::cancelEvent\<close>\<close>

definition cancelEvent_locked :: "int \<Rightarrow> ctx_ptr \<Rightarrow> int \<Rightarrow> u32 \<Rightarrow> iomanager \<Rightarrow> (bool \<times> iomanager) res" where
  "cancelEvent_locked rt p fd event s =
     bind_res (ctx_at p s) (\<lambda>c.
     if ctx_event c AND event = 0 then Inr (False, s)
     else
       let new_events = ctx_event c AND NOT event;
           op = (if new_events \<noteq> 0 then CTL_MOD else CTL_DEL) in
       if rt \<noteq> 0 then Inr (True, s)
       else
         let s1 = (ctl op fd (EPOLLET OR new_events) (Data_ptr p) s)
                    \<lparr>m_pendingEventCnt := m_pendingEventCnt s - 1\<rparr> in
         bind_res (triggerEvent event p s1) (\<lambda>s2. Inr (True, s2)))"

text \<open>One \<open>if\<close> of \<open>cancelAll\<close> and of \<open>idle\<close>: trigger, then count down.\<close>

definition trigger_if :: "bool \<Rightarrow> u32 \<Rightarrow> ctx_ptr \<Rightarrow> iomanager \<Rightarrow> iomanager res" where
  "trigger_if b event p s =
     (if b then bind_res (triggerEvent event p s) (\<lambda>s1.
        Inr (s1\<lparr>m_pendingEventCnt := m_pendingEventCnt s1 - 1\<rparr>))
      else Inr s)"

text \<open>\<open>IOManager::cancelAll\<close>\<close>

definition cancelAll_locked :: "int \<Rightarrow> ctx_ptr \<Rightarrow> int \<Rightarrow> iomanager \<Rightarrow> (bool \<times> iomanager) res" where
  "cancelAll_locked rt p fd s =
     bind_res (ctx_at p s) (\<lambda>c.
     if ctx_event c = 0 then Inr (False, s)
     else if rt \<noteq> 0 then Inr (True, s)
     else
       bind_res (trigger_if (ctx_event c AND READ \<noteq> 0) READ p (ctl CTL_DEL fd 0 (Data_ptr p) s)) (\<lambda>s1.
       bind_res (ctx_at p s1) (\<lambda>c1.
       bind_res (trigger_if (ctx_event c1 AND WRITE \<noteq> 0) WRITE p s1) (\<lambda>s2.
       bind_res (ctx_at p s2) (\<lambda>c2.
       bind_res (assert_res (ctx_event c2 = 0)) (\<lambda>_. Inr (True, s2)))))))"

text \<open>The three with the look-up they begin with.\<close>

definition with_context ::
  "int \<Rightarrow> (ctx_ptr \<Rightarrow> iomanager \<Rightarrow> (bool \<times> iomanager) res) \<Rightarrow> iomanager \<Rightarrow> (bool \<times> iomanager) res"
where
  "with_context fd op s =
     bind_res (find_context fd s) (\<lambda>r. case r of None \<Rightarrow> Inr (False, s) | Some p \<Rightarrow> op p s)"

definition delEvent :: "int \<Rightarrow> int \<Rightarrow> u32 \<Rightarrow> iomanager \<Rightarrow> (bool \<times> iomanager) res" where
  "delEvent rt fd event = with_context fd (\<lambda>p. delEvent_locked rt p fd event)"

definition cancelEvent :: "int \<Rightarrow> int \<Rightarrow> u32 \<Rightarrow> iomanager \<Rightarrow> (bool \<times> iomanager) res" where
  "cancelEvent rt fd event = with_context fd (\<lambda>p. cancelEvent_locked rt p fd event)"

definition cancelAll :: "int \<Rightarrow> int \<Rightarrow> iomanager \<Rightarrow> (bool \<times> iomanager) res" where
  "cancelAll rt fd = with_context fd (\<lambda>p. cancelAll_locked rt p fd)"

section \<open>The idle fiber\<close>

text \<open>The timeout handed to \<open>epoll_wait\<close>, an \<open>int\<close> of milliseconds.\<close>

definition MAX_TIMEOUT :: u64 where "MAX_TIMEOUT = 5000"

definition idle_timeout :: "time_point \<Rightarrow> iomanager \<Rightarrow> int \<times> iomanager" where
  "idle_timeout now s =
     (let (next_timeout, M) = getNextTimer now (io_timers s)
      in (s32 (uint (min next_timeout MAX_TIMEOUT)), s\<lparr>io_timers := M\<rparr>))"

text \<open>The closures of expired timers become tasks; \<open>now1\<close> and \<open>now2\<close> as in \<open>listExpireCb\<close>.\<close>

fun schedule_cbs :: "closure option list \<Rightarrow> iomanager \<Rightarrow> iomanager res" where
  "schedule_cbs [] s = Inr s"
| "schedule_cbs (cb # cbs) s =
     bind_res (scheduleLock iom_tickle (cb_task cb (- 1)) s) (schedule_cbs cbs)"

definition idle_expire :: "time_point \<Rightarrow> time_point \<Rightarrow> iomanager \<Rightarrow> iomanager res option" where
  "idle_expire now1 now2 s =
     (case listExpireCb now1 now2 (io_timers s) [] of
        None \<Rightarrow> None
      | Some (M, cbs) \<Rightarrow> Some (schedule_cbs cbs (s\<lparr>io_timers := M\<rparr>)))"

text \<open>The bits \<open>real_events\<close> of a delivered event, given what the context has registered.\<close>

definition real_events :: "u32 \<Rightarrow> u32 \<Rightarrow> u32" where
  "real_events events registered =
     (let ev = (if events AND (EPOLLERR OR EPOLLHUP) \<noteq> 0
                then events OR ((EPOLLIN OR EPOLLOUT) AND registered) else events)
      in (if ev AND EPOLLIN \<noteq> 0 then READ else NONE) OR (if ev AND EPOLLOUT \<noteq> 0 then WRITE else NONE))"

text \<open>
  One turn of the loop over the delivered events; \<open>rt2\<close> is what \<open>epoll_ctl\<close> returns. The address
  of a context never looks like the descriptor of the pipe in \<open>event.data.fd\<close>.
\<close>

definition idle_event :: "int \<Rightarrow> epoll_event \<Rightarrow> iomanager \<Rightarrow> iomanager res" where
  "idle_event rt2 e s =
     (case ep_data e of
        Data_fd fd \<Rightarrow>
          if fd = fst (m_tickleFds s) then Inr (s\<lparr>io_pipe := 0\<rparr>) else Inl Dangling_pointer
      | Data_ptr p \<Rightarrow>
          bind_res (ctx_at p s) (\<lambda>c.
          let real = real_events (ep_events e) (ctx_event c) in
          if ctx_event c AND real = NONE then Inr s
          else
            let lft = ctx_event c AND NOT real;
                op = (if lft \<noteq> 0 then CTL_MOD else CTL_DEL) in
            if rt2 \<noteq> 0 then Inr s
            else
              bind_res (trigger_if (real AND READ \<noteq> 0) READ p
                          (ctl op (ctx_fd c) (EPOLLET OR lft) (ep_data e) s)) (\<lambda>s1.
              trigger_if (real AND WRITE \<noteq> 0) WRITE p s1)))"

fun idle_events :: "(int \<times> epoll_event) list \<Rightarrow> iomanager \<Rightarrow> iomanager res" where
  "idle_events [] s = Inr s"
| "idle_events ((rt2, e) # es) s = bind_res (idle_event rt2 e s) (idle_events es)"

text \<open>
  A turn of \<open>idle\<close> after \<open>epoll_wait\<close>, up to the \<open>yield\<close>: the expired timers, then the events.
  The turns before it that ended in \<open>EINTR\<close> only read the timers again.
\<close>

definition idle_turn_body ::
  "time_point \<Rightarrow> time_point \<Rightarrow> (int \<times> epoll_event) list \<Rightarrow> iomanager \<Rightarrow> iomanager res option"
where
  "idle_turn_body now1 now2 es s =
     map_option (\<lambda>r. bind_res r (idle_events es)) (idle_expire now1 now2 s)"

text \<open>
  The whole turn: the test of \<open>stopping()\<close>, at which the fiber may end (\<open>True\<close>), the readings of
  the timers for each call of \<open>epoll_wait\<close>, of which all but the last ended in \<open>EINTR\<close>, and the body.
\<close>

definition idle_turn ::
  "time_point \<Rightarrow> time_point list \<Rightarrow> time_point \<Rightarrow> time_point \<Rightarrow> (int \<times> epoll_event) list \<Rightarrow> iomanager
   \<Rightarrow> (bool \<times> iomanager) res option"
where
  "idle_turn now0 waits now1 now2 es s =
     (let (ends, s1) = iom_stopping now0 s in
      if ends then Some (Inr (True, s1))
      else
        let s2 = fold (\<lambda>now s. snd (idle_timeout now s)) waits s1
        in map_option (\<lambda>r. bind_res r (\<lambda>s3. Inr (False, s3))) (idle_turn_body now1 now2 es s2))"

section \<open>Construction and destruction\<close>

text \<open>
  \<open>IOManager::IOManager\<close>: \<open>epfd\<close> is what \<open>epoll_create\<close> returns, \<open>rt_pipe\<close>, \<open>rt_fcntl\<close>, \<open>rt_ctl\<close>
  what \<open>pipe\<close>, \<open>fcntl\<close> and \<open>epoll_ctl\<close> return, \<open>fds\<close> the two ends of the pipe.
\<close>

definition new_iomanager ::
  "sched_ptr \<Rightarrow> int \<Rightarrow> u64 \<Rightarrow> bool \<Rightarrow> string \<Rightarrow> time_point \<Rightarrow> int \<Rightarrow> int \<times> int \<Rightarrow> int \<Rightarrow> int \<Rightarrow> int
   \<Rightarrow> (nat \<Rightarrow> (int \<times> pthread) option) \<Rightarrow> thread_locals \<Rightarrow> (iomanager \<times> thread_locals) res"
where
  "new_iomanager this tid threads use_caller name now epfd fds rt_pipe rt_fcntl rt_ctl answer l =
     bind_res (new_scheduler this tid threads use_caller name l) (\<lambda>(base, l1).
     bind_res (assert_res (epfd > 0)) (\<lambda>_.
     bind_res (assert_res (rt_pipe = 0)) (\<lambda>_.
     bind_res (assert_res (rt_fcntl = 0)) (\<lambda>_.
     bind_res (assert_res (rt_ctl = 0)) (\<lambda>_.
     let s = scheduler.extend base
               (iomanager.fields (new_manager now) epfd fds 0 [] [] (\<lambda>_. None) 0 True []);
         s1 = contextResize 32 (ctl CTL_ADD (fst fds) (EPOLLIN OR EPOLLET) (Data_fd (fst fds)) s)
     in bind_res (start answer s1) (\<lambda>s2. Inr (s2, l1)))))))"

text \<open>
  \<open>IOManager::~IOManager\<close> after its \<open>stop()\<close>: the descriptors are closed and the context objects
  of the vector deleted; then the destructor of the base class runs.
\<close>

definition delete_iomanager :: "iomanager \<Rightarrow> thread_locals \<Rightarrow> (int list \<times> ctx_ptr list \<times> thread_locals) res" where
  "delete_iomanager s l =
     bind_res (delete_scheduler (scheduler.truncate s) l) (\<lambda>l1.
     Inr ([m_epfd s, fst (m_tickleFds s), snd (m_tickleFds s)],
          map the (filter (\<lambda>p. p \<noteq> None) (m_fdContexts s)), l1))"

text \<open>\<open>IOManager::GetThis\<close>: the \<open>dynamic_cast\<close> of the thread's scheduler.\<close>

definition iom_GetThis :: "(sched_ptr \<Rightarrow> bool) \<Rightarrow> thread_locals \<Rightarrow> sched_ptr option" where
  "iom_GetThis is_iom l =
     (case t_scheduler l of None \<Rightarrow> None | Some q \<Rightarrow> if is_iom q then Some q else None)"

section \<open>What tickling and scheduling leave alone\<close>

text \<open>Scheduling on an \<open>IOManager\<close> touches its queue, the pipe, and nothing else.\<close>

definition same_io :: "iomanager \<Rightarrow> iomanager \<Rightarrow> bool" where
  "same_io s s' \<longleftrightarrow> ctxs s' = ctxs s \<and> m_pendingEventCnt s' = m_pendingEventCnt s
     \<and> m_fdContexts s' = m_fdContexts s \<and> io_interest s' = io_interest s
     \<and> io_timers s' = io_timers s \<and> m_this s' = m_this s \<and> m_stopping s' = m_stopping s
     \<and> m_tickleFds s' = m_tickleFds s \<and> m_epfd s' = m_epfd s \<and> io_pipe_open s' = io_pipe_open s
     \<and> m_activeThreadCnt s' = m_activeThreadCnt s \<and> m_idleThreadCnt s' = m_idleThreadCnt s"

lemma same_io_refl [simp]: "same_io s s"
  by (simp add: same_io_def)

lemma same_io_trans: "same_io s t \<Longrightarrow> same_io t u \<Longrightarrow> same_io s u"
  by (simp add: same_io_def)

lemma iom_tickle_eq:
  "iom_tickle s = Inr s' \<longleftrightarrow> s' = (if hasIdleThreads s then s\<lparr>io_pipe := io_pipe s + 1\<rparr> else s)
     \<and> (hasIdleThreads s \<longrightarrow> io_pipe_open s)"
  by (auto simp: iom_tickle_def res_simps)

lemma keeps_tasks_iom: "keeps_tasks iom_tickle"
  by (simp add: keeps_tasks_def iom_tickle_eq)

interpretation iom_sink: task_sink "scheduleLock iom_tickle" m_tasks
  by unfold_locales (rule scheduleLock_queue [OF keeps_tasks_iom])

lemma scheduleLock_same_io:
  "scheduleLock iom_tickle t s = Inr s' \<Longrightarrow> same_io s s'"
  by (auto simp: scheduleLock_def Let_def push_task_def iom_tickle_eq same_io_def split: if_splits)

text \<open>When the pipe is open, scheduling on an existing scheduler always succeeds.\<close>

lemma scheduleLock_ok:
  "io_pipe_open s \<Longrightarrow> \<exists>s'. scheduleLock iom_tickle t s = Inr s'"
  by (simp add: scheduleLock_def Let_def push_task_def iom_tickle_def)

lemma schedule_on_same_io: "schedule_on q t s = Inr s' \<Longrightarrow> same_io s s'"
  by (auto simp: schedule_on_def res_simps scheduleLock_same_io split: if_splits)
    (simp add: same_io_def)

lemma schedule_on_ok: "io_pipe_open s \<Longrightarrow> \<exists>s'. schedule_on (Some q) t s = Inr s'"
  using scheduleLock_ok [of s t] by (simp add: schedule_on_def)

section \<open>Well-formed contexts\<close>

definition reg_ok :: "bool \<Rightarrow> event_context \<Rightarrow> bool" where
  "reg_ok b ec \<longleftrightarrow>
     (if b then (ev_cb ec \<noteq> None) \<noteq> (ev_fiber ec \<noteq> None) else ec = empty_event_context)"

definition ctx_ok :: "fd_context \<Rightarrow> bool" where
  "ctx_ok c \<longleftrightarrow> ctx_event c \<in> {0, READ, WRITE, READ OR WRITE}
     \<and> reg_ok (ctx_event c AND READ \<noteq> 0) (ctx_read c) \<and> reg_ok (ctx_event c AND WRITE \<noteq> 0) (ctx_write c)"

definition reg_count :: "fd_context \<Rightarrow> u64" where
  "reg_count c = (if ctx_event c AND READ \<noteq> 0 then 1 else 0) + (if ctx_event c AND WRITE \<noteq> 0 then 1 else 0)"

definition iom_inv :: "iomanager \<Rightarrow> bool" where
  "iom_inv s \<longleftrightarrow> (\<forall>c\<in>set (ctxs s). ctx_ok c)
     \<and> m_pendingEventCnt s = sum_list (map reg_count (ctxs s))
     \<and> (\<forall>i p. i < length (m_fdContexts s) \<longrightarrow> m_fdContexts s ! i = Some p \<longrightarrow>
          p < length (ctxs s) \<and> ctx_fd (ctxs s ! p) = int i)"

text \<open>The bits of the two events do not meet.\<close>

lemmas event_defs = NONE_def READ_def WRITE_def

lemma event_bits [simp]:
  "READ AND READ = READ" "WRITE AND WRITE = WRITE" "READ AND WRITE = 0" "WRITE AND READ = 0"
  "READ \<noteq> 0" "WRITE \<noteq> 0" "READ \<noteq> WRITE" "WRITE \<noteq> READ" "NONE = 0"
  by (simp_all add: event_defs)

lemma event_cases:
  assumes "e \<in> {0, READ, WRITE, READ OR WRITE}"
  obtains "e = 0" | "e = 1" | "e = 4" | "e = 5"
  using assms by (auto simp: event_defs)

definition ev_of :: "u32 \<Rightarrow> fd_context \<Rightarrow> event_context" where
  "ev_of event c = (if event = READ then ctx_read c else ctx_write c)"

definition unregister :: "u32 \<Rightarrow> fd_context \<Rightarrow> fd_context" where
  "unregister event c =
     setEventContext event empty_event_context (c\<lparr>ctx_event := ctx_event c AND NOT event\<rparr>)"

definition register :: "u32 \<Rightarrow> event_context \<Rightarrow> fd_context \<Rightarrow> fd_context" where
  "register event ec c = setEventContext event ec (c\<lparr>ctx_event := ctx_event c OR event\<rparr>)"

text \<open>The task a registered event stands for.\<close>

definition event_task :: "event_context \<Rightarrow> schedule_task" where
  "event_task ec =
     (if ev_cb ec \<noteq> None then cb_task (ev_cb ec) (- 1) else fiber_task (ev_fiber ec) (- 1))"

lemma unregister_ok:
  assumes "ctx_ok c" and "event = READ \<or> event = WRITE" and "ctx_event c AND event \<noteq> 0"
  shows "ctx_ok (unregister event c)" "reg_count (unregister event c) = reg_count c - 1"
    "ctx_fd (unregister event c) = ctx_fd c" "ctx_event (unregister event c) = ctx_event c AND NOT event"
proof -
  have "ctx_event c \<in> {0, READ, WRITE, READ OR WRITE}" using assms(1) by (simp add: ctx_ok_def)
  then show "ctx_ok (unregister event c)" "reg_count (unregister event c) = reg_count c - 1"
      "ctx_fd (unregister event c) = ctx_fd c"
      "ctx_event (unregister event c) = ctx_event c AND NOT event"
    using assms by (elim event_cases; auto simp: event_defs ctx_ok_def unregister_def
        setEventContext_def reg_count_def reg_ok_def)+
qed

lemma register_ok:
  assumes "ctx_ok c" and "event = READ \<or> event = WRITE" and "ctx_event c AND event = 0"
    and "(ev_cb ec \<noteq> None) \<noteq> (ev_fiber ec \<noteq> None)"
  shows "ctx_ok (register event ec c)" "reg_count (register event ec c) = reg_count c + 1"
    "ctx_fd (register event ec c) = ctx_fd c" "ctx_event (register event ec c) = ctx_event c OR event"
proof -
  have "ctx_event c \<in> {0, READ, WRITE, READ OR WRITE}" using assms(1) by (simp add: ctx_ok_def)
  then show "ctx_ok (register event ec c)" "reg_count (register event ec c) = reg_count c + 1"
      "ctx_fd (register event ec c) = ctx_fd c"
      "ctx_event (register event ec c) = ctx_event c OR event"
    using assms by (elim event_cases; auto simp: event_defs ctx_ok_def register_def
        setEventContext_def reg_count_def reg_ok_def)+
qed

lemma ctx_at_eq_Inr [res_simps]: "ctx_at p s = Inr c \<longleftrightarrow> p < length (ctxs s) \<and> c = ctxs s ! p"
  by (auto simp: ctx_at_def)

lemma getEventContext_eq:
  "getEventContext event c =
     (if event = READ \<or> event = WRITE then Inr (ev_of event c) else Inl Assertion_failed)"
  by (auto simp: getEventContext_def ev_of_def)

lemma ev_of_event_update [simp]: "ev_of event (c\<lparr>ctx_event := x\<rparr>) = ev_of event c"
  by (simp add: ev_of_def)

lemma reset_is_empty [simp]: "resetEventContext ec = empty_event_context"
  by (cases ec) (simp add: resetEventContext_def empty_event_context_def)

lemma triggerEvent_eq:
  assumes "ctx_at p s = Inr c"
  shows "triggerEvent event p s =
     (if (event = READ \<or> event = WRITE) \<and> ctx_event c AND event \<noteq> 0
      then bind_res (schedule_on (ev_scheduler (ev_of event c)) (event_task (ev_of event c)) s) (\<lambda>s1.
             Inr (put_ctx p (unregister event c) s1))
      else Inl Assertion_failed)"
proof (cases "(event = READ \<or> event = WRITE) \<and> ctx_event c AND event \<noteq> 0")
  case True
  then show ?thesis
    using assms by (cases "ev_cb (ev_of event c)") (auto simp: triggerEvent_def Let_def
        getEventContext_eq event_task_def cb_task_swap_def fiber_task_swap_def unregister_def)
next
  case False
  then show ?thesis
    using assms by (cases "ctx_event c AND event = 0") (simp_all add: triggerEvent_def Let_def
        getEventContext_eq)
qed

section \<open>The accounts are kept\<close>

lemma iom_inv_same_io: "same_io s s' \<Longrightarrow> iom_inv s' = iom_inv s"
  by (simp add: same_io_def iom_inv_def)

lemma iom_inv_put:
  assumes "iom_inv s" and "p < length (ctxs s)" and "ctxs s' = (ctxs s)[p := c]"
    and "m_fdContexts s' = m_fdContexts s"
    and "ctx_ok c" and "ctx_fd c = ctx_fd (ctxs s ! p)"
    and "m_pendingEventCnt s' = m_pendingEventCnt s - reg_count (ctxs s ! p) + reg_count c"
  shows "iom_inv s'"
proof -
  have "m_pendingEventCnt s' = sum_list (map reg_count (ctxs s'))"
    using sum_list_update_group [OF assms(2), of reg_count c] assms(1,3,7) by (simp add: iom_inv_def)
  moreover have "\<forall>d\<in>set (ctxs s'). ctx_ok d"
    using assms(1,3,5) set_update_subset_insert [of "ctxs s" p c] by (auto simp: iom_inv_def)
  moreover have "ctx_fd (ctxs s' ! q) = ctx_fd (ctxs s ! q)" if "q < length (ctxs s)" for q
    using assms(2,3,6) that by (simp add: nth_list_update)
  ultimately show ?thesis
    using assms(1,3,4) by (auto simp: iom_inv_def)
qed

lemma iom_inv_ctx_ok: "iom_inv s \<Longrightarrow> p < length (ctxs s) \<Longrightarrow> ctx_ok (ctxs s ! p)"
  by (simp add: iom_inv_def)

lemma iom_inv_ptr:
  "iom_inv s \<Longrightarrow> i < length (m_fdContexts s) \<Longrightarrow> m_fdContexts s ! i = Some p \<Longrightarrow>
   p < length (ctxs s) \<and> ctx_fd (ctxs s ! p) = int i"
  unfolding iom_inv_def by blast

text \<open>What a trigger with its count-down does, whatever else the scheduling does.\<close>

lemma trigger_spec:
  assumes "triggerEvent event p s = Inr s'"
  shows "p < length (ctxs s) \<and> (event = READ \<or> event = WRITE) \<and> ctx_event (ctxs s ! p) AND event \<noteq> 0
    \<and> (\<exists>s1. schedule_on (ev_scheduler (ev_of event (ctxs s ! p))) (event_task (ev_of event (ctxs s ! p))) s
            = Inr s1 \<and> same_io s s1 \<and> s' = put_ctx p (unregister event (ctxs s ! p)) s1)"
proof -
  obtain c where c: "ctx_at p s = Inr c"
    using assms by (auto simp: triggerEvent_def res_simps)
  then show ?thesis
    using assms schedule_on_same_io
    by (auto simp: triggerEvent_eq [OF c] res_simps split: if_splits)
qed

lemma iom_inv_trigger_if:
  assumes "iom_inv s" and "trigger_if b event p s = Inr s'"
  shows "iom_inv s'"
proof (cases b)
  case True
  then obtain s1 where s1: "triggerEvent event p s = Inr s1"
      "s' = s1\<lparr>m_pendingEventCnt := m_pendingEventCnt s1 - 1\<rparr>"
    using assms(2) by (auto simp: trigger_if_def res_simps)
  from trigger_spec [OF s1(1)] obtain s2 where
    t: "p < length (ctxs s)" "event = READ \<or> event = WRITE" "ctx_event (ctxs s ! p) AND event \<noteq> 0"
      "same_io s s2" "s1 = put_ctx p (unregister event (ctxs s ! p)) s2" by blast
  note u = unregister_ok [OF iom_inv_ctx_ok [OF assms(1) t(1)] t(2,3)]
  show ?thesis
    by (rule iom_inv_put [OF assms(1) t(1), of _ "unregister event (ctxs s ! p)"])
      (use t(4,5) s1(2) u in \<open>simp_all add: put_ctx_def same_io_def\<close>)
qed (use assms in \<open>simp add: trigger_if_def\<close>)

lemma iom_inv_ctl [simp]: "iom_inv (ctl op fd ev d s) = iom_inv s"
  by (simp add: iom_inv_def ctl_def)

lemma ctl_sel [simp]:
  "ctxs (ctl op fd ev d s) = ctxs s"
  "m_fdContexts (ctl op fd ev d s) = m_fdContexts s"
  "m_pendingEventCnt (ctl op fd ev d s) = m_pendingEventCnt s"
  "m_tasks (ctl op fd ev d s) = m_tasks s"
  "io_timers (ctl op fd ev d s) = io_timers s"
  "m_this (ctl op fd ev d s) = m_this s"
  "io_pipe_open (ctl op fd ev d s) = io_pipe_open s"
  "io_interest (ctl op fd ev d s) = (io_interest s)(fd := if op = CTL_DEL then None else Some (ev, d))"
  by (simp_all add: ctl_def)

text \<open>The state and the context \<open>addEvent\<close> leaves behind when it returns 0.\<close>

definition registered ::
  "ctx_ptr \<Rightarrow> int \<Rightarrow> u32 \<Rightarrow> event_context \<Rightarrow> iomanager \<Rightarrow> iomanager"
where
  "registered p fd event ec s =
     (let c = ctxs s ! p in
      put_ctx p (register event ec c)
        ((ctl (if ctx_event c \<noteq> 0 then CTL_MOD else CTL_ADD) fd
             (EPOLLET OR ctx_event c OR event) (Data_ptr p) s)
         \<lparr>m_pendingEventCnt := m_pendingEventCnt s + 1\<rparr>))"

lemma empty_event_context_iff:
  "ec = empty_event_context \<longleftrightarrow> ev_scheduler ec = None \<and> ev_fiber ec = None \<and> ev_cb ec = None"
  by (cases ec) (simp add: empty_event_context_def)

lemma addEvent_locked_spec:
  assumes "addEvent_locked rt p fd event cb s l = Inr (r, s', l')"
  shows "p < length (ctxs s) \<and>
    ((r = - 1 \<and> s' = s \<and> l' = l \<and> (rt \<noteq> 0 \<or> ctx_event (ctxs s ! p) AND event \<noteq> 0))
     \<or> (r = 0 \<and> rt = 0 \<and> (event = READ \<or> event = WRITE) \<and> ctx_event (ctxs s ! p) AND event = 0
        \<and> (\<exists>f. s' = registered p fd event
              \<lparr>ev_scheduler = t_scheduler l, ev_fiber = f, ev_cb = cb\<rparr> s
            \<and> (cb = None) = (f \<noteq> None)
            \<and> (cb = None \<longrightarrow> (\<exists>g w. f = Some g \<and> GetThis (tl_fibers l) = Inr (g, w)))))) "
proof -
  let ?c = "ctxs s ! p"
  have p: "p < length (ctxs s)"
    using assms by (auto simp: addEvent_locked_def res_simps)
  show ?thesis
  proof (cases "rt \<noteq> 0 \<or> ctx_event ?c AND event \<noteq> 0")
    case True
    with assms p show ?thesis
      by (auto simp: addEvent_locked_def ctx_at_def split: if_splits)
  next
    case False
    with assms p have e: "event = READ \<or> event = WRITE"
      by (auto simp: addEvent_locked_def ctx_at_def Let_def getEventContext_eq split: if_splits)
    have "ev_of event ?c = empty_event_context"
      using assms p False e unfolding empty_event_context_iff
      by (simp add: addEvent_locked_def ctx_at_def Let_def getEventContext_eq res_simps)
    then have ec: "ev_of event ?c = \<lparr>ev_scheduler = None, ev_fiber = None, ev_cb = None\<rparr>"
      by (simp add: empty_event_context_def)
    show ?thesis
    proof (cases cb)
      case None
      then show ?thesis
        using assms p False e ec
        by (auto simp: addEvent_locked_def ctx_at_def Let_def getEventContext_eq res_simps
            registered_def register_def)
    next
      case (Some f)
      then show ?thesis
        using assms p False e ec
        by (auto simp: addEvent_locked_def ctx_at_def Let_def getEventContext_eq res_simps
            registered_def register_def)
    qed
  qed
qed

lemma iom_inv_registered:
  assumes "iom_inv s" and "p < length (ctxs s)" and "event = READ \<or> event = WRITE"
    and "ctx_event (ctxs s ! p) AND event = 0" and "(ev_cb ec \<noteq> None) \<noteq> (ev_fiber ec \<noteq> None)"
  shows "iom_inv (registered p fd event ec s)"
  by (rule iom_inv_put [OF assms(1,2), of _ "register event ec (ctxs s ! p)"])
    (use register_ok [OF iom_inv_ctx_ok [OF assms(1,2)] assms(3-5)]
      in \<open>simp_all add: registered_def Let_def put_ctx_def ctl_def\<close>)

lemma iom_inv_addEvent_locked:
  "iom_inv s \<Longrightarrow> addEvent_locked rt p fd event cb s l = Inr (r, s', l') \<Longrightarrow> iom_inv s'"
  by (drule addEvent_locked_spec) (auto intro!: iom_inv_registered)

text \<open>The other operations under the context's lock.\<close>

definition unregistered :: "ctx_ptr \<Rightarrow> int \<Rightarrow> u32 \<Rightarrow> iomanager \<Rightarrow> iomanager" where
  "unregistered p fd event s =
     (let c = ctxs s ! p; rest = ctx_event c AND NOT event in
      put_ctx p (unregister event c)
        ((ctl (if rest \<noteq> 0 then CTL_MOD else CTL_DEL) fd (EPOLLET OR rest) (Data_ptr p) s)
         \<lparr>m_pendingEventCnt := m_pendingEventCnt s - 1\<rparr>))"

lemma iom_inv_unregistered:
  assumes "iom_inv s" and "p < length (ctxs s)" and "event = READ \<or> event = WRITE"
    and "ctx_event (ctxs s ! p) AND event \<noteq> 0"
  shows "iom_inv (unregistered p fd event s)"
  by (rule iom_inv_put [OF assms(1,2), of _ "unregister event (ctxs s ! p)"])
    (use unregister_ok [OF iom_inv_ctx_ok [OF assms(1,2)] assms(3,4)]
      in \<open>simp_all add: unregistered_def Let_def put_ctx_def ctl_def\<close>)

lemma delEvent_locked_spec:
  assumes "delEvent_locked rt p fd event s = Inr (b, s')"
  shows "p < length (ctxs s) \<and> b = (ctx_event (ctxs s ! p) AND event \<noteq> 0)
    \<and> (if rt = 0 \<and> b then (event = READ \<or> event = WRITE) \<and> s' = unregistered p fd event s else s' = s)"
  using assms
  by (auto simp: delEvent_locked_def res_simps Let_def getEventContext_eq unregister_def
      unregistered_def split: if_splits)

lemma iom_inv_delEvent_locked:
  "iom_inv s \<Longrightarrow> delEvent_locked rt p fd event s = Inr (b, s') \<Longrightarrow> iom_inv s'"
  by (drule delEvent_locked_spec) (auto intro!: iom_inv_unregistered split: if_splits)

text \<open>\<open>cancelEvent\<close> also hands the task over; the order of its effects does not show.\<close>

lemma schedule_on_ctl:
  "schedule_on q t (ctl op fd ev d s\<lparr>m_pendingEventCnt := n\<rparr>) =
     map_sum id (\<lambda>s'. ctl op fd ev d s'\<lparr>m_pendingEventCnt := n\<rparr>) (schedule_on q t s)"
  by (cases q) (auto simp: schedule_on_def scheduleLock_def Let_def push_task_def ctl_def iom_tickle_def
      hasIdleThreads_def assert_res_def)

lemma cancelEvent_locked_spec:
  assumes "cancelEvent_locked rt p fd event s = Inr (b, s')"
  shows "p < length (ctxs s) \<and> b = (ctx_event (ctxs s ! p) AND event \<noteq> 0)
    \<and> (if rt = 0 \<and> b
        then (event = READ \<or> event = WRITE)
          \<and> (\<exists>s1. schedule_on (ev_scheduler (ev_of event (ctxs s ! p)))
                (event_task (ev_of event (ctxs s ! p))) s = Inr s1
              \<and> same_io s s1 \<and> s' = unregistered p fd event s1)
        else s' = s)"
proof -
  let ?c = "ctxs s ! p"
  let ?rest = "ctx_event ?c AND NOT event"
  define s0 where "s0 = (ctl (if ?rest \<noteq> 0 then CTL_MOD else CTL_DEL) fd (EPOLLET OR ?rest) (Data_ptr p) s)
      \<lparr>m_pendingEventCnt := m_pendingEventCnt s - 1\<rparr>"
  have p: "p < length (ctxs s)" using assms by (auto simp: cancelEvent_locked_def res_simps)
  show ?thesis
  proof (cases "rt = 0 \<and> ctx_event ?c AND event \<noteq> 0")
    case True
    then have t: "triggerEvent event p s0 = Inr s'" and b: b
      using assms p by (auto simp: cancelEvent_locked_def res_simps Let_def s0_def)
    have c0: "ctxs s0 = ctxs s" by (simp add: s0_def)
    from trigger_spec [OF t] obtain s1 where
      s1: "schedule_on (ev_scheduler (ev_of event ?c)) (event_task (ev_of event ?c)) s0 = Inr s1"
        "event = READ \<or> event = WRITE" "s' = put_ctx p (unregister event ?c) s1"
      unfolding c0 by blast
    then obtain s2 where s2: "schedule_on (ev_scheduler (ev_of event ?c)) (event_task (ev_of event ?c)) s = Inr s2"
        "s1 = (ctl (if ?rest \<noteq> 0 then CTL_MOD else CTL_DEL) fd (EPOLLET OR ?rest) (Data_ptr p) s2)
      \<lparr>m_pendingEventCnt := m_pendingEventCnt s - 1\<rparr>"
      unfolding s0_def schedule_on_ctl by (auto simp: map_sum_def split: sum.splits)
    then have "same_io s s2" using schedule_on_same_io by blast
    with s1 s2 p b True show ?thesis
      by (auto simp: unregistered_def Let_def same_io_def)
  next
    case False
    then show ?thesis
      using assms p by (auto simp: cancelEvent_locked_def res_simps Let_def split: if_splits)
  qed
qed

lemma iom_inv_cancelEvent_locked:
  assumes "iom_inv s" and "cancelEvent_locked rt p fd event s = Inr (b, s')"
  shows "iom_inv s'"
proof (cases "s' = s")
  case False
  with cancelEvent_locked_spec [OF assms(2)] obtain s1 where
    "p < length (ctxs s)" "ctx_event (ctxs s ! p) AND event \<noteq> 0" "event = READ \<or> event = WRITE"
    "same_io s s1" "s' = unregistered p fd event s1" by (auto split: if_splits)
  then show ?thesis
    using iom_inv_unregistered [of s1 p event fd] iom_inv_same_io [of s s1] assms(1)
    by (simp add: same_io_def)
qed (use assms(1) in simp)

lemma cancelAll_locked_cases:
  assumes "cancelAll_locked rt p fd s = Inr (b, s')"
  obtains "s' = s" "p < length (ctxs s)" "b = (ctx_event (ctxs s ! p) \<noteq> 0)" "rt \<noteq> 0 \<or> \<not> b"
  | s1 where "p < length (ctxs s)" "b" "rt = 0" "ctx_event (ctxs s ! p) \<noteq> 0"
      "trigger_if (ctx_event (ctxs s ! p) AND READ \<noteq> 0) READ p (ctl CTL_DEL fd 0 (Data_ptr p) s) = Inr s1"
      "trigger_if (ctx_event (ctxs s1 ! p) AND WRITE \<noteq> 0) WRITE p s1 = Inr s'"
      "ctx_event (ctxs s' ! p) = 0"
  using assms by (auto simp: cancelAll_locked_def res_simps split: if_splits)

lemma iom_inv_cancelAll_locked:
  assumes "iom_inv s" and "cancelAll_locked rt p fd s = Inr (b, s')"
  shows "iom_inv s'"
  using assms(2)
proof (cases rule: cancelAll_locked_cases)
  case (2 s1)
  have "iom_inv s1" by (rule iom_inv_trigger_if [OF _ 2(5)]) (simp add: assms(1))
  then show ?thesis using 2(6) by (rule iom_inv_trigger_if)
qed (use assms(1) in simp)

lemma iom_inv_idle_event:
  assumes "iom_inv s" and "idle_event rt2 e s = Inr s'"
  shows "iom_inv s'"
proof (cases "ep_data e")
  case (Data_fd fd)
  then show ?thesis using assms by (auto simp: idle_event_def iom_inv_def split: if_splits)
next
  case (Data_ptr p)
  then show ?thesis
    using assms by (auto simp: idle_event_def Let_def res_simps split: if_splits
        dest: iom_inv_trigger_if [rotated])
qed

section \<open>Growing the vector\<close>

definition fill_one :: "nat \<Rightarrow> iomanager \<Rightarrow> iomanager" where
  "fill_one i s =
     (if m_fdContexts s ! i = None
      then s\<lparr>m_fdContexts := (m_fdContexts s)[i := Some (length (ctxs s))],
             ctxs := ctxs s @ [new_fd_context (int i)]\<rparr>
      else s)"

lemma fill_contexts_Suc: "fill_contexts i (Suc n) s = fill_contexts (Suc i) n (fill_one i s)"
  by (simp add: fill_one_def)

lemma new_context_ok [simp]: "ctx_ok (new_fd_context fd)" "reg_count (new_fd_context fd) = 0"
  "ctx_fd (new_fd_context fd) = fd"
  by (simp_all add: ctx_ok_def new_fd_context_def reg_ok_def reg_count_def)

text \<open>What growing keeps: contexts stay where they are, registered places stay.\<close>

definition grown :: "iomanager \<Rightarrow> iomanager \<Rightarrow> bool" where
  "grown s s' \<longleftrightarrow> length (m_fdContexts s') = length (m_fdContexts s)
     \<and> (\<exists>cs. ctxs s' = ctxs s @ cs \<and> (\<forall>c\<in>set cs. \<exists>fd. c = new_fd_context fd))
     \<and> (\<forall>j p. j < length (m_fdContexts s) \<longrightarrow> m_fdContexts s ! j = Some p \<longrightarrow> m_fdContexts s' ! j = Some p)
     \<and> m_pendingEventCnt s' = m_pendingEventCnt s \<and> io_interest s' = io_interest s
     \<and> m_tasks s' = m_tasks s \<and> m_this s' = m_this s \<and> m_threads s' = m_threads s
     \<and> m_threadCnt s' = m_threadCnt s \<and> m_stopping s' = m_stopping s"

lemma grown_refl: "grown s s"
  by (simp add: grown_def)

lemma grown_trans: "grown s t \<Longrightarrow> grown t u \<Longrightarrow> grown s u"
  by (fastforce simp: grown_def)

lemma grown_one: "i < length (m_fdContexts s) \<Longrightarrow> grown s (fill_one i s)"
  by (auto simp: grown_def fill_one_def nth_list_update)

lemma iom_inv_fill_one: "i < length (m_fdContexts s) \<Longrightarrow> iom_inv s \<Longrightarrow> iom_inv (fill_one i s)"
  by (auto simp: iom_inv_def fill_one_def nth_list_update nth_append less_Suc_eq split: if_splits)

lemma fill_contexts_spec:
  "i + n \<le> length (m_fdContexts s) \<Longrightarrow>
   grown s (fill_contexts i n s) \<and> (iom_inv s \<longrightarrow> iom_inv (fill_contexts i n s))
   \<and> (\<forall>j. i \<le> j \<longrightarrow> j < i + n \<longrightarrow> m_fdContexts (fill_contexts i n s) ! j \<noteq> None)"
proof (induction n arbitrary: i s)
  case 0
  then show ?case by (simp add: grown_refl)
next
  case (Suc n)
  let ?s = "fill_one i s"
  have i: "i < length (m_fdContexts s)" using Suc.prems by simp
  note g = grown_one [OF i]
  have len: "Suc i + n \<le> length (m_fdContexts ?s)" using Suc.prems g by (simp add: grown_def)
  note IH = Suc.IH [OF len]
  have "m_fdContexts ?s ! i \<noteq> None" using i by (simp add: fill_one_def)
  then have at_i: "m_fdContexts (fill_contexts (Suc i) n ?s) ! i \<noteq> None"
    using IH i g unfolding grown_def by fastforce
  have "m_fdContexts (fill_contexts (Suc i) n ?s) ! j \<noteq> None" if "i \<le> j" "j < i + Suc n" for j
    using IH at_i that by (cases "j = i") auto
  then show ?case
    unfolding fill_contexts_Suc
    using IH grown_trans [OF g] iom_inv_fill_one [OF i] by blast
qed

lemma resize_vector_length [simp]: "length (resize_vector n xs) = n"
  by (simp add: resize_vector_def)

lemma resize_vector_nth:
  "j < n \<Longrightarrow> resize_vector n xs ! j = (if j < length xs then xs ! j else None)"
  by (auto simp: resize_vector_def nth_append)

lemma contextResize_spec:
  "length (m_fdContexts (contextResize n s)) = n
   \<and> (\<exists>cs. ctxs (contextResize n s) = ctxs s @ cs \<and> (\<forall>c\<in>set cs. \<exists>fd. c = new_fd_context fd))
   \<and> (\<forall>j < n. m_fdContexts (contextResize n s) ! j \<noteq> None
        \<and> (j < length (m_fdContexts s) \<longrightarrow> m_fdContexts s ! j \<noteq> None \<longrightarrow>
             m_fdContexts (contextResize n s) ! j = m_fdContexts s ! j))
   \<and> m_pendingEventCnt (contextResize n s) = m_pendingEventCnt s
   \<and> io_interest (contextResize n s) = io_interest s \<and> m_tasks (contextResize n s) = m_tasks s
   \<and> m_threads (contextResize n s) = m_threads s \<and> m_threadCnt (contextResize n s) = m_threadCnt s
   \<and> m_stopping (contextResize n s) = m_stopping s
   \<and> (iom_inv s \<longrightarrow> iom_inv (contextResize n s))"
proof -
  let ?s0 = "s\<lparr>m_fdContexts := resize_vector n (m_fdContexts s)\<rparr>"
  have "iom_inv ?s0" if "iom_inv s"
    using that by (auto simp: iom_inv_def resize_vector_nth split: if_splits)
  then show ?thesis
    using fill_contexts_spec [of 0 n ?s0]
    by (auto simp: contextResize_def grown_def resize_vector_nth)
qed

lemma fill_contexts_length: "length (ctxs (fill_contexts i n s)) \<le> length (ctxs s) + n"
proof (induction n arbitrary: i s)
  case (Suc n)
  have "length (ctxs (fill_one i s)) \<le> length (ctxs s) + 1" by (simp add: fill_one_def)
  with Suc.IH [of "Suc i" "fill_one i s"] show ?case
    unfolding fill_contexts_Suc by linarith
qed simp

lemma fill_contexts_timers: "io_timers (fill_contexts i n s) = io_timers s
    \<and> m_activeThreadCnt (fill_contexts i n s) = m_activeThreadCnt s"
  by (induction n arbitrary: i s) simp_all

section \<open>Interleaved operations\<close>

text \<open>
  A step is one critical section: of a context's lock (the pointer was looked up before, under
  the vector's lock), of the vector's lock, or of the scheduler and its counters, which leave the
  descriptors alone.
\<close>

inductive io_step :: "iomanager \<Rightarrow> iomanager \<Rightarrow> bool" where
  resize: "io_step s (contextResize n s)"
| add: "addEvent_locked rt p fd event cb s l = Inr (r, s', l') \<Longrightarrow> io_step s s'"
| del: "delEvent_locked rt p fd event s = Inr (b, s') \<Longrightarrow> io_step s s'"
| cancel: "cancelEvent_locked rt p fd event s = Inr (b, s') \<Longrightarrow> io_step s s'"
| cancel_all: "cancelAll_locked rt p fd s = Inr (b, s') \<Longrightarrow> io_step s s'"
| event: "idle_event rt e s = Inr s' \<Longrightarrow> io_step s s'"
| schedule: "scheduleLock iom_tickle t s = Inr s' \<Longrightarrow> io_step s s'"
| fetch: "run_fetch tid s = Inr (r, s', tk) \<Longrightarrow> io_step s s'"
| task_done: "io_step s (run_task_done s)"
| idle_enter: "io_step s (run_idle_enter s)"
| idle_leave: "io_step s (run_idle_leave s)"
| add_timer: "iom_addTimer now ms c r s = Inr (q, s') \<Longrightarrow> io_step s s'"
| next_timer: "io_step s (snd (iom_stopping now s))"
| expire: "idle_expire now1 now2 s = Some (Inr s') \<Longrightarrow> io_step s s'"
| stop: "io_step s (s\<lparr>m_stopping := True\<rparr>)"

definition io_init :: "iomanager \<Rightarrow> bool" where
  "io_init s \<longleftrightarrow> (\<exists>this tid n uc name now epfd fds a b c answer l l'.
     new_iomanager this tid n uc name now epfd fds a b c answer l = Inr (s, l'))"

lemma iom_inv_cong:
  "ctxs s' = ctxs s \<Longrightarrow> m_pendingEventCnt s' = m_pendingEventCnt s \<Longrightarrow>
   m_fdContexts s' = m_fdContexts s \<Longrightarrow> iom_inv s' = iom_inv s"
  by (simp add: iom_inv_def)

lemma schedule_cbs_same_io: "schedule_cbs cbs s = Inr s' \<Longrightarrow> same_io s s'"
  by (induction cbs arbitrary: s) (auto simp: res_simps dest: scheduleLock_same_io intro: same_io_trans)

lemma iom_addTimer_frame:
  "iom_addTimer now ms c r s = Inr (q, s') \<Longrightarrow> ctxs s' = ctxs s
   \<and> m_pendingEventCnt s' = m_pendingEventCnt s \<and> m_fdContexts s' = m_fdContexts s \<and> m_tasks s' = m_tasks s"
  by (auto simp: iom_addTimer_def Let_def res_simps onTimerInsertedAtFront_def iom_tickle_eq
      split: prod.splits if_splits)

lemma start_loop_frame:
  "start_loop answer is s = Inr s' \<Longrightarrow> ctxs s' = ctxs s
   \<and> m_pendingEventCnt s' = m_pendingEventCnt s \<and> m_fdContexts s' = m_fdContexts s"
  for s :: iomanager
  by (induction "is" arbitrary: s) (auto simp: res_simps)

lemma iom_inv_step:
  assumes "iom_inv s" and "io_step s s'"
  shows "iom_inv s'"
  using assms(2)
proof cases
  case (resize n)
  then show ?thesis using assms(1) contextResize_spec by blast
next
  case (schedule t)
  then show ?thesis using assms(1) scheduleLock_same_io iom_inv_same_io by blast
next
  case (fetch tid r tk)
  then show ?thesis using assms(1) by (auto simp: run_fetch_def res_simps iom_inv_def)
next
  case (add_timer now ms c r q)
  then show ?thesis using assms(1) iom_addTimer_frame iom_inv_cong by blast
next
  case (expire now1 now2)
  then obtain M cbs where "schedule_cbs cbs (s\<lparr>io_timers := M\<rparr>) = Inr s'"
    by (auto simp: idle_expire_def split: option.splits)
  from iom_inv_same_io [OF schedule_cbs_same_io [OF this]] show ?thesis
    using assms(1) by (simp add: iom_inv_def)
next
  case (add rt p fd event cb l r l')
  then show ?thesis using assms(1) iom_inv_addEvent_locked by blast
next
  case (del rt p fd event b)
  then show ?thesis using assms(1) iom_inv_delEvent_locked by blast
next
  case (cancel rt p fd event b)
  then show ?thesis using assms(1) iom_inv_cancelEvent_locked by blast
next
  case (cancel_all rt p fd b)
  then show ?thesis using assms(1) iom_inv_cancelAll_locked by blast
next
  case (event rt e)
  then show ?thesis using assms(1) iom_inv_idle_event by blast
next
  case (next_timer now)
  then show ?thesis using assms(1) by (simp add: iom_stopping_def case_prod_beta iom_inv_def)
qed (use assms(1) in \<open>simp_all add: run_task_done_def run_idle_enter_def run_idle_leave_def iom_inv_def\<close>)

lemma iom_inv_init:
  assumes "io_init s"
  shows "iom_inv s"
proof -
  from assms obtain base fds epfd now answer where
    st: "start answer (contextResize 32 (ctl CTL_ADD (fst fds) (EPOLLIN OR EPOLLET) (Data_fd (fst fds))
      (scheduler.extend base (iomanager.fields (new_manager now) epfd fds 0 [] [] (\<lambda>_. None) 0 True []))))
      = Inr s" (is "start answer (contextResize 32 (ctl _ _ _ _ ?s0)) = _")
    by (auto simp: io_init_def new_iomanager_def res_simps Let_def)
  have "iom_inv ?s0"
    by (simp add: iom_inv_def scheduler.defs iomanager.defs)
  then have "iom_inv (contextResize 32 (ctl CTL_ADD (fst fds) (EPOLLIN OR EPOLLET) (Data_fd (fst fds)) ?s0))"
    (is "iom_inv ?s1") using contextResize_spec by simp
  moreover have "ctxs s = ctxs ?s1 \<and> m_pendingEventCnt s = m_pendingEventCnt ?s1
      \<and> m_fdContexts s = m_fdContexts ?s1"
    using st start_loop_frame by (auto simp: start_def res_simps split: if_splits dest!: start_loop_frame)
  ultimately show ?thesis using iom_inv_cong by metis
qed

interpretation io_acc: inductive_invariant io_init io_step iom_inv
  by unfold_locales (auto intro: iom_inv_init iom_inv_step)

section \<open>Facts for the properties\<close>

lemma unregister_register:
  assumes "ctx_ok c" and "event = READ \<or> event = WRITE" and "ctx_event c AND event = 0"
  shows "unregister event (register event ec c) = c" "ev_of event (register event ec c) = ec"
    "(ctx_event c OR event) AND NOT event = ctx_event c" "(ctx_event c OR event) AND event \<noteq> 0"
proof -
  have "ctx_event c \<in> {0, READ, WRITE, READ OR WRITE}" using assms(1) by (simp add: ctx_ok_def)
  then show "unregister event (register event ec c) = c" "ev_of event (register event ec c) = ec"
      "(ctx_event c OR event) AND NOT event = ctx_event c" "(ctx_event c OR event) AND event \<noteq> 0"
    using assms by (elim event_cases; cases c; auto simp: event_defs ctx_ok_def register_def unregister_def
        setEventContext_def reg_ok_def ev_of_def)+
qed

lemma unregistered_event_empty:
  assumes "ctx_ok c" and "event = READ \<or> event = WRITE" and "ctx_event c AND event = 0"
  shows "ev_of event c = empty_event_context"
  using assms by (auto simp: ctx_ok_def reg_ok_def ev_of_def split: if_splits)

lemma addEvent_locked_registers:
  assumes "iom_inv s" and "p < length (ctxs s)" and "event = READ \<or> event = WRITE"
    and "ctx_event (ctxs s ! p) AND event = 0"
    and "cb = None \<Longrightarrow> GetThis (tl_fibers l) = Inr (f, w) \<and> (\<exists>fb. fibers w f = Some fb \<and> fiber_st fb = RUNNING)"
  shows "addEvent_locked 0 p fd event cb s l = Inr (0,
      registered p fd event \<lparr>ev_scheduler = t_scheduler l,
         ev_fiber = (if cb = None then Some f else None), ev_cb = cb\<rparr> s,
      if cb = None then l\<lparr>tl_fibers := w\<rparr> else l)"
proof -
  have "ev_of event (ctxs s ! p) = empty_event_context"
    using unregistered_event_empty [OF iom_inv_ctx_ok [OF assms(1,2)] assms(3,4)] .
  then have "ev_of event (ctxs s ! p) = \<lparr>ev_scheduler = None, ev_fiber = None, ev_cb = None\<rparr>"
    by (simp add: empty_event_context_def)
  then show ?thesis
    using assms(2-5) by (cases cb) (auto simp: addEvent_locked_def ctx_at_def Let_def getEventContext_eq
        registered_def register_def)
qed

lemma find_context_in:
  "0 \<le> fd \<Longrightarrow> nat fd < length (m_fdContexts s) \<Longrightarrow> m_fdContexts s ! nat fd = Some p \<Longrightarrow>
   find_context fd s = Inr (Some p)"
  by (auto simp: find_context_def at_res_def)

text \<open>The fields \<open>registered\<close> and \<open>unregistered\<close> leave alone.\<close>

lemma registered_sel [simp]:
  "ctxs (registered p fd event ec s) = (ctxs s)[p := register event ec (ctxs s ! p)]"
  "m_fdContexts (registered p fd event ec s) = m_fdContexts s"
  "m_tasks (registered p fd event ec s) = m_tasks s"
  "io_timers (registered p fd event ec s) = io_timers s"
  "m_this (registered p fd event ec s) = m_this s"
  "io_pipe_open (registered p fd event ec s) = io_pipe_open s"
  "m_pendingEventCnt (registered p fd event ec s) = m_pendingEventCnt s + 1"
  "io_interest (registered p fd event ec s) = (io_interest s)
     (fd \<mapsto> (EPOLLET OR ctx_event (ctxs s ! p) OR event, Data_ptr p))"
  by (auto simp: registered_def Let_def put_ctx_def ctl_def)

lemma unregistered_sel [simp]:
  "ctxs (unregistered p fd event s) = (ctxs s)[p := unregister event (ctxs s ! p)]"
  "m_fdContexts (unregistered p fd event s) = m_fdContexts s"
  "m_tasks (unregistered p fd event s) = m_tasks s"
  "m_this (unregistered p fd event s) = m_this s"
  "io_pipe_open (unregistered p fd event s) = io_pipe_open s"
  "io_timers (unregistered p fd event s) = io_timers s"
  "m_pendingEventCnt (unregistered p fd event s) = m_pendingEventCnt s - 1"
  "io_interest (unregistered p fd event s) = (io_interest s)
     (fd := if ctx_event (ctxs s ! p) AND NOT event = 0 then None
            else Some (EPOLLET OR (ctx_event (ctxs s ! p) AND NOT event), Data_ptr p))"
  by (auto simp: unregistered_def Let_def put_ctx_def ctl_def)

lemma event_task_valid: "(ev_cb ec \<noteq> None) \<noteq> (ev_fiber ec \<noteq> None) \<Longrightarrow> valid_task (event_task ec)"
  by (auto simp: event_task_def cb_task_def fiber_task_def valid_task_def)

text \<open>Scheduling on this very manager while the pipe is open.\<close>

lemma schedule_on_this:
  assumes "q = Some (m_this s)" and "io_pipe_open s"
  shows "\<exists>s'. schedule_on q t s = Inr s' \<and> same_io s s'
    \<and> m_tasks s' = m_tasks s @ (if valid_task t then [t] else [])"
proof -
  obtain s' where s': "scheduleLock iom_tickle t s = Inr s'" using scheduleLock_ok [OF assms(2)] by blast
  then show ?thesis
    using assms(1) iom_sink.sched_queue [OF s'] scheduleLock_same_io [OF s']
    by (simp add: schedule_on_def)
qed

lemma cancelEvent_locked_cancels:
  assumes "iom_inv s" and "p < length (ctxs s)" and "event = READ \<or> event = WRITE"
    and "ctx_event (ctxs s ! p) AND event \<noteq> 0" and "io_pipe_open s"
    and "ev_scheduler (ev_of event (ctxs s ! p)) = Some (m_this s)"
  shows "\<exists>s1. cancelEvent_locked 0 p fd event s = Inr (True, unregistered p fd event s1) \<and> same_io s s1
    \<and> m_tasks s1 = m_tasks s @ [event_task (ev_of event (ctxs s ! p))]"
proof -
  let ?c = "ctxs s ! p"
  let ?rest = "ctx_event ?c AND NOT event"
  let ?ec = "ev_of event ?c"
  have ok: "ctx_ok ?c" using assms(1,2) by (rule iom_inv_ctx_ok)
  then have v: "valid_task (event_task ?ec)"
    using assms(3,4) by (intro event_task_valid) (auto simp: ctx_ok_def reg_ok_def ev_of_def)
  obtain s1 where s1: "schedule_on (ev_scheduler ?ec) (event_task ?ec) s = Inr s1" "same_io s s1"
      "m_tasks s1 = m_tasks s @ [event_task ?ec]"
    using schedule_on_this [OF assms(6,5), of "event_task ?ec"] v by auto
  let ?s0 = "(ctl (if ?rest \<noteq> 0 then CTL_MOD else CTL_DEL) fd (EPOLLET OR ?rest) (Data_ptr p) s)
      \<lparr>m_pendingEventCnt := m_pendingEventCnt s - 1\<rparr>"
  have "triggerEvent event p ?s0 = Inr (unregistered p fd event s1)"
    using assms(2-4) s1(1,2)
    by (subst triggerEvent_eq [of p _ ?c])
      (auto simp: ctx_at_def schedule_on_ctl unregistered_def Let_def same_io_def)
  then have "cancelEvent_locked 0 p fd event s = Inr (True, unregistered p fd event s1)"
    using assms(2,4) by (simp add: cancelEvent_locked_def ctx_at_def Let_def)
  with s1 show ?thesis by blast
qed

text \<open>One event fires.\<close>

definition fired :: "u32 \<Rightarrow> ctx_ptr \<Rightarrow> iomanager \<Rightarrow> iomanager \<Rightarrow> bool" where
  "fired event p s s' \<longleftrightarrow> ctxs s' = (ctxs s)[p := unregister event (ctxs s ! p)]
     \<and> m_tasks s' = m_tasks s @ [event_task (ev_of event (ctxs s ! p))]
     \<and> m_pendingEventCnt s' = m_pendingEventCnt s - 1 \<and> io_interest s' = io_interest s
     \<and> m_this s' = m_this s \<and> io_pipe_open s' = io_pipe_open s \<and> m_fdContexts s' = m_fdContexts s
     \<and> io_timers s' = io_timers s"

lemma trigger_if_fires:
  assumes "ctx_ok (ctxs s ! p)" and "p < length (ctxs s)" and "event = READ \<or> event = WRITE"
    and "ctx_event (ctxs s ! p) AND event \<noteq> 0" and "io_pipe_open s"
    and "ev_scheduler (ev_of event (ctxs s ! p)) = Some (m_this s)"
  shows "\<exists>s'. trigger_if True event p s = Inr s' \<and> fired event p s s'"
proof -
  let ?ec = "ev_of event (ctxs s ! p)"
  have "valid_task (event_task ?ec)"
    using assms(1,3,4) by (intro event_task_valid) (auto simp: ctx_ok_def reg_ok_def ev_of_def)
  then obtain s1 where s1: "schedule_on (ev_scheduler ?ec) (event_task ?ec) s = Inr s1" "same_io s s1"
      "m_tasks s1 = m_tasks s @ [event_task ?ec]"
    using schedule_on_this [OF assms(6,5), of "event_task ?ec"] by auto
  have "triggerEvent event p s = Inr (put_ctx p (unregister event (ctxs s ! p)) s1)"
    using assms(2-4) s1(1) by (subst triggerEvent_eq [of p _ "ctxs s ! p"]) (auto simp: ctx_at_def)
  then show ?thesis
    using s1 by (simp add: trigger_if_def fired_def put_ctx_def same_io_def)
qed

lemma trigger_if_maybe:
  assumes "ctx_ok (ctxs s ! p)" and "p < length (ctxs s)" and "event = READ \<or> event = WRITE"
    and "b \<Longrightarrow> ctx_event (ctxs s ! p) AND event \<noteq> 0" and "io_pipe_open s"
    and "b \<Longrightarrow> ev_scheduler (ev_of event (ctxs s ! p)) = Some (m_this s)"
  shows "\<exists>s'. trigger_if b event p s = Inr s' \<and> (if b then fired event p s s' else s' = s)"
proof (cases b)
  case True
  then show ?thesis
    using trigger_if_fires [OF assms(1-3) assms(4) assms(5) assms(6)] by simp
next
  case False
  then show ?thesis by (simp add: trigger_if_def)
qed

lemma unregister_other:
  assumes "ctx_ok c"
  shows "ev_of WRITE (unregister READ c) = ev_of WRITE c"
    "ctx_event (unregister READ c) AND WRITE = ctx_event c AND WRITE"
proof -
  have "ctx_event c \<in> {0, READ, WRITE, READ OR WRITE}" using assms by (simp add: ctx_ok_def)
  then show "ev_of WRITE (unregister READ c) = ev_of WRITE c"
    "ctx_event (unregister READ c) AND WRITE = ctx_event c AND WRITE"
    by (elim event_cases; simp add: event_defs unregister_def setEventContext_def ev_of_def)+
qed

text \<open>Both events of a context, each if asked for, reading first.\<close>

definition event_tasks :: "bool \<Rightarrow> bool \<Rightarrow> fd_context \<Rightarrow> schedule_task list" where
  "event_tasks br bw c =
     (if br then [event_task (ctx_read c)] else []) @ (if bw then [event_task (ctx_write c)] else [])"

lemma trigger_both:
  assumes ok: "ctx_ok (ctxs s ! p)" and p: "p < length (ctxs s)" and "io_pipe_open s"
    and r: "br \<Longrightarrow> ctx_event (ctxs s ! p) AND READ \<noteq> 0 \<and> ev_scheduler (ctx_read (ctxs s ! p)) = Some (m_this s)"
    and w: "bw \<Longrightarrow> ctx_event (ctxs s ! p) AND WRITE \<noteq> 0 \<and> ev_scheduler (ctx_write (ctxs s ! p)) = Some (m_this s)"
  shows "\<exists>s1 s2. trigger_if br READ p s = Inr s1 \<and> trigger_if bw WRITE p s1 = Inr s2
    \<and> m_tasks s2 = m_tasks s @ event_tasks br bw (ctxs s ! p)
    \<and> m_pendingEventCnt s2 = m_pendingEventCnt s - (if br then 1 else 0) - (if bw then 1 else 0)
    \<and> io_interest s2 = io_interest s
    \<and> p < length (ctxs s1) \<and> ctx_event (ctxs s1 ! p) AND WRITE = ctx_event (ctxs s ! p) AND WRITE
    \<and> p < length (ctxs s2)
    \<and> ctx_event (ctxs s2 ! p) =
        ctx_event (ctxs s ! p) AND NOT ((if br then READ else 0) OR (if bw then WRITE else 0))
    \<and> (\<forall>q. q \<noteq> p \<longrightarrow> ctxs s2 ! q = ctxs s ! q) \<and> length (ctxs s2) = length (ctxs s)
    \<and> m_this s2 = m_this s \<and> io_pipe_open s2"
proof -
  let ?c = "ctxs s ! p"
  obtain s1 where s1: "trigger_if br READ p s = Inr s1" "if br then fired READ p s s1 else s1 = s"
    using trigger_if_maybe [of s p READ br] assms by (auto simp: ev_of_def)
  have c1: "ctxs s1 ! p = (if br then unregister READ ?c else ?c)" "p < length (ctxs s1)"
      "m_this s1 = m_this s" "io_pipe_open s1" "io_interest s1 = io_interest s"
    using s1(2) assms(2,3) by (auto simp: fired_def split: if_splits)
  have ok1: "ctx_ok (ctxs s1 ! p)"
    using c1(1) ok unregister_ok(1) [OF ok, of READ] r by auto
  have w1: "ev_of WRITE (ctxs s1 ! p) = ctx_write ?c"
      "ctx_event (ctxs s1 ! p) AND WRITE = ctx_event ?c AND WRITE"
    using c1(1) unregister_other [OF ok] by (simp_all add: ev_of_def)
  obtain s2 where s2: "trigger_if bw WRITE p s1 = Inr s2" "if bw then fired WRITE p s1 s2 else s2 = s1"
    using trigger_if_maybe [OF ok1 c1(2), of WRITE bw] w1 c1(3,4) w by auto
  have "ctx_event (ctxs s1 ! p) = ctx_event ?c AND NOT (if br then READ else 0)"
    using c1(1) unregister_ok(4) [OF ok, of READ] r by simp
  moreover have "ctx_event (ctxs s2 ! p) = ctx_event (ctxs s1 ! p) AND NOT (if bw then WRITE else 0)"
    using s2(2) c1(2) unregister_ok(4) [OF ok1, of WRITE] w1(2) w by (auto simp: fired_def)
  ultimately have "ctx_event (ctxs s2 ! p) =
      ctx_event ?c AND NOT ((if br then READ else 0) OR (if bw then WRITE else 0))"
    by (simp only: and.assoc bit.de_Morgan_disj)
  moreover have "m_pendingEventCnt s2 = m_pendingEventCnt s - (if br then 1 else 0) - (if bw then 1 else 0)"
    using s1(2) s2(2) by (auto simp: fired_def)
  moreover have "m_tasks s2 = m_tasks s @ event_tasks br bw ?c"
    using s1(2) s2(2) c1(1) unregister_other(1) [OF ok] by (auto simp: fired_def ev_of_def event_tasks_def)
  moreover have "io_interest s2 = io_interest s" "p < length (ctxs s2)" "m_this s2 = m_this s" "io_pipe_open s2"
    using s2(2) c1(2-5) by (auto simp: fired_def split: if_splits)
  moreover have "\<forall>q. q \<noteq> p \<longrightarrow> ctxs s2 ! q = ctxs s ! q" "length (ctxs s2) = length (ctxs s)"
    using s1(2) s2(2) by (auto simp: fired_def split: if_splits)
  ultimately show ?thesis
    using s1(1) s2(1) c1(2) w1(2) by blast
qed

text \<open>The counts of registrations, as numbers.\<close>

definition reg_num :: "fd_context \<Rightarrow> nat" where
  "reg_num c = (if ctx_event c AND READ \<noteq> 0 then 1 else 0) + (if ctx_event c AND WRITE \<noteq> 0 then 1 else 0)"

lemma reg_count_num: "sum_list (map reg_count cs) = of_nat (sum_list (map reg_num cs))"
  by (induction cs) (auto simp: reg_count_def reg_num_def)

lemma reg_num_le: "sum_list (map reg_num cs) \<le> 2 * length cs"
  by (induction cs) (auto simp: reg_num_def)

lemma pending_zero:
  assumes "iom_inv s" and "length (ctxs s) < 2 ^ 63" and "m_pendingEventCnt s = 0"
    and "c \<in> set (ctxs s)"
  shows "ctx_event c = 0"
proof -
  let ?n = "sum_list (map reg_num (ctxs s))"
  have "?n < 2 ^ 64" using assms(2) reg_num_le [of "ctxs s"] by simp
  moreover have "(of_nat ?n :: u64) = 0"
    using assms(1,3) by (simp add: iom_inv_def reg_count_num)
  ultimately have "?n = 0" by (auto simp: word_of_nat_eq_0_iff dest: nat_dvd_not_less)
  then have "reg_num c = 0" using assms(4) by (simp add: sum_list_eq_0_iff)
  moreover have "ctx_event c \<in> {0, READ, WRITE, READ OR WRITE}"
    using assms(1,4) by (auto simp: iom_inv_def ctx_ok_def)
  ultimately show ?thesis
    by (elim event_cases) (auto simp: reg_num_def event_defs split: if_splits)
qed

section \<open>Delivered events\<close>

text \<open>
  What the kernel may deliver for a context: it makes something ready, all of it is still
  registered, and those who wait belong to this manager. The tasks it stands for.
\<close>

definition ready_event :: "iomanager \<Rightarrow> ctx_ptr \<Rightarrow> u32 \<Rightarrow> bool" where
  "ready_event s p events \<longleftrightarrow>
     (let c = ctxs s ! p; real = real_events events (ctx_event c) in
      p < length (ctxs s) \<and> real \<noteq> 0 \<and> real AND NOT (ctx_event c) = 0
      \<and> (ctx_event c AND READ \<noteq> 0 \<longrightarrow> ev_scheduler (ctx_read c) = Some (m_this s))
      \<and> (ctx_event c AND WRITE \<noteq> 0 \<longrightarrow> ev_scheduler (ctx_write c) = Some (m_this s)))"

definition ready_tasks :: "iomanager \<Rightarrow> ctx_ptr \<Rightarrow> u32 \<Rightarrow> schedule_task list" where
  "ready_tasks s p events =
     (let real = real_events events (ctx_event (ctxs s ! p))
      in event_tasks (real AND READ \<noteq> 0) (real AND WRITE \<noteq> 0) (ctxs s ! p))"

definition delivery :: "ctx_ptr \<Rightarrow> u32 \<Rightarrow> epoll_event" where
  "delivery p events = \<lparr>ep_events = events, ep_data = Data_ptr p\<rparr>"

lemma idle_event_fires:
  assumes "iom_inv s" and "ready_event s p events" and "io_pipe_open s"
    and "real_events events (ctx_event (ctxs s ! p)) = real"
  shows "\<exists>s'. idle_event 0 (delivery p events) s = Inr s'
    \<and> m_tasks s' = m_tasks s @ event_tasks (real AND READ \<noteq> 0) (real AND WRITE \<noteq> 0) (ctxs s ! p)
    \<and> ctx_event (ctxs s' ! p) = ctx_event (ctxs s ! p) AND NOT real
    \<and> m_pendingEventCnt s' = m_pendingEventCnt s
        - (if real AND READ \<noteq> 0 then 1 else 0) - (if real AND WRITE \<noteq> 0 then 1 else 0)
    \<and> io_interest s' (ctx_fd (ctxs s ! p)) =
        (if ctx_event (ctxs s ! p) AND NOT real = 0 then None
         else Some (EPOLLET OR (ctx_event (ctxs s ! p) AND NOT real), Data_ptr p))
    \<and> (\<forall>q. q \<noteq> p \<longrightarrow> ctxs s' ! q = ctxs s ! q) \<and> length (ctxs s') = length (ctxs s)
    \<and> m_this s' = m_this s \<and> io_pipe_open s'"
proof -
  let ?c = "ctxs s ! p"
  have h: "p < length (ctxs s)" "real \<noteq> 0" "real AND NOT (ctx_event ?c) = 0"
      "ctx_event ?c AND READ \<noteq> 0 \<Longrightarrow> ev_scheduler (ctx_read ?c) = Some (m_this s)"
      "ctx_event ?c AND WRITE \<noteq> 0 \<Longrightarrow> ev_scheduler (ctx_write ?c) = Some (m_this s)"
    using assms(2,4) by (auto simp: ready_event_def Let_def)
  have ok: "ctx_ok ?c" by (rule iom_inv_ctx_ok [OF assms(1) h(1)])
  then have ev: "ctx_event ?c \<in> {0, READ, WRITE, READ OR WRITE}" by (simp add: ctx_ok_def)
  have "real \<in> {0, READ, WRITE, READ OR WRITE}"
    using assms(4) by (auto simp: real_events_def Let_def split: if_splits)
  then have bits: "ctx_event ?c AND real \<noteq> 0"
      "real AND READ \<noteq> 0 \<Longrightarrow> ctx_event ?c AND READ \<noteq> 0" "real AND WRITE \<noteq> 0 \<Longrightarrow> ctx_event ?c AND WRITE \<noteq> 0"
    and rc: "real = (if real AND READ \<noteq> 0 then READ else 0) OR (if real AND WRITE \<noteq> 0 then WRITE else 0)"
    using ev h(2,3) by (elim event_cases; simp add: event_defs)+
  define s0 where "s0 = ctl (if ctx_event ?c AND NOT real \<noteq> 0 then CTL_MOD else CTL_DEL) (ctx_fd ?c)
      (EPOLLET OR (ctx_event ?c AND NOT real)) (Data_ptr p) s"
  have ie: "idle_event 0 (delivery p events) s = bind_res (trigger_if (real AND READ \<noteq> 0) READ p s0)
      (trigger_if (real AND WRITE \<noteq> 0) WRITE p)"
    using assms(4) h(1) bits(1) by (simp add: idle_event_def ctx_at_def Let_def s0_def delivery_def)
  have s0: "ctxs s0 = ctxs s" "m_this s0 = m_this s" "io_pipe_open s0" "m_tasks s0 = m_tasks s"
      "m_pendingEventCnt s0 = m_pendingEventCnt s"
    using assms(3) by (simp_all add: s0_def)
  obtain s1 s2 where t: "trigger_if (real AND READ \<noteq> 0) READ p s0 = Inr s1"
    "trigger_if (real AND WRITE \<noteq> 0) WRITE p s1 = Inr s2"
    "m_tasks s2 = m_tasks s @ event_tasks (real AND READ \<noteq> 0) (real AND WRITE \<noteq> 0) ?c"
    "m_pendingEventCnt s2 = m_pendingEventCnt s
        - (if real AND READ \<noteq> 0 then 1 else 0) - (if real AND WRITE \<noteq> 0 then 1 else 0)"
    "io_interest s2 = io_interest s0" "ctx_event (ctxs s2 ! p) = ctx_event ?c AND NOT real"
    "\<forall>q. q \<noteq> p \<longrightarrow> ctxs s2 ! q = ctxs s ! q" "length (ctxs s2) = length (ctxs s)"
    "m_this s2 = m_this s" "io_pipe_open s2"
    using trigger_both [of s0 p "real AND READ \<noteq> 0" "real AND WRITE \<noteq> 0"] ok h(1,4,5) bits(2,3)
    unfolding s0 rc [symmetric] by (metis s0(3))
  then show ?thesis
    using ie by (auto simp: s0_def)
qed

text \<open>All events of one \<open>epoll_wait\<close>, each for another context.\<close>

lemma idle_events_fire:
  "iom_inv s \<Longrightarrow> io_pipe_open s \<Longrightarrow> distinct (map fst ps) \<Longrightarrow> \<forall>(p, ev)\<in>set ps. ready_event s p ev \<Longrightarrow>
   \<exists>s'. idle_events (map (\<lambda>(p, ev). (0, delivery p ev)) ps) s = Inr s'
     \<and> m_tasks s' = m_tasks s @ concat (map (\<lambda>(p, ev). ready_tasks s p ev) ps)
     \<and> (\<forall>(p, ev)\<in>set ps. ctx_event (ctxs s' ! p) =
          ctx_event (ctxs s ! p) AND NOT (real_events ev (ctx_event (ctxs s ! p))))
     \<and> (\<forall>q. q \<notin> fst ` set ps \<longrightarrow> ctxs s' ! q = ctxs s ! q)"
proof (induction ps arbitrary: s)
  case (Cons pe ps)
  obtain p ev where pe: "pe = (p, ev)" by (cases pe)
  obtain s1 where s1: "idle_event 0 (delivery p ev) s = Inr s1"
      "m_tasks s1 = m_tasks s @ ready_tasks s p ev"
      "ctx_event (ctxs s1 ! p) = ctx_event (ctxs s ! p) AND NOT (real_events ev (ctx_event (ctxs s ! p)))"
      "\<forall>q. q \<noteq> p \<longrightarrow> ctxs s1 ! q = ctxs s ! q" "length (ctxs s1) = length (ctxs s)"
      "m_this s1 = m_this s" "io_pipe_open s1"
    using idle_event_fires [OF Cons.prems(1) _ Cons.prems(2) refl, of p ev] Cons.prems(4)
    by (auto simp: pe ready_tasks_def Let_def)
  have np: "\<forall>(q, e)\<in>set ps. q \<noteq> p" using Cons.prems(3) by (force simp: pe)
  then have same: "ready_event s1 q e = ready_event s q e" "ready_tasks s1 q e = ready_tasks s q e"
      "ctxs s1 ! q = ctxs s ! q" if "(q, e) \<in> set ps" for q e
    using that s1(4-6) by (auto simp: ready_event_def ready_tasks_def)
  obtain s' where s': "idle_events (map (\<lambda>(p, ev). (0, delivery p ev)) ps) s1 = Inr s'"
      "m_tasks s' = m_tasks s1 @ concat (map (\<lambda>(p, ev). ready_tasks s1 p ev) ps)"
      "\<forall>(p, ev)\<in>set ps. ctx_event (ctxs s' ! p) =
          ctx_event (ctxs s1 ! p) AND NOT (real_events ev (ctx_event (ctxs s1 ! p)))"
      "\<forall>q. q \<notin> fst ` set ps \<longrightarrow> ctxs s' ! q = ctxs s1 ! q"
    using Cons.IH [OF iom_inv_idle_event [OF Cons.prems(1) s1(1)] s1(7)] Cons.prems(3,4) same(1) by (force simp: pe)
  have m: "map (\<lambda>(p, ev). ready_tasks s1 p ev) ps = map (\<lambda>(p, ev). ready_tasks s p ev) ps"
    using same(2) by auto
  then have "m_tasks s' = m_tasks s @ concat (map (\<lambda>(p, ev). ready_tasks s p ev) (pe # ps))"
    unfolding s'(2) m s1(2) by (simp add: pe)
  moreover have "p \<notin> fst ` set ps" using Cons.prems(3) by (simp add: pe)
  then have "ctxs s' ! p = ctxs s1 ! p" using s'(4) by blast
  then have "\<forall>(q, e)\<in>set (pe # ps). ctx_event (ctxs s' ! q) =
      ctx_event (ctxs s ! q) AND NOT (real_events e (ctx_event (ctxs s ! q)))"
    using s1(3) s'(3) same(3) by (auto simp: pe)
  moreover have "\<forall>q. q \<notin> fst ` set (pe # ps) \<longrightarrow> ctxs s' ! q = ctxs s ! q"
    using s1(4) s'(4) by (simp add: pe)
  moreover have "idle_events (map (\<lambda>(p, ev). (0, delivery p ev)) (pe # ps)) s = Inr s'"
    using s1(1) s'(1) by (simp add: pe)
  ultimately show ?case by blast
qed simp

section \<open>Properties\<close>

text \<open>
  A manager with two descriptors, 0 and 1, of which 1 waits for reading, for the concrete
  instances; its thread runs fiber 1.
\<close>

definition ex_iom :: iomanager where
  "ex_iom = scheduler.extend (ex_sched [])
     (iomanager.fields (new_manager 0) 5 (6, 7) 1 [Some 0, Some 1]
        [new_fd_context 0, register READ \<lparr>ev_scheduler = Some 1, ev_fiber = Some 4, ev_cb = None\<rparr>
           (new_fd_context 1)]
        [1 \<mapsto> (EPOLLET OR READ, Data_ptr 1)] 0 True [])"

definition ex_locals :: "thread_locals" where
  "ex_locals = \<lparr>t_scheduler = Some 1, t_hook_enable = True, tl_thread = init_thread None ''main'',
     tl_own = init_own ''main'', tl_fibers = ex_world\<rparr>"

lemmas ex_iom_defs = ex_iom_def scheduler.defs iomanager.defs ex_sched_def

lemma ex_iom_sel [simp]:
  "ctxs ex_iom = [new_fd_context 0, register READ \<lparr>ev_scheduler = Some 1, ev_fiber = Some 4,
     ev_cb = None\<rparr> (new_fd_context 1)]"
  "m_fdContexts ex_iom = [Some 0, Some 1]" "m_pendingEventCnt ex_iom = 1" "m_tasks ex_iom = []"
  "m_this ex_iom = 1" "io_pipe_open ex_iom" "m_tickleFds ex_iom = (6, 7)" "m_idleThreadCnt ex_iom = 0"
  "io_timers ex_iom = new_manager 0" "m_stopping ex_iom = False"
  by (simp_all add: ex_iom_defs)

lemma ex_iom_ctx [simp]:
  "ctx_event (new_fd_context fd) = 0"
  "ctx_event (register READ ec (new_fd_context fd)) = READ"
  "ev_of READ (register READ ec (new_fd_context fd)) = ec"
  by (simp_all add: register_def setEventContext_def new_fd_context_def ev_of_def)

lemma ex_iom_inv: "iom_inv ex_iom"
  using register_ok [of "new_fd_context 1" READ "\<lparr>ev_scheduler = Some 1, ev_fiber = Some 4, ev_cb = None\<rparr>"]
  by (auto simp: iom_inv_def nth_Cons split: nat.splits)

text \<open>
  C1: in every state that any interleaving of the operations of an \<open>IOManager\<close> can reach, the
  accounts of descriptors agree: a context is registered for an event exactly when its
  \<open>EventContext\<close> holds a callback or a fiber, and not both, and an event that is not registered
  has an empty one; \<open>m_pendingEventCnt\<close> is the number of registrations; and place \<open>fd\<close> of the
  vector points to a context made for \<open>fd\<close>.
\<close>

theorem event_accounts_agree:
  assumes "reach io_init io_step s"
  shows "(\<forall>c\<in>set (ctxs s). \<forall>event\<in>{READ, WRITE}. \<forall>ec. getEventContext event c = Inr ec \<longrightarrow>
            (if ctx_event c AND event \<noteq> 0 then (ev_cb ec \<noteq> None) \<noteq> (ev_fiber ec \<noteq> None)
             else ec = empty_event_context))
    \<and> (\<forall>c\<in>set (ctxs s). ctx_event c AND NOT (READ OR WRITE) = 0)
    \<and> m_pendingEventCnt s = of_nat (sum_list (map reg_num (ctxs s)))
    \<and> (\<forall>i p. i < length (m_fdContexts s) \<longrightarrow> m_fdContexts s ! i = Some p \<longrightarrow>
          p < length (ctxs s) \<and> ctx_fd (ctxs s ! p) = int i)"
proof -
  have inv: "iom_inv s" using assms by (rule io_acc.reach_inv)
  have "ctx_event c AND NOT (READ OR WRITE) = 0" if "c \<in> set (ctxs s)" for c
  proof -
    have "ctx_event c \<in> {0, READ, WRITE, READ OR WRITE}"
      using inv that by (auto simp: iom_inv_def ctx_ok_def)
    then show ?thesis by (elim event_cases) (simp_all add: event_defs)
  qed
  moreover have "if ctx_event c AND event \<noteq> 0 then (ev_cb ec \<noteq> None) \<noteq> (ev_fiber ec \<noteq> None)
        else ec = empty_event_context"
    if "c \<in> set (ctxs s)" "event \<in> {READ, WRITE}" "getEventContext event c = Inr ec" for c event ec
  proof -
    have "ctx_ok c" using inv that(1) by (simp add: iom_inv_def)
    then show ?thesis
      using that(2,3) by (auto simp: getEventContext_def res_simps ctx_ok_def reg_ok_def split: if_splits)
  qed
  ultimately show ?thesis
    using inv unfolding iom_inv_def reg_count_num by blast
qed

lemma ex_io_init:
  "\<exists>s. io_init s \<and> length (m_fdContexts s) = 32 \<and> length (ctxs s) \<le> 32 \<and> io_timers s = new_manager 0
     \<and> m_tasks s = [] \<and> m_pendingEventCnt s = 0 \<and> m_activeThreadCnt s = 0"
proof -
  let ?l = "ex_locals\<lparr>t_scheduler := None, tl_fibers := ex_world0\<rparr>"
  obtain base l1 where b: "new_scheduler 2 77 1 True ''io'' ?l = Inr (base, l1)"
    by (simp add: new_scheduler_def case_prod_beta GetThis_def new_main_fiber_def Let_def
        ex_locals_def ex_world0_def)
  note f = new_scheduler_fields [OF b]
  let ?s0 = "scheduler.extend base
      (iomanager.fields (new_manager 0) 5 (6, 7) 0 [] [] (\<lambda>_. None) 0 True [])"
  let ?s1 = "contextResize 32 (ctl CTL_ADD 6 (EPOLLIN OR EPOLLET) (Data_fd 6) ?s0)"
  have s1: "m_threads ?s1 = [] \<and> m_threadCnt ?s1 = 0 \<and> \<not> m_stopping ?s1 \<and> length (m_fdContexts ?s1) = 32
      \<and> m_tasks ?s1 = [] \<and> m_pendingEventCnt ?s1 = 0"
    using contextResize_spec f by (simp add: ctl_def scheduler.defs iomanager.defs)
  have t1: "length (ctxs ?s1) \<le> 32 \<and> io_timers ?s1 = new_manager 0 \<and> m_activeThreadCnt ?s1 = 0"
    using fill_contexts_timers b order_trans [OF fill_contexts_length]
    by (auto simp: contextResize_def ctl_def scheduler.defs iomanager.defs new_scheduler_def
        res_simps case_prod_beta Let_def)
  from s1 have "start (\<lambda>_. None) ?s1 = Inr (?s1\<lparr>m_threads := []\<rparr>)"
    by (simp add: start_def)
  then have "new_iomanager 2 77 1 True ''io'' 0 5 (6, 7) 0 0 0 (\<lambda>_. None) ?l
      = Inr (?s1\<lparr>m_threads := []\<rparr>, l1)"
    by (simp add: new_iomanager_def b Let_def)
  then have "io_init (?s1\<lparr>m_threads := []\<rparr>)" unfolding io_init_def by blast
  with s1 t1 show ?thesis by (intro exI [of _ "?s1\<lparr>m_threads := []\<rparr>"]) simp
qed

theorem event_accounts_agree_witness:
  "\<exists>s. io_init s \<and> m_pendingEventCnt s = of_nat (sum_list (map reg_num (ctxs s)))"
proof -
  obtain s where s: "io_init s" using ex_io_init by blast
  have "m_pendingEventCnt s = of_nat (sum_list (map reg_num (ctxs s)))"
    using event_accounts_agree [OF reach_init [where init = io_init and step = io_step, OF s]] by blast
  with s show ?thesis by blast
qed

text \<open>
  \<open>addEvent\<close> on a descriptor of the vector either changes nothing and returns -1, namely when
  the event is registered already or \<open>epoll_ctl\<close> fails, or it returns 0 and registers: epoll was
  asked for the old events and the new one, edge-triggered; the event's context holds the
  thread's scheduler and the callback, or, without one, the current fiber; and one more event is
  pending. No other context changes.
\<close>

theorem addEvent_registers:
  assumes "iom_inv s" and "0 \<le> fd" and "nat fd < length (m_fdContexts s)"
    and "m_fdContexts s ! nat fd = Some p" and "event = READ \<or> event = WRITE"
    and "GetThis (tl_fibers l) = Inr (f, tl_fibers l)" and "fibers (tl_fibers l) f = Some fb"
    and "fiber_st fb = RUNNING"
  shows "if ctx_event (ctxs s ! p) AND event \<noteq> 0 \<or> rt \<noteq> 0
    then addEvent rt fd event cb s l = Inr (- 1, s, l)
    else \<exists>s'. addEvent rt fd event cb s l = Inr (0, s', l)
      \<and> ctx_event (ctxs s' ! p) = ctx_event (ctxs s ! p) OR event
      \<and> getEventContext event (ctxs s' ! p) = Inr \<lparr>ev_scheduler = t_scheduler l,
            ev_fiber = (if cb = None then Some f else None), ev_cb = cb\<rparr>
      \<and> m_pendingEventCnt s' = m_pendingEventCnt s + 1
      \<and> io_interest s' fd = Some (EPOLLET OR ctx_event (ctxs s ! p) OR event, Data_ptr p)
      \<and> m_tasks s' = m_tasks s \<and> (\<forall>q. q \<noteq> p \<longrightarrow> ctxs s' ! q = ctxs s ! q)"
proof (cases "ctx_event (ctxs s ! p) AND event \<noteq> 0 \<or> rt \<noteq> 0")
  case True
  have "p < length (ctxs s)" using assms(1,3,4) by (auto simp: iom_inv_def)
  with True show ?thesis
    by (auto simp: addEvent_def find_context_in [OF assms(2-4)] addEvent_locked_def ctx_at_def)
next
  case False
  have p: "p < length (ctxs s)" using assms(1,3,4) by (auto simp: iom_inv_def)
  let ?ec = "\<lparr>ev_scheduler = t_scheduler l, ev_fiber = (if cb = None then Some f else None), ev_cb = cb\<rparr>"
  from False have u: "ctx_event (ctxs s ! p) AND event = 0" "rt = 0" by auto
  have "addEvent rt fd event cb s l = Inr (0, registered p fd event ?ec s, l)"
    using addEvent_locked_registers [OF assms(1) p assms(5) u(1), of cb l f "tl_fibers l" fd] assms(6-8) u(2)
    by (simp add: addEvent_def find_context_in [OF assms(2-4)])
  moreover have "ctx_event (register event ?ec (ctxs s ! p)) = ctx_event (ctxs s ! p) OR event"
    by (rule register_ok(4) [OF iom_inv_ctx_ok [OF assms(1) p] assms(5) u(1)]) simp
  ultimately show ?thesis
    using False p assms(5) unregister_register(2) [OF iom_inv_ctx_ok [OF assms(1) p] assms(5) u(1)]
    by (auto simp: getEventContext_eq)
qed

theorem addEvent_registers_witness:
  "\<exists>s'. addEvent 0 1 WRITE None ex_iom ex_locals = Inr (0, s', ex_locals) \<and> m_pendingEventCnt s' = 2
     \<and> io_interest s' 1 = Some (EPOLLET OR READ OR WRITE, Data_ptr 1)"
  using addEvent_registers [OF ex_iom_inv, of 1 1 WRITE ex_locals 0 ex_main 0 None]
  by (auto simp: ex_locals_def GetThis_def ex_fiber_defs)

text \<open>
  C28: a registration that is cancelled leaves the descriptor as it was before: after \<open>addEvent\<close>
  has returned 0, \<open>cancelEvent\<close> restores every context and the count of pending events and hands
  the registered callback (or the fiber that registered) to the scheduler exactly once, while
  \<open>delEvent\<close> restores the same and schedules nothing; epoll goes on with the events that were
  registered before.
\<close>

theorem registration_round_trip:
  assumes "iom_inv s" and "0 \<le> fd" and "nat fd < length (m_fdContexts s)"
    and "m_fdContexts s ! nat fd = Some p" and "event = READ \<or> event = WRITE"
    and "addEvent 0 fd event cb s l = Inr (0, s1, l')"
    and "t_scheduler l = Some (m_this s)" and "io_pipe_open s"
    and "ctx_event (ctxs s ! p) AND event = 0"
  shows "(\<exists>s2 task. cancelEvent 0 fd event s1 = Inr (True, s2) \<and> m_tasks s2 = m_tasks s @ [task]
          \<and> task_cb task = cb \<and> task_thread task = - 1
          \<and> (cb = None \<longrightarrow> (\<exists>f w. GetThis (tl_fibers l) = Inr (f, w) \<and> task_fiber task = Some f))
          \<and> ctxs s2 = ctxs s \<and> m_pendingEventCnt s2 = m_pendingEventCnt s
          \<and> io_interest s2 fd = (if ctx_event (ctxs s ! p) = 0 then None
                else Some (EPOLLET OR ctx_event (ctxs s ! p), Data_ptr p)))
    \<and> (\<exists>s2. delEvent 0 fd event s1 = Inr (True, s2) \<and> m_tasks s2 = m_tasks s \<and> ctxs s2 = ctxs s
          \<and> m_pendingEventCnt s2 = m_pendingEventCnt s)"
proof -
  let ?c = "ctxs s ! p"
  have p: "p < length (ctxs s)" using assms(1,3,4) by (auto simp: iom_inv_def)
  have fc: "find_context fd t = Inr (Some p)" if "m_fdContexts t = m_fdContexts s" for t
    using find_context_in [of fd t p] assms(2-4) that by simp
  have "addEvent_locked 0 p fd event cb s l = Inr (0, s1, l')"
    using assms(6) by (simp add: addEvent_def fc)
  from addEvent_locked_spec [OF this] obtain f where
    s1: "s1 = registered p fd event \<lparr>ev_scheduler = t_scheduler l, ev_fiber = f, ev_cb = cb\<rparr> s"
      (is "_ = registered p fd event ?ec s") and cf: "(cb = None) = (f \<noteq> None)"
    and fg: "cb = None \<longrightarrow> (\<exists>g w. f = Some g \<and> GetThis (tl_fibers l) = Inr (g, w))"
    by auto
  have inv1: "iom_inv s1"
    unfolding s1 by (rule iom_inv_registered [OF assms(1) p assms(5,9)]) (use cf in auto)
  note u = unregister_register(1,2) [OF iom_inv_ctx_ok [OF assms(1) p] assms(5,9), of ?ec]
    unregister_register(3,4) [OF iom_inv_ctx_ok [OF assms(1) p] assms(5,9)]
  have e1: "ctx_event (ctxs s1 ! p) = ctx_event ?c OR event"
    using p register_ok(4) [OF iom_inv_ctx_ok [OF assms(1) p] assms(5,9), of ?ec] cf
    by (auto simp: s1)
  have p1: "p < length (ctxs s1)" and ev1: "ev_of event (ctxs s1 ! p) = ?ec"
    using p u(2) by (simp_all add: s1)
  obtain s2 where s2: "cancelEvent_locked 0 p fd event s1 = Inr (True, unregistered p fd event s2)"
      "same_io s1 s2" "m_tasks s2 = m_tasks s1 @ [event_task ?ec]"
    using cancelEvent_locked_cancels [OF inv1 p1 assms(5)] e1 u(4) ev1 assms(7,8) by (auto simp: s1)
  have "delEvent_locked 0 p fd event s1 = Inr (True, unregistered p fd event s1)"
    using p1 e1 u(4) assms(5) by (auto simp: delEvent_locked_def ctx_at_def Let_def getEventContext_eq
        unregistered_def unregister_def)
  moreover have "m_fdContexts s1 = m_fdContexts s" by (simp add: s1)
  ultimately show ?thesis
    using s2 p u cf fg e1 by (auto simp: cancelEvent_def delEvent_def with_context_def fc same_io_def s1
        event_task_def cb_task_def fiber_task_def)
qed

theorem registration_round_trip_witness:
  "\<exists>s1 l' s2. addEvent 0 0 READ (Some (User_cb 8)) ex_iom ex_locals = Inr (0, s1, l')
     \<and> cancelEvent 0 0 READ s1 = Inr (True, s2) \<and> ctxs s2 = ctxs ex_iom \<and> m_pendingEventCnt s2 = 1"
proof -
  obtain s1 l' where a: "addEvent 0 0 READ (Some (User_cb 8)) ex_iom ex_locals = Inr (0, s1, l')"
    using addEvent_locked_registers [OF ex_iom_inv, of 0 READ "Some (User_cb 8)" ex_locals]
    by (auto simp: addEvent_def find_context_in)
  from registration_round_trip [OF ex_iom_inv _ _ _ _ a, of 0] a show ?thesis
    by (auto simp: ex_locals_def)
qed

text \<open>
  When \<open>epoll_ctl\<close> fails, \<open>delEvent\<close>, \<open>cancelEvent\<close> and \<open>cancelAll\<close> do nothing, and yet they
  return true, as if the event had been removed: their \<open>return -1\<close> is converted to \<open>bool\<close>. The
  event stays registered, its waiter is not woken, and it stays pending.
\<close>

theorem failed_removal_reports_success:
  assumes "0 \<le> fd" and "nat fd < length (m_fdContexts s)" and "m_fdContexts s ! nat fd = Some p"
    and "p < length (ctxs s)" and "ctx_event (ctxs s ! p) AND event \<noteq> 0" and "rt \<noteq> 0"
  shows "delEvent rt fd event s = Inr (True, s) \<and> cancelEvent rt fd event s = Inr (True, s)
    \<and> cancelAll rt fd s = Inr (True, s)"
proof -
  note fc = find_context_in [OF assms(1-3)]
  have "ctx_event (ctxs s ! p) \<noteq> 0" using assms(5) by auto
  with assms(4-6) fc show ?thesis
    by (simp_all add: delEvent_def cancelEvent_def cancelAll_def with_context_def ctx_at_def
        delEvent_locked_def cancelEvent_locked_def cancelAll_locked_def Let_def)
qed

theorem failed_removal_reports_success_witness:
  "delEvent (- 1) 1 READ ex_iom = Inr (True, ex_iom) \<and> cancelAll (- 1) 1 ex_iom = Inr (True, ex_iom)"
  using failed_removal_reports_success [of 1 ex_iom 1 READ "- 1"] by simp

text \<open>
  C19: when all events that a delivered epoll event makes ready are still registered, \<open>idle\<close> fires
  each of them once, reading before writing: their callbacks or fibers are appended to the queue,
  exactly these events are unregistered and no longer pending, and epoll keeps the others.
\<close>

theorem delivered_events_fire_once:
  assumes "iom_inv s" and "ep_data e = Data_ptr p" and "p < length (ctxs s)"
    and "real_events (ep_events e) (ctx_event (ctxs s ! p)) = real"
    and "real \<noteq> 0" and "real AND NOT (ctx_event (ctxs s ! p)) = 0" and "io_pipe_open s"
    and "ctx_event (ctxs s ! p) AND READ \<noteq> 0 \<Longrightarrow> ev_scheduler (ctx_read (ctxs s ! p)) = Some (m_this s)"
    and "ctx_event (ctxs s ! p) AND WRITE \<noteq> 0 \<Longrightarrow> ev_scheduler (ctx_write (ctxs s ! p)) = Some (m_this s)"
  shows "\<exists>s'. idle_event 0 e s = Inr s'
    \<and> m_tasks s' = m_tasks s @ event_tasks (real AND READ \<noteq> 0) (real AND WRITE \<noteq> 0) (ctxs s ! p)
    \<and> ctx_event (ctxs s' ! p) = ctx_event (ctxs s ! p) AND NOT real
    \<and> m_pendingEventCnt s' = m_pendingEventCnt s
        - (if real AND READ \<noteq> 0 then 1 else 0) - (if real AND WRITE \<noteq> 0 then 1 else 0)
    \<and> io_interest s' (ctx_fd (ctxs s ! p)) =
        (if ctx_event (ctxs s ! p) AND NOT real = 0 then None
         else Some (EPOLLET OR (ctx_event (ctxs s ! p) AND NOT real), Data_ptr p))"
proof -
  have e: "delivery p (ep_events e) = e" using assms(2) by (cases e) (simp add: delivery_def)
  have "ready_event s p (ep_events e)" using assms(3-6,8,9) by (simp add: ready_event_def)
  from idle_event_fires [OF assms(1) this assms(7,4)] show ?thesis
    unfolding e by blast
qed

theorem delivered_events_fire_once_witness:
  "\<exists>s'. idle_event 0 \<lparr>ep_events = EPOLLIN, ep_data = Data_ptr 1\<rparr> ex_iom = Inr s'
     \<and> m_tasks s' = [fiber_task (Some 4) (- 1)] \<and> m_pendingEventCnt s' = 0"
proof -
  have r: "real_events EPOLLIN READ = READ"
    by (simp add: real_events_def event_defs EPOLLIN_def EPOLLOUT_def EPOLLERR_def EPOLLHUP_def)
  have c: "ctx_read (ctxs ex_iom ! 1) = \<lparr>ev_scheduler = Some 1, ev_fiber = Some 4, ev_cb = None\<rparr>"
    by (simp add: register_def setEventContext_def)
  show ?thesis
    using delivered_events_fire_once [OF ex_iom_inv, of "\<lparr>ep_events = EPOLLIN, ep_data = Data_ptr 1\<rparr>" 1 READ]
      r c by (auto simp: event_task_def event_tasks_def)
qed

text \<open>
  C38: an event that is removed between its delivery by epoll and its handling aborts the program.
  If a descriptor waits for both events, epoll reports both, and another thread takes back the
  writing event before \<open>idle\<close> locks the context, then \<open>idle\<close> still triggers both reported events
  and the second one fails the assertion of \<open>triggerEvent\<close>.
\<close>

theorem event_removed_after_delivery_aborts:
  assumes "iom_inv s" and "ep_data e = Data_ptr p" and "p < length (ctxs s)"
    and "ctx_event (ctxs s ! p) = READ OR WRITE" and "ep_events e = EPOLLIN OR EPOLLOUT"
    and "delEvent_locked 0 p fd WRITE s = Inr (True, s1)"
    and "io_pipe_open s" and "ev_scheduler (ctx_read (ctxs s ! p)) = Some (m_this s)"
  shows "idle_event 0 e s1 = Inl Assertion_failed"
proof -
  let ?c = "ctxs s ! p"
  have both: "READ OR WRITE \<noteq> READ" "(READ OR WRITE) AND WRITE \<noteq> 0" "(READ OR WRITE) AND NOT WRITE = READ"
    by (simp_all add: event_defs)
  have s1: "s1 = unregistered p fd WRITE s"
    using delEvent_locked_spec [OF assms(6)] assms(4) both by (auto split: if_splits)
  have c1: "ctxs s1 ! p = unregister WRITE ?c" "p < length (ctxs s1)" "io_pipe_open s1" "m_this s1 = m_this s"
    using assms(3,7) by (simp_all add: s1 unregistered_def Let_def put_ctx_def)
  note u = unregister_ok [OF iom_inv_ctx_ok [OF assms(1,3)], of WRITE]
  have e1: "ctx_event (ctxs s1 ! p) = READ" using c1(1) u(4) assms(4) both by simp
  have ok1: "ctx_ok (ctxs s1 ! p)" using c1(1) u(1) assms(4) both by simp
  have r1: "ev_of READ (ctxs s1 ! p) = ctx_read ?c"
    by (simp add: c1(1) unregister_def setEventContext_def ev_of_def)
  have real: "real_events (EPOLLIN OR EPOLLOUT) READ = READ OR WRITE"
    by (simp add: real_events_def event_defs EPOLLIN_def EPOLLOUT_def EPOLLERR_def EPOLLHUP_def)
  let ?s0 = "ctl CTL_DEL (ctx_fd (ctxs s1 ! p)) (EPOLLET OR 0) (ep_data e) s1"
  have b: "(READ OR WRITE) AND READ \<noteq> 0" "READ AND (READ OR WRITE) \<noteq> 0" "READ AND NOT (READ OR WRITE) = 0"
    by (simp_all add: event_defs)
  obtain s2 where s2: "trigger_if True READ p ?s0 = Inr s2" "fired READ p ?s0 s2"
    using trigger_if_fires [of ?s0 p READ] ok1 c1 e1 r1 assms(8) by (auto simp: ctl_def)
  have "p < length (ctxs s2)" "ctx_event (ctxs s2 ! p) AND WRITE = 0"
    using s2(2) c1(2) unregister_ok(4) [OF ok1, of READ] e1 by (simp_all add: fired_def)
  then have "trigger_if True WRITE p s2 = Inl Assertion_failed"
    using triggerEvent_eq [of p s2 "ctxs s2 ! p" WRITE] by (simp add: trigger_if_def ctx_at_def)
  then show ?thesis
    using assms(2,5) c1(2) e1 real both b s2(1)
    by (simp add: idle_event_def ctx_at_def Let_def)
qed

theorem event_removed_after_delivery_aborts_witness:
  "\<exists>s s1. iom_inv s \<and> delEvent_locked 0 1 1 WRITE s = Inr (True, s1)
     \<and> idle_event 0 \<lparr>ep_events = EPOLLIN OR EPOLLOUT, ep_data = Data_ptr 1\<rparr> s1 = Inl Assertion_failed"
proof -
  define s where "s = registered 1 1 WRITE \<lparr>ev_scheduler = Some 1, ev_fiber = None, ev_cb = Some (User_cb 2)\<rparr> ex_iom"
  have inv: "iom_inv s"
    unfolding s_def by (rule iom_inv_registered [OF ex_iom_inv]) simp_all
  have c: "ctx_event (ctxs s ! 1) = READ OR WRITE" "1 < length (ctxs s)"
      "ev_scheduler (ctx_read (ctxs s ! 1)) = Some (m_this s)" "io_pipe_open s"
    by (simp_all add: s_def register_def setEventContext_def)
  have "(READ OR WRITE) AND WRITE \<noteq> 0" by (simp add: event_defs)
  then have d: "delEvent_locked 0 1 1 WRITE s = Inr (True, unregistered 1 1 WRITE s)"
    using c(1,2) by (simp add: delEvent_locked_def ctx_at_def Let_def getEventContext_eq
        unregistered_def unregister_def)
  from event_removed_after_delivery_aborts [OF inv _ c(2) c(1) _ d c(4) c(3)] inv d
  show ?thesis by (metis epoll_event.select_convs)
qed

text \<open>
  C30: an \<open>IOManager\<close> is stopping only when there is nothing left to wait for: \<open>stop\<close> was called, no
  task is queued or running, no timer is armed, and no descriptor is registered for any event.
\<close>

theorem stopping_means_nothing_left:
  assumes "reach io_init io_step s" and "length (ctxs s) < 2 ^ 63" and "tm_wf (io_timers s)"
    and "0 \<le> now" and "\<forall>i\<in>set (m_timers (io_timers s)). next_of (io_timers s) i < 2 ^ 63"
  shows "fst (iom_stopping now s) \<longleftrightarrow> m_timers (io_timers s) = [] \<and> (\<forall>c\<in>set (ctxs s). ctx_event c = 0)
    \<and> m_stopping s \<and> m_tasks s = [] \<and> m_activeThreadCnt s = 0"
proof -
  have inv: "iom_inv s" using assms(1) by (rule io_acc.reach_inv)
  have "m_pendingEventCnt s = 0 \<longleftrightarrow> (\<forall>c\<in>set (ctxs s). ctx_event c = 0)"
  proof
    assume "\<forall>c\<in>set (ctxs s). ctx_event c = 0"
    then have z: "sum_list (map reg_num (ctxs s)) = 0" by (simp add: sum_list_eq_0_iff reg_num_def)
    have eq: "m_pendingEventCnt s = of_nat (sum_list (map reg_num (ctxs s)))"
      using inv unfolding iom_inv_def reg_count_num by blast
    show "m_pendingEventCnt s = 0" unfolding eq z by (rule semiring_1_class.of_nat_0)
  qed (use pending_zero [OF inv assms(2)] in blast)
  moreover obtain w M where "getNextTimer now (io_timers s) = (w, M)" by fastforce
  moreover from this have "w = - 1 \<longleftrightarrow> m_timers (io_timers s) = []"
    using getNextTimer_spec [OF assms(3-5)] by blast
  ultimately show ?thesis
    by (auto simp: iom_stopping_def base_stopping_def)
qed

theorem stopping_means_nothing_left_witness:
  "\<exists>s. reach io_init io_step s \<and> fst (iom_stopping 0 s) \<and> (\<forall>c\<in>set (ctxs s). ctx_event c = 0)"
proof -
  obtain s where s: "io_init s" "length (ctxs s) \<le> 32" "io_timers s = new_manager 0" "m_tasks s = []"
      "m_pendingEventCnt s = 0" "m_activeThreadCnt s = 0" using ex_io_init by blast
  let ?s = "s\<lparr>m_stopping := True\<rparr>"
  have r: "reach io_init io_step ?s"
    using reach_step [OF reach_init [where init = io_init and step = io_step, OF s(1)] io_step.stop] .
  have st: "fst (iom_stopping 0 ?s)"
    using s by (simp add: iom_stopping_def getNextTimer_def new_manager_def Let_def base_stopping_def)
  have "length (ctxs ?s) < 2 ^ 63" "tm_wf (io_timers ?s)"
    using s(2,3) by (simp_all add: tm_wf_def new_manager_def ordered_def)
  from stopping_means_nothing_left [OF r this, of 0] st r s(3) show ?thesis
    by (intro exI [of _ ?s]) (simp add: new_manager_def)
qed

text \<open>
  The timeout \<open>idle\<close> gives to \<open>epoll_wait\<close> is a number of milliseconds from 0 to 5000 (never
  the -1 that means for ever), it does not reach past the next time of any armed timer that is
  still to come, and it is 5000 when no timer is armed.
\<close>

theorem idle_timeout_bounds:
  assumes "tm_wf (io_timers s)" and "0 \<le> now"
    and "\<forall>i\<in>set (m_timers (io_timers s)). next_of (io_timers s) i < 2 ^ 63"
    and "idle_timeout now s = (t, s')"
  shows "0 \<le> t \<and> t \<le> 5000 \<and> (m_timers (io_timers s) = [] \<longrightarrow> t = 5000)
    \<and> (\<forall>i\<in>set (m_timers (io_timers s)). now + t * 1000000 \<le> max now (next_of (io_timers s) i))
    \<and> s' = s\<lparr>io_timers := (io_timers s)\<lparr>m_tickled := False\<rparr>\<rparr>"
proof -
  obtain w M where g: "getNextTimer now (io_timers s) = (w, M)" by fastforce
  note spec = getNextTimer_spec [OF assms(1-3) g]
  have m: "uint (min w MAX_TIMEOUT) \<le> uint w \<and> uint (min w MAX_TIMEOUT) \<le> 5000"
    by (simp add: min_def word_le_def MAX_TIMEOUT_def)
  have "s32 (uint (min w MAX_TIMEOUT)) = uint (min w MAX_TIMEOUT)"
    by (rule s32_id) (use m in \<open>auto intro: order_trans [of _ 0] le_less_trans\<close>)
  then have t: "t = uint (min w MAX_TIMEOUT)"
    using assms(4) g by (simp add: idle_timeout_def)
  have "t = 5000" if "w = - 1"
    using that by (simp add: t MAX_TIMEOUT_def min_def word_le_def uint_minus_1_u64)
  moreover have "now + t * 1000000 \<le> max now (next_of (io_timers s) i)"
    if "i \<in> set (m_timers (io_timers s))" for i
  proof -
    have "now + uint w * 1000000 \<le> max now (next_of (io_timers s) i)" using spec that by blast
    then show ?thesis using m unfolding t by linarith
  qed
  ultimately show ?thesis
    using t m spec assms(4) g by (auto simp: idle_timeout_def)
qed

theorem idle_timeout_bounds_witness:
  "fst (idle_timeout 0 ex_iom) = 5000"
  using idle_timeout_bounds [of ex_iom 0 "fst (idle_timeout 0 ex_iom)" "snd (idle_timeout 0 ex_iom)"]
  by (simp add: tm_wf_def new_manager_def ordered_def)

text \<open>
  A wake-up can be lost, in two ways. A worker that has found the queue empty and has not yet
  counted itself idle is not woken by a task scheduled at that moment; and a task scheduled while
  another one is queued (which may be for another thread) wakes nobody, however many threads are
  idle. In both cases nothing is written to the pipe, and a worker that goes to sleep then may
  stay in \<open>epoll_wait\<close> with the task in the queue for the full 5000 milliseconds.
\<close>

theorem wake_up_can_be_lost:
  assumes "valid_task t" and "m_timers (io_timers s) = []"
  shows "(\<not> hasIdleThreads s \<and> m_tasks s = [] \<longrightarrow>
      (\<exists>s1. run_fetch tid s = Inr (None, s, False) \<and> scheduleLock iom_tickle t s = Inr s1
        \<and> m_tasks (run_idle_enter s1) = [t] \<and> io_pipe (run_idle_enter s1) = io_pipe s
        \<and> fst (idle_timeout now (run_idle_enter s1)) = 5000))
    \<and> (m_tasks s \<noteq> [] \<longrightarrow>
      (\<exists>s1. scheduleLock iom_tickle t s = Inr s1 \<and> m_tasks s1 = m_tasks s @ [t] \<and> io_pipe s1 = io_pipe s
        \<and> fst (idle_timeout now s1) = 5000))"
    (is "?race \<and> ?queued")
proof -
  have w: "s32 (uint (min (- 1 :: u64) MAX_TIMEOUT)) = 5000"
    by (simp add: MAX_TIMEOUT_def min_def word_le_def uint_minus_1_u64 s32_def)
  have ?race
    using assms w by (auto simp: run_fetch_def scheduleLock_def push_task_def iom_tickle_def Let_def
        run_idle_enter_def idle_timeout_def getNextTimer_def hasIdleThreads_def)
  moreover have ?queued
    using assms w by (auto simp: scheduleLock_def push_task_def Let_def idle_timeout_def getNextTimer_def)
  ultimately show ?thesis by blast
qed

theorem wake_up_can_be_lost_witness:
  "\<exists>s1. run_fetch 11 ex_iom = Inr (None, ex_iom, False)
     \<and> scheduleLock iom_tickle (cb_task (Some (User_cb 1)) (- 1)) ex_iom = Inr s1
     \<and> m_tasks (run_idle_enter s1) = [cb_task (Some (User_cb 1)) (- 1)]
     \<and> fst (idle_timeout 0 (run_idle_enter s1)) = 5000"
  using wake_up_can_be_lost [of "cb_task (Some (User_cb 1)) (- 1)" ex_iom 11 0]
  by (auto simp: cb_task_def valid_task_def new_manager_def hasIdleThreads_def)

text \<open>
  C39: two threads that both found the vector too small can undo each other's growth: \<open>addEvent\<close>
  resizes by the descriptor it wants, without looking at the size again under the lock. If the
  thread with the larger descriptor goes first and registers, the other one cuts the vector down
  again: the larger descriptor is out of reach of \<open>delEvent\<close>, \<open>cancelEvent\<close> and \<open>cancelAll\<close>, while
  epoll still watches it and its event stays pending, so the manager cannot stop.
\<close>

theorem stale_resize_loses_descriptor:
  assumes "find_context fd1 s = Inr None" and "find_context fd2 s = Inr None"
    and "0 \<le> fd2" and "fd2 * 3 div 2 \<le> fd1"
    and "addEvent_resize fd1 s = Inr (p, s1)"
    and "addEvent_locked 0 p fd1 event cb s1 l = Inr (0, s2, l')"
    and "addEvent_resize fd2 s2 = Inr (q, s3)"
  shows "delEvent rt fd1 event s3 = Inr (False, s3) \<and> cancelEvent rt fd1 event s3 = Inr (False, s3)
    \<and> cancelAll rt fd1 s3 = Inr (False, s3)
    \<and> io_interest s3 fd1 \<noteq> None \<and> m_pendingEventCnt s3 = m_pendingEventCnt s + 1"
proof -
  let ?n = "nat (fd2 * 3 div 2)"
  have s1: "m_pendingEventCnt s1 = m_pendingEventCnt s"
    using assms(5) contextResize_spec by (auto simp: addEvent_resize_def Let_def res_simps)
  have s2: "io_interest s2 fd1 \<noteq> None" "m_pendingEventCnt s2 = m_pendingEventCnt s1 + 1"
    using addEvent_locked_spec [OF assms(6)] by auto
  have s3: "s3 = contextResize ?n s2"
    using assms(7) by (auto simp: addEvent_resize_def Let_def res_simps)
  then have "length (m_fdContexts s3) = ?n" using contextResize_spec by blast
  then have "find_context fd1 s3 = Inr None"
    using assms(3,4) by (auto simp: find_context_def)
  moreover have "io_interest s3 = io_interest s2" "m_pendingEventCnt s3 = m_pendingEventCnt s2"
    using s3 contextResize_spec by simp_all
  ultimately show ?thesis
    using s1 s2 by (simp add: delEvent_def cancelEvent_def cancelAll_def with_context_def)
qed

text \<open>A resize for a descriptor of at least 2 makes room for it.\<close>

lemma addEvent_resize_ok:
  assumes "2 \<le> fd"
  shows "\<exists>p. addEvent_resize fd s = Inr (p, contextResize (nat (fd * 3 div 2)) s)"
proof -
  let ?n = "nat (fd * 3 div 2)"
  have "fd < fd * 3 div 2" using assms by presburger
  then have "nat fd < ?n" using assms by simp
  moreover have "length (m_fdContexts (contextResize ?n s)) = ?n"
      "m_fdContexts (contextResize ?n s) ! nat fd \<noteq> None"
    using contextResize_spec [of ?n s] calculation by auto
  ultimately show ?thesis
    using assms by (auto simp: addEvent_resize_def Let_def at_res_def)
qed

theorem stale_resize_loses_descriptor_witness:
  "\<exists>s3. cancelEvent 0 200 READ s3 = Inr (False, s3) \<and> io_interest s3 200 \<noteq> None"
proof -
  obtain p where p: "addEvent_resize 200 ex_iom = Inr (p, contextResize 300 ex_iom)"
    using addEvent_resize_ok [of 200 ex_iom] by auto
  let ?s1 = "contextResize 300 ex_iom"
  have r1: "iom_inv ?s1" using contextResize_spec ex_iom_inv by blast
  have sz: "length (m_fdContexts ?s1) = 300"
    and old: "\<And>j. j < 2 \<Longrightarrow> m_fdContexts ?s1 ! j = m_fdContexts ex_iom ! j"
    using contextResize_spec [of 300 ex_iom] by (auto simp: less_2_cases_iff)
  have p1: "m_fdContexts ?s1 ! 200 = Some p"
    using p sz by (auto simp: addEvent_resize_def Let_def res_simps)
  then have pc: "p < length (ctxs ?s1)" "ctx_fd (ctxs ?s1 ! p) = 200"
    using iom_inv_ptr [OF r1 _ p1] sz by simp_all
  obtain cs where cs: "ctxs ?s1 = ctxs ex_iom @ cs" "\<forall>c\<in>set cs. \<exists>fd. c = new_fd_context fd"
    using contextResize_spec by blast
  have "2 \<le> p"
    using pc(2) cs(1) by (cases p; cases "p - 1") (auto simp: register_def setEventContext_def)
  then have "ctxs ?s1 ! p \<in> set cs" using pc(1) cs(1) by (auto simp: nth_append)
  then have free: "ctx_event (ctxs ?s1 ! p) AND READ = 0" using cs(2) by auto
  obtain s2 l' where s2: "addEvent_locked 0 p 200 READ (Some (User_cb 1)) ?s1 ex_locals = Inr (0, s2, l')"
    using addEvent_locked_registers [OF r1 pc(1) _ free, of "Some (User_cb 1)" ex_locals] by auto
  obtain q where "addEvent_resize 40 s2 = Inr (q, contextResize 60 s2)"
    using addEvent_resize_ok [of 40 s2] by auto
  from stale_resize_loses_descriptor [OF _ _ _ _ p s2 this, of 0] show ?thesis
    by (auto simp: find_context_def)
qed

text \<open>No operation guards against a negative descriptor: each one indexes the vector with it.\<close>

lemma negative_descriptor_out_of_bounds:
  "fd < 0 \<Longrightarrow> addEvent rt fd event cb s l = Inl Out_of_bounds \<and> delEvent rt fd event s = Inl Out_of_bounds
    \<and> cancelEvent rt fd event s = Inl Out_of_bounds \<and> cancelAll rt fd s = Inl Out_of_bounds"
  by (simp add: addEvent_def delEvent_def cancelEvent_def cancelAll_def with_context_def
      find_context_def at_res_def)

end
