(* ===== verification/Io_Pool.thy ===== *)
theory Io_Pool
  imports Io_Manager
begin

text \<open>
  The workers of an \<open>IOManager\<close> at once: the loop of \<open>Scheduler::run\<close> with the idle fiber of
  \<open>IOManager::idle\<close>, at the grain at which the threads can interleave. \<open>IOManager::stopping\<close> is
  three readings, one after the other (the timers, the counter of pending events, the
  scheduler), and \<open>idle\<close> first takes the closures of all expired timers and then schedules them
  one by one, so other threads may act in between. Tasks and the threads outside the pool call the
  operations of \<open>Io_Manager\<close> and \<open>Timers\<close>, each one under its lock.
\<close>

section \<open>Workers\<close>

datatype io_pc =
    IFetching                              \<comment> \<open>at the top of the loop of \<open>run\<close>\<close>
  | IHolding schedule_task                 \<comment> \<open>a task taken out and being run\<close>
  | IEmpty                                 \<comment> \<open>no task found, idle fiber not looked at yet\<close>
  | ITesting                               \<comment> \<open>in \<open>idle\<close>, before \<open>stopping()\<close>\<close>
  | ISaw_no_timer                          \<comment> \<open>in \<open>stopping()\<close>: there was no timer\<close>
  | ISaw_no_event                          \<comment> \<open>in \<open>stopping()\<close>: no event was pending either\<close>
  | IWaiting                               \<comment> \<open>not stopping: before the first \<open>epoll_wait\<close>\<close>
  | IPolling                               \<comment> \<open>in \<open>epoll_wait\<close>\<close>
  | IHanding "closure option list" "(int \<times> epoll_event) list"
      \<comment> \<open>with closures to schedule and events to handle (and what \<open>epoll_ctl\<close> will return)\<close>
  | ILeaving                               \<comment> \<open>back from the idle fiber\<close>
  | IExited                                \<comment> \<open>out of the loop\<close>

record io_worker =
  iw_tid :: int
  iw_pc :: io_pc
  iw_term :: bool                          \<comment> \<open>\<open>idle_fiber->getState() == Fiber::TERM\<close>\<close>

record io_pool =
  ip_iom :: iomanager
  ip_workers :: "io_worker list"

definition io_worker_at :: "nat \<Rightarrow> io_pc \<Rightarrow> io_pool \<Rightarrow> bool" where
  "io_worker_at i c p \<longleftrightarrow> i < length (ip_workers p) \<and> iw_pc (ip_workers p ! i) = c"

text \<open>The manager becomes \<open>s\<close> and the worker goes on at \<open>c\<close>.\<close>

definition io_move :: "nat \<Rightarrow> io_pc \<Rightarrow> iomanager \<Rightarrow> io_pool \<Rightarrow> io_pool" where
  "io_move i c s p =
     p\<lparr>ip_iom := s, ip_workers := (ip_workers p)[i := (ip_workers p ! i)\<lparr>iw_pc := c\<rparr>]\<rparr>"

text \<open>\<open>Scheduler::run\<close>, from the lock to the end of \<open>tickle()\<close>\<close>

definition io_fetch :: "nat \<Rightarrow> io_pool \<Rightarrow> io_pool res" where
  "io_fetch i p =
     bind_res (run_fetch (iw_tid (ip_workers p ! i)) (ip_iom p)) (\<lambda>(r, s, tickle_me).
     bind_res (if tickle_me then iom_tickle s else Inr s) (\<lambda>s1.
     Inr (io_move i (case r of Some t \<Rightarrow> IHolding t | None \<Rightarrow> IEmpty) s1 p)))"

text \<open>The fiber of the task has come back.\<close>

definition io_done :: "nat \<Rightarrow> io_pool \<Rightarrow> io_pool" where
  "io_done i p = io_move i IFetching (run_task_done (ip_iom p)) p"

text \<open>Without a task: out of the loop when the idle fiber has ended, else into the idle fiber.\<close>

definition io_no_task :: "nat \<Rightarrow> io_pool \<Rightarrow> io_pool" where
  "io_no_task i p =
     (if iw_term (ip_workers p ! i) then io_move i IExited (ip_iom p) p
      else io_move i ITesting (run_idle_enter (ip_iom p)) p)"

text \<open>The three operands of \<open>IOManager::stopping\<close>, from left to right.\<close>

definition test_timers :: "time_point \<Rightarrow> nat \<Rightarrow> io_pool \<Rightarrow> io_pool" where
  "test_timers now i p =
     (let (timeout, M) = getNextTimer now (io_timers (ip_iom p))
      in io_move i (if timeout = - 1 then ISaw_no_timer else IWaiting)
           ((ip_iom p)\<lparr>io_timers := M\<rparr>) p)"

definition test_events :: "nat \<Rightarrow> io_pool \<Rightarrow> io_pool" where
  "test_events i p =
     io_move i (if m_pendingEventCnt (ip_iom p) = 0 then ISaw_no_event else IWaiting) (ip_iom p) p"

text \<open>With the last one the idle fiber may end.\<close>

definition test_base :: "nat \<Rightarrow> io_pool \<Rightarrow> io_pool" where
  "test_base i p =
     (if base_stopping (ip_iom p)
      then p\<lparr>ip_workers := (ip_workers p)[i := (ip_workers p ! i)\<lparr>iw_pc := ILeaving, iw_term := True\<rparr>]\<rparr>
      else io_move i IWaiting (ip_iom p) p)"

text \<open>A turn of the loop around \<open>epoll_wait\<close>; it is repeated after \<open>EINTR\<close>.\<close>

definition io_poll :: "time_point \<Rightarrow> nat \<Rightarrow> io_pool \<Rightarrow> io_pool" where
  "io_poll now i p = io_move i IPolling (snd (idle_timeout now (ip_iom p))) p"

text \<open>After \<open>epoll_wait\<close>, which delivered \<open>es\<close>: \<open>listExpireCb\<close>\<close>

definition io_expire ::
  "time_point \<Rightarrow> time_point \<Rightarrow> (int \<times> epoll_event) list \<Rightarrow> nat \<Rightarrow> io_pool \<Rightarrow> io_pool option"
where
  "io_expire now1 now2 es i p =
     map_option (\<lambda>(M, cbs). io_move i (IHanding cbs es) ((ip_iom p)\<lparr>io_timers := M\<rparr>) p)
       (listExpireCb now1 now2 (io_timers (ip_iom p)) [])"

text \<open>The two loops that follow, one turn at a time: first the closures, then the events.\<close>

definition io_hand_cb ::
  "closure option \<Rightarrow> closure option list \<Rightarrow> (int \<times> epoll_event) list \<Rightarrow> nat \<Rightarrow> io_pool \<Rightarrow> io_pool res"
where
  "io_hand_cb cb cbs es i p =
     bind_res (scheduleLock iom_tickle (cb_task cb (- 1)) (ip_iom p)) (\<lambda>s.
     Inr (io_move i (IHanding cbs es) s p))"

definition io_hand_event ::
  "int \<Rightarrow> epoll_event \<Rightarrow> (int \<times> epoll_event) list \<Rightarrow> nat \<Rightarrow> io_pool \<Rightarrow> io_pool res"
where
  "io_hand_event rt e es i p =
     bind_res (idle_event rt e (ip_iom p)) (\<lambda>s. Inr (io_move i (IHanding [] es) s p))"

text \<open>The \<open>yield\<close> at the end of the turn, and what \<open>run\<close> does after it.\<close>

definition io_yield :: "nat \<Rightarrow> io_pool \<Rightarrow> io_pool" where
  "io_yield i p = io_move i ILeaving (ip_iom p) p"

definition io_leave :: "nat \<Rightarrow> io_pool \<Rightarrow> io_pool" where
  "io_leave i p = io_move i IFetching (run_idle_leave (ip_iom p)) p"

section \<open>What tasks and other threads do\<close>

text \<open>
  One operation on the manager. Tasks may be scheduled for any thread or for those of \<open>pins\<close>. The
  two halves of \<open>Timer::reset\<close> are taken together, as in \<open>tm_step\<close>.
\<close>

definition iom_reset ::
  "time_point \<Rightarrow> u64 \<Rightarrow> bool \<Rightarrow> timer_ptr \<Rightarrow> iomanager \<Rightarrow> (bool \<times> iomanager) res"
where
  "iom_reset now ms from_now i s =
     (let (b, M, at_front) = timer_reset now ms from_now i (io_timers s);
          s1 = s\<lparr>io_timers := M\<rparr>
      in bind_res (if at_front then onTimerInsertedAtFront s1 else Inr s1) (\<lambda>s2. Inr (b, s2)))"

inductive user_op :: "int set \<Rightarrow> iomanager \<Rightarrow> iomanager \<Rightarrow> bool" for pins where
  resize: "user_op pins s (contextResize n s)"
| add: "addEvent_locked rt c fd event cb s l = Inr (r, s', l') \<Longrightarrow> user_op pins s s'"
| del: "delEvent_locked rt c fd event s = Inr (b, s') \<Longrightarrow> user_op pins s s'"
| cancel: "cancelEvent_locked rt c fd event s = Inr (b, s') \<Longrightarrow> user_op pins s s'"
| cancel_all: "cancelAll_locked rt c fd s = Inr (b, s') \<Longrightarrow> user_op pins s s'"
| schedule: "task_thread t \<in> insert (- 1) pins \<Longrightarrow> scheduleLock iom_tickle t s = Inr s' \<Longrightarrow> user_op pins s s'"
| add_timer: "iom_addTimer now ms cb r s = Inr (q, s') \<Longrightarrow> user_op pins s s'"
| add_condition_timer: "iom_addConditionTimer now ms cb w r s = Inr (q, s') \<Longrightarrow> user_op pins s s'"
| cancel_timer: "q < length (objs (io_timers s)) \<Longrightarrow>
    user_op pins s (s\<lparr>io_timers := snd (timer_cancel q (io_timers s))\<rparr>)"
| refresh_timer: "q < length (objs (io_timers s)) \<Longrightarrow>
    user_op pins s (s\<lparr>io_timers := snd (timer_refresh now q (io_timers s))\<rparr>)"
| reset_timer: "q < length (objs (io_timers s)) \<Longrightarrow> iom_reset now ms from_now q s = Inr (b, s') \<Longrightarrow>
    user_op pins s s'"

section \<open>Steps of the pool\<close>

text \<open>
  A worker in a task calls the operations. Threads outside the pool may call them as well while
  \<open>stop\<close> has not been called, if \<open>ext\<close> allows it. The clock is never negative.
\<close>

inductive io_pool_step :: "bool \<Rightarrow> int set \<Rightarrow> io_pool \<Rightarrow> io_pool \<Rightarrow> bool" for ext pins where
  task_op: "io_worker_at i (IHolding t) p \<Longrightarrow> user_op pins (ip_iom p) s \<Longrightarrow>
    io_pool_step ext pins p (p\<lparr>ip_iom := s\<rparr>)"
| outside_op: "ext \<Longrightarrow> \<not> m_stopping (ip_iom p) \<Longrightarrow> user_op pins (ip_iom p) s \<Longrightarrow>
    io_pool_step ext pins p (p\<lparr>ip_iom := s\<rparr>)"
| stop: "io_pool_step ext pins p (p\<lparr>ip_iom := (ip_iom p)\<lparr>m_stopping := True\<rparr>\<rparr>)"
| stop_tickle: "iom_tickle (ip_iom p) = Inr s \<Longrightarrow> io_pool_step ext pins p (p\<lparr>ip_iom := s\<rparr>)"
| fetch: "io_worker_at i IFetching p \<Longrightarrow> io_fetch i p = Inr p' \<Longrightarrow> io_pool_step ext pins p p'"
| finish: "io_worker_at i (IHolding t) p \<Longrightarrow> io_pool_step ext pins p (io_done i p)"
| no_task: "io_worker_at i IEmpty p \<Longrightarrow> io_pool_step ext pins p (io_no_task i p)"
| see_timers: "io_worker_at i ITesting p \<Longrightarrow> 0 \<le> now \<Longrightarrow> io_pool_step ext pins p (test_timers now i p)"
| see_events: "io_worker_at i ISaw_no_timer p \<Longrightarrow> io_pool_step ext pins p (test_events i p)"
| see_base: "io_worker_at i ISaw_no_event p \<Longrightarrow> io_pool_step ext pins p (test_base i p)"
| poll: "io_worker_at i IWaiting p \<or> io_worker_at i IPolling p \<Longrightarrow> 0 \<le> now \<Longrightarrow>
    io_pool_step ext pins p (io_poll now i p)"
| expire: "io_worker_at i IPolling p \<Longrightarrow> io_expire now1 now2 es i p = Some p' \<Longrightarrow>
    io_pool_step ext pins p p'"
| hand_cb: "io_worker_at i (IHanding (cb # cbs) es) p \<Longrightarrow> io_hand_cb cb cbs es i p = Inr p' \<Longrightarrow>
    io_pool_step ext pins p p'"
| hand_event: "io_worker_at i (IHanding [] ((rt, e) # es)) p \<Longrightarrow> io_hand_event rt e es i p = Inr p' \<Longrightarrow>
    io_pool_step ext pins p p'"
| yield: "io_worker_at i (IHanding [] []) p \<Longrightarrow> io_pool_step ext pins p (io_yield i p)"
| leave: "io_worker_at i ILeaving p \<Longrightarrow> io_pool_step ext pins p (io_leave i p)"

text \<open>\<open>n\<close> workers about to enter their loops, over a manager that may already have work.\<close>

definition next_bounded :: "timer_manager \<Rightarrow> bool" where
  "next_bounded M \<longleftrightarrow> (\<forall>t\<in>set (objs M). m_next t < 2 ^ 63)"

definition manager_ok :: "int set \<Rightarrow> iomanager \<Rightarrow> bool" where
  "manager_ok pins s \<longleftrightarrow> iom_inv s \<and> tm_wf (io_timers s) \<and> next_bounded (io_timers s)
     \<and> (\<forall>t\<in>set (m_tasks s). valid_task t \<and> task_thread t \<in> insert (- 1) pins)"

definition io_pool_init :: "nat \<Rightarrow> int set \<Rightarrow> io_pool \<Rightarrow> bool" where
  "io_pool_init n pins p \<longleftrightarrow> manager_ok pins (ip_iom p) \<and> m_activeThreadCnt (ip_iom p) = 0
     \<and> length (ip_workers p) = n \<and> (\<forall>w\<in>set (ip_workers p). iw_pc w = IFetching \<and> \<not> iw_term w)"

section \<open>What an operation keeps\<close>

text \<open>Next times stay inside the clock's 64 bits, so \<open>getNextTimer\<close> never mistakes one for \<open>~0ull\<close>.\<close>

lemma tp_add_bounded [simplified, simp]: "tp_add t ms < 2 ^ 63"
  using s64_range by (simp add: tp_add_def)

lemma next_bounded_objs: "objs M' = objs M \<Longrightarrow> next_bounded M' = next_bounded M"
  by (simp add: next_bounded_def)

lemma next_bounded_upd:
  "next_bounded M \<Longrightarrow> m_next (f (objs M ! i)) < 2 ^ 63 \<Longrightarrow> next_bounded (upd_timer i f M)"
  using set_update_subset_insert [of "objs M" i "f (objs M ! i)"]
  by (auto simp: next_bounded_def upd_timer_def)

lemma next_bounded_timers [simp]:
  "next_bounded (M\<lparr>m_timers := ts\<rparr>) = next_bounded M"
  "next_bounded (M\<lparr>m_preTime := t\<rparr>) = next_bounded M"
  "next_bounded (M\<lparr>m_tickled := b\<rparr>) = next_bounded M"
  by (simp_all add: next_bounded_def)

lemma next_bounded_add: "next_bounded M \<Longrightarrow> next_bounded (fst (addTimer_ptr i M))"
  by (simp add: addTimer_ptr_fst)

lemma next_bounded_addTimer: "next_bounded M \<Longrightarrow> next_bounded (fst (snd (addTimer now ms cb r M)))"
  unfolding addTimer_def Let_def snd_conv
  by (rule next_bounded_add) (simp add: next_bounded_def new_timer_def)

lemma next_bounded_nth: "next_bounded M \<Longrightarrow> i < length (objs M) \<Longrightarrow> m_next (objs M ! i) < 2 ^ 63"
  by (simp add: next_bounded_def)

lemma next_bounded_expire_one: "next_bounded M \<Longrightarrow> i < length (objs M) \<Longrightarrow> next_bounded (expire_one now i M)"
  by (auto simp: expire_one_def Let_def intro!: next_bounded_upd dest: next_bounded_nth)

lemma next_bounded_step:
  assumes "tm_step M M'" and "tm_wf M" and "next_bounded M"
  shows "next_bounded M'"
  using assms(1)
proof cases
  case (cancel i)
  then show ?thesis
    using assms(3) by (auto simp: timer_cancel_def Let_def split: option.splits
        intro!: next_bounded_upd dest: next_bounded_nth)
next
  case (refresh i now)
  then show ?thesis
    using assms(3) by (auto simp: timer_refresh_def Let_def split: option.splits intro!: next_bounded_upd)
next
  case (reset i now ms from_now)
  then show ?thesis
    using assms(3) by (auto simp: timer_reset_def timer_reset_take_def timer_reset_put_def Let_def
        split: option.splits intro!: next_bounded_add next_bounded_upd)
next
  case (expire now now2 cbs cbs')
  have "tm_wf M' \<and> next_bounded M'"
  proof (rule expire_loop_inv [where Q = "\<lambda>M. tm_wf M \<and> next_bounded M"])
    show "expire_loop (fst (detectClockRollover now2 M)) now (M\<lparr>m_preTime := now2\<rparr>) cbs = Some (M', cbs')"
      using expire by (simp add: listExpireCb_def detectClockRollover_def)
  next
    fix M j rest
    assume a: "tm_wf M \<and> next_bounded M" "m_timers M = j # rest"
    then have "j < length (objs M)" by (simp add: tm_wf_def)
    with a show "tm_wf (expire_one now j M) \<and> next_bounded (expire_one now j M)"
      by (blast intro: tm_wf_expire_one next_bounded_expire_one)
  qed (use assms(2,3) in simp)
  then show ?thesis by simp
next
  case (get_next now)
  have "objs (snd (getNextTimer now M)) = objs M"
    by (simp add: getNextTimer_def Let_def split: list.splits)
  then show ?thesis using get_next assms(3) by (simp add: next_bounded_def)
qed (use assms(3) in \<open>simp_all add: next_bounded_addTimer addConditionTimer_def\<close>)

text \<open>
  An operation on the manager keeps its well-formedness, does not touch \<open>m_stopping\<close> and the
  count of active threads, and takes nothing out of the queue.
\<close>

definition op_ok :: "int set \<Rightarrow> iomanager \<Rightarrow> iomanager \<Rightarrow> bool" where
  "op_ok pins s s' \<longleftrightarrow> (manager_ok pins s \<longrightarrow> manager_ok pins s') \<and> m_stopping s' = m_stopping s
     \<and> m_activeThreadCnt s' = m_activeThreadCnt s \<and> (m_tasks s' = [] \<longrightarrow> m_tasks s = [])"

text \<open>The part of it that scheduling does.\<close>

definition grows :: "int set \<Rightarrow> iomanager \<Rightarrow> iomanager \<Rightarrow> bool" where
  "grows pins s s' \<longleftrightarrow> m_stopping s' = m_stopping s \<and> m_activeThreadCnt s' = m_activeThreadCnt s
     \<and> io_timers s' = io_timers s
     \<and> (\<exists>ts. m_tasks s' = m_tasks s @ ts
          \<and> (\<forall>t\<in>set ts. valid_task t \<and> task_thread t \<in> insert (- 1) pins))"

lemma grows_refl: "grows pins s s"
  by (simp add: grows_def)

lemma grows_trans: "grows pins s t \<Longrightarrow> grows pins t u \<Longrightarrow> grows pins s u"
  unfolding grows_def by (metis Un_iff append.assoc set_append)

lemma grows_cong:
  "m_stopping s' = m_stopping s \<Longrightarrow> m_activeThreadCnt s' = m_activeThreadCnt s \<Longrightarrow>
   io_timers s' = io_timers s \<Longrightarrow> m_tasks s' = m_tasks s \<Longrightarrow> grows pins s s'"
  by (simp add: grows_def)

lemma op_ok_grows: "grows pins s s' \<Longrightarrow> (iom_inv s \<Longrightarrow> iom_inv s') \<Longrightarrow> op_ok pins s s'"
  by (auto simp: grows_def op_ok_def manager_ok_def)

lemma grows_schedule:
  "task_thread t \<in> insert (- 1) pins \<Longrightarrow> scheduleLock iom_tickle t s = Inr s' \<Longrightarrow> grows pins s s'"
  using scheduleLock_same_io [of t s s'] iom_sink.sched_queue [of t s s']
  by (auto simp: grows_def same_io_def)

lemma grows_schedule_on:
  assumes "task_thread t = - 1" and "schedule_on q t s = Inr s'"
  shows "grows pins s s'"
  using assms grows_schedule [of t pins s s']
  by (auto simp: schedule_on_def res_simps grows_cong split: if_splits)

lemma event_task_thread [simp]: "task_thread (event_task ec) = - 1"
  by (simp add: event_task_def cb_task_def fiber_task_def)

lemma grows_trigger_if:
  assumes "trigger_if b event c s = Inr s'"
  shows "grows pins s s'"
proof (cases b)
  case True
  then obtain s1 where s1: "triggerEvent event c s = Inr s1"
      "s' = s1\<lparr>m_pendingEventCnt := m_pendingEventCnt s1 - 1\<rparr>"
    using assms by (auto simp: trigger_if_def res_simps)
  from trigger_spec [OF s1(1)] obtain s2 where
    s2: "schedule_on (ev_scheduler (ev_of event (ctxs s ! c))) (event_task (ev_of event (ctxs s ! c))) s = Inr s2"
      "s1 = put_ctx c (unregister event (ctxs s ! c)) s2" by blast
  have "grows pins s s2" by (rule grows_schedule_on [OF event_task_thread s2(1)])
  then show ?thesis by (simp add: s1(2) s2(2) put_ctx_def grows_def)
qed (use assms in \<open>simp add: trigger_if_def grows_refl\<close>)

lemma grows_ctl: "grows pins s (ctl op fd ev d s)"
  by (simp add: grows_def ctl_def)

lemma grows_idle_event:
  assumes "idle_event rt e s = Inr s'"
  shows "grows pins s s'"
proof (cases "ep_data e")
  case (Data_fd fd)
  then show ?thesis using assms by (auto simp: idle_event_def grows_cong split: if_splits)
next
  case (Data_ptr c)
  then show ?thesis
    using assms grows_ctl grows_trans
    by (auto simp: idle_event_def Let_def res_simps grows_refl split: if_splits
        dest!: grows_trigger_if [where pins = pins])
      (meson grows_ctl grows_trans)+
qed

text \<open>An operation on the timers, with the call of \<open>onTimerInsertedAtFront\<close> after it.\<close>

lemma op_ok_timers:
  assumes "tm_step (io_timers s) M"
    and "bind_res (if at_front then onTimerInsertedAtFront (s\<lparr>io_timers := M\<rparr>) else Inr (s\<lparr>io_timers := M\<rparr>))
          (\<lambda>s2. Inr (q, s2)) = Inr (q', s')"
  shows "op_ok pins s s'"
  using assms(2) tm_wf_step [OF assms(1)] next_bounded_step [OF assms(1)]
  by (auto simp: res_simps onTimerInsertedAtFront_def iom_tickle_eq op_ok_def manager_ok_def iom_inv_def
      split: if_splits)

lemma op_ok_timers_quiet:
  "tm_step (io_timers s) M \<Longrightarrow> op_ok pins s (s\<lparr>io_timers := M\<rparr>)"
  by (rule op_ok_timers [of s M False "()"]) simp_all

lemma grows_addEvent:
  "addEvent_locked rt c fd event cb s l = Inr (r, s', l') \<Longrightarrow> grows pins s s'"
  by (drule addEvent_locked_spec) (auto simp: grows_refl registered_def Let_def put_ctx_def ctl_def grows_def)

lemma grows_unregistered: "grows pins s (unregistered c fd event s)"
  by (simp add: unregistered_def Let_def put_ctx_def ctl_def grows_def)

lemma grows_cancelEvent:
  assumes "cancelEvent_locked rt c fd event s = Inr (b, s')"
  shows "grows pins s s'"
proof (cases "s' = s")
  case False
  with cancelEvent_locked_spec [OF assms] obtain s1 where
    "schedule_on (ev_scheduler (ev_of event (ctxs s ! c))) (event_task (ev_of event (ctxs s ! c))) s = Inr s1"
    "s' = unregistered c fd event s1" by (auto split: if_splits)
  then show ?thesis
    using grows_schedule_on [OF event_task_thread] grows_unregistered grows_trans by blast
qed (simp add: grows_refl)

lemma grows_cancelAll:
  assumes "cancelAll_locked rt c fd s = Inr (b, s')"
  shows "grows pins s s'"
  using assms
proof (cases rule: cancelAll_locked_cases)
  case (2 s1)
  show ?thesis
    by (rule grows_trans [OF grows_ctl grows_trans [OF grows_trigger_if [OF 2(5)] grows_trigger_if [OF 2(6)]]])
qed (simp add: grows_refl)

lemma grows_resize: "grows pins s (contextResize n s)"
  using contextResize_spec fill_contexts_timers by (simp add: grows_def contextResize_def)

lemma user_op_ok: "user_op pins s s' \<Longrightarrow> op_ok pins s s'"
proof (induction rule: user_op.induct)
  case (resize s n)
  then show ?case using contextResize_spec by (intro op_ok_grows grows_resize) blast
next
  case (add rt c fd event cb s l r s' l')
  then show ?case using iom_inv_addEvent_locked by (blast intro: op_ok_grows grows_addEvent)
next
  case (del rt c fd event s b s')
  have "grows pins s s'"
    using delEvent_locked_spec [OF del] by (auto simp: grows_refl grows_unregistered split: if_splits)
  then show ?case using iom_inv_delEvent_locked [OF _ del] by (rule op_ok_grows)
next
  case (cancel rt c fd event s b s')
  then show ?case using iom_inv_cancelEvent_locked by (blast intro: op_ok_grows grows_cancelEvent)
next
  case (cancel_all rt c fd s b s')
  then show ?case using iom_inv_cancelAll_locked by (blast intro: op_ok_grows grows_cancelAll)
next
  case (schedule t s s')
  then show ?case
    using scheduleLock_same_io iom_inv_same_io by (blast intro: op_ok_grows grows_schedule)
next
  case (add_timer now ms cb r s q s')
  then show ?case
    using op_ok_timers [OF tm_step.add] by (auto simp: iom_addTimer_def Let_def case_prod_beta)
next
  case (add_condition_timer now ms cb w r s q s')
  then show ?case
    using op_ok_timers [OF tm_step.add_cond] by (auto simp: iom_addConditionTimer_def Let_def case_prod_beta)
next
  case (reset_timer q s now ms from_now b s')
  then show ?case
    using op_ok_timers [OF tm_step.reset] by (auto simp: iom_reset_def Let_def case_prod_beta)
qed (auto intro: op_ok_timers_quiet tm_step.intros)

section \<open>The accounts of the pool\<close>

definition io_holds :: "io_worker \<Rightarrow> bool" where
  "io_holds w \<longleftrightarrow> (case iw_pc w of IHolding t \<Rightarrow> True | _ \<Rightarrow> False)"

definition io_active :: "io_worker \<Rightarrow> u64" where
  "io_active w = (if io_holds w then 1 else 0)"

text \<open>A worker whose idle fiber has ended is in the loop of \<open>run\<close>, and \<open>stop\<close> was called.\<close>

definition io_worker_ok :: "iomanager \<Rightarrow> io_worker \<Rightarrow> bool" where
  "io_worker_ok s w \<longleftrightarrow> (iw_pc w = IExited \<longrightarrow> iw_term w)
     \<and> (iw_term w \<longrightarrow> m_stopping s \<and> (io_holds w \<or> iw_pc w \<in> {ILeaving, IFetching, IEmpty, IExited}))"

definition all_ended :: "io_pool \<Rightarrow> bool" where
  "all_ended p \<longleftrightarrow> (\<forall>w\<in>set (ip_workers p). iw_term w)"

definition drained :: "io_pool \<Rightarrow> bool" where
  "drained p \<longleftrightarrow> m_tasks (ip_iom p) = [] \<and> (\<forall>w\<in>set (ip_workers p). \<not> io_holds w)"

text \<open>
  The manager is well-formed, the active threads are those with a task, only a worker whose idle
  fiber has ended has left, and only after \<open>stop\<close>. Once all idle fibers have ended, nothing is left:
  the last one to end has seen an empty queue and nobody active, and the others could only have
  made new tasks by running one. (Counting in 64 bits must not hide a holder.)
\<close>

definition io_pool_inv :: "int set \<Rightarrow> io_pool \<Rightarrow> bool" where
  "io_pool_inv pins p \<longleftrightarrow> manager_ok pins (ip_iom p)
     \<and> m_activeThreadCnt (ip_iom p) = sum_list (map io_active (ip_workers p))
     \<and> (\<forall>w\<in>set (ip_workers p). io_worker_ok (ip_iom p) w)
     \<and> (length (ip_workers p) < 2 ^ 64 \<longrightarrow> ip_workers p \<noteq> [] \<longrightarrow> all_ended p \<longrightarrow> drained p)"

lemma io_active_count:
  "sum_list (map io_active ws) = of_nat (length (filter io_holds ws))"
  by (induction ws) (simp_all add: io_active_def)

lemma io_active_zero:
  assumes "sum_list (map io_active ws) = 0" and "length ws < 2 ^ 64"
  shows "\<forall>w\<in>set ws. \<not> io_holds w"
proof -
  let ?n = "length (filter io_holds ws)"
  have "?n < 2 ^ 64" using assms(2) length_filter_le [of io_holds ws] by linarith
  moreover have "(of_nat ?n :: u64) = 0" using assms(1) by (simp add: io_active_count)
  ultimately have "?n = 0" by (auto simp: word_of_nat_eq_0_iff dest: nat_dvd_not_less)
  then show ?thesis by (simp add: filter_empty_conv)
qed

lemma io_move_sel [simp]:
  "ip_iom (io_move i c s p) = s"
  "ip_workers (io_move i c s p) = (ip_workers p)[i := (ip_workers p ! i)\<lparr>iw_pc := c\<rparr>]"
  by (simp_all add: io_move_def)

lemma io_pool_inv_worker:
  assumes inv: "io_pool_inv pins p" and i: "i < length (ip_workers p)"
    and q: "ip_workers q = (ip_workers p)[i := w]" and ok: "manager_ok pins (ip_iom q)"
    and act: "m_activeThreadCnt (ip_iom q) =
      m_activeThreadCnt (ip_iom p) - io_active (ip_workers p ! i) + io_active w"
    and st: "m_stopping (ip_iom p) \<Longrightarrow> m_stopping (ip_iom q)" and w: "io_worker_ok (ip_iom q) w"
    and ended: "length (ip_workers p) < 2 ^ 64 \<Longrightarrow> all_ended q \<Longrightarrow> drained q"
  shows "io_pool_inv pins q"
proof -
  have "m_activeThreadCnt (ip_iom q) = sum_list (map io_active (ip_workers q))"
    using inv act sum_list_update_group [OF i, of io_active w] by (simp add: io_pool_inv_def q)
  moreover have "\<forall>v\<in>set (ip_workers q). io_worker_ok (ip_iom q) v"
    using inv st w set_update_subset_insert [of "ip_workers p" i w]
    by (auto simp: io_pool_inv_def q io_worker_ok_def)
  ultimately show ?thesis using ok ended by (simp add: io_pool_inv_def q)
qed

text \<open>The last condition, for a worker that moves and whose idle fiber does not end now.\<close>

lemma drained_keep:
  assumes "io_pool_inv pins p" and "i < length (ip_workers p)" and "ip_workers q = (ip_workers p)[i := w]"
    and "iw_term w = iw_term (ip_workers p ! i)" and "length (ip_workers p) < 2 ^ 64"
    and "iw_term w \<Longrightarrow> m_tasks (ip_iom p) = [] \<Longrightarrow> m_tasks (ip_iom q) = [] \<and> \<not> io_holds w"
    and "all_ended q"
  shows "drained q"
proof -
  have "iw_term w" using assms(2,3,7) by (simp add: all_ended_def set_update_memI)
  moreover have "iw_term v" if v: "v \<in> set (ip_workers p)" for v
  proof -
    obtain j where j: "j < length (ip_workers p)" "v = ip_workers p ! j" using v by (metis in_set_conv_nth)
    then have "iw_term (ip_workers q ! j)" using assms(3,7) by (simp add: all_ended_def)
    then show ?thesis using j assms(2-4) \<open>iw_term w\<close> by (cases "j = i") simp_all
  qed
  ultimately have "drained p" "iw_term w"
    using assms(1,2,5) by (auto simp: io_pool_inv_def all_ended_def)
  then show ?thesis
    using assms(3,6) set_update_subset_insert [of "ip_workers p" i w] by (auto simp: drained_def)
qed

lemma manager_ok_cong:
  "ctxs s' = ctxs s \<Longrightarrow> m_pendingEventCnt s' = m_pendingEventCnt s \<Longrightarrow> m_fdContexts s' = m_fdContexts s \<Longrightarrow>
   io_timers s' = io_timers s \<Longrightarrow> set (m_tasks s') \<subseteq> set (m_tasks s) \<Longrightarrow>
   manager_ok pins s \<Longrightarrow> manager_ok pins s'"
  by (auto simp: manager_ok_def iom_inv_def)

lemma manager_ok_timers: "manager_ok pins s \<Longrightarrow> tm_step (io_timers s) M \<Longrightarrow> manager_ok pins (s\<lparr>io_timers := M\<rparr>)"
  using op_ok_timers_quiet by (simp add: op_ok_def)

lemma iom_tickle_pipe: "iom_tickle s = Inr s' \<Longrightarrow> \<exists>n. s' = s\<lparr>io_pipe := n\<rparr>"
  by (rule exI [of _ "io_pipe s'"]) (simp add: iom_tickle_eq split: if_splits)

lemma io_fetch_spec:
  assumes "io_fetch i p = Inr p'" and "manager_ok pins (ip_iom p)"
  obtains n where "p' = io_move i IEmpty ((ip_iom p)\<lparr>io_pipe := n\<rparr>) p"
      "\<forall>t\<in>set (m_tasks (ip_iom p)). \<not> eligible (iw_tid (ip_workers p ! i)) t"
  | xs t ys n where "m_tasks (ip_iom p) = xs @ t # ys"
      "p' = io_move i (IHolding t) ((ip_iom p)\<lparr>m_tasks := xs @ ys,
         m_activeThreadCnt := m_activeThreadCnt (ip_iom p) + 1, io_pipe := n\<rparr>) p"
proof -
  let ?tid = "iw_tid (ip_workers p ! i)"
  have v: "\<forall>t\<in>set (m_tasks (ip_iom p)). valid_task t" using assms(2) by (simp add: manager_ok_def)
  obtain r s tk where f: "run_fetch ?tid (ip_iom p) = Inr (r, s, tk)"
      "case r of
         None \<Rightarrow> s = ip_iom p \<and> (\<forall>t\<in>set (m_tasks (ip_iom p)). \<not> eligible ?tid t)
       | Some t \<Rightarrow> \<exists>xs ys. m_tasks (ip_iom p) = xs @ t # ys \<and> eligible ?tid t
           \<and> (\<forall>u\<in>set xs. \<not> eligible ?tid u)
           \<and> s = (ip_iom p)\<lparr>m_tasks := xs @ ys, m_activeThreadCnt := m_activeThreadCnt (ip_iom p) + 1\<rparr>"
    using run_fetch_spec [OF v, of ?tid] by blast
  obtain s1 where s1: "(if tk then iom_tickle s else Inr s) = Inr s1"
      "p' = io_move i (case r of Some t \<Rightarrow> IHolding t | None \<Rightarrow> IEmpty) s1 p"
    using assms(1) f(1) by (auto simp: io_fetch_def res_simps)
  obtain n where n: "s1 = s\<lparr>io_pipe := n\<rparr>"
  proof (cases tk)
    case True
    then show thesis using s1(1) iom_tickle_pipe [of s s1] that by auto
  next
    case False
    then have "s1 = s\<lparr>io_pipe := io_pipe s\<rparr>" using s1(1) by simp
    then show thesis by (rule that)
  qed
  show thesis
  proof (cases r)
    case None
    then show thesis using f(2) s1(2) n by (intro that(1)) simp_all
  next
    case (Some t)
    then show thesis using f(2) s1(2) n that(2) by auto
  qed
qed

lemmas io_pool_defs = io_done_def io_no_task_def test_timers_def test_events_def test_base_def io_poll_def
  io_yield_def io_leave_def io_hand_cb_def io_hand_event_def io_expire_def
  run_task_done_def run_idle_enter_def run_idle_leave_def

lemmas io_states = io_active_def io_holds_def io_worker_ok_def

lemma io_worker_at_iff:
  "io_worker_at i c p \<longleftrightarrow> i < length (ip_workers p) \<and> iw_pc (ip_workers p ! i) = c"
  by (simp add: io_worker_at_def)

lemma io_pool_inv_okD:
  "io_pool_inv pins p \<Longrightarrow> i < length (ip_workers p) \<Longrightarrow> io_worker_ok (ip_iom p) (ip_workers p ! i)"
  by (simp add: io_pool_inv_def)

text \<open>An operation by somebody who does not move, while some idle fiber has not ended or a task runs.\<close>

lemma io_pool_inv_op:
  assumes "io_pool_inv pins p" and "op_ok pins (ip_iom p) s"
    and "ip_workers p = [] \<or> \<not> all_ended p \<or> \<not> drained p"
  shows "io_pool_inv pins (p\<lparr>ip_iom := s\<rparr>)"
  using assms by (auto simp: io_pool_inv_def op_ok_def io_worker_ok_def all_ended_def drained_def)

text \<open>A worker in the idle fiber does something to the manager and moves on.\<close>

lemma io_pool_inv_move:
  assumes "io_pool_inv pins p" and "io_worker_at i c p" and "op_ok pins (ip_iom p) s"
    and "\<forall>t. c \<noteq> IHolding t" and "\<forall>t. c' \<noteq> IHolding t" and "c' \<noteq> IExited"
    and "\<not> iw_term (ip_workers p ! i)"
  shows "io_pool_inv pins (io_move i c' s p)"
proof (rule io_pool_inv_worker [OF assms(1), of i _ "(ip_workers p ! i)\<lparr>iw_pc := c'\<rparr>"])
  show i: "i < length (ip_workers p)" using assms(2) by (simp add: io_worker_at_def)
  show "drained (io_move i c' s p)" if "length (ip_workers p) < 2 ^ 64" "all_ended (io_move i c' s p)"
    by (rule drained_keep [OF assms(1) i io_move_sel(2) _ that(1) _ that(2)]) (simp_all add: assms(7))
qed (use assms io_pool_inv_okD [OF assms(1)] in
      \<open>auto simp: io_worker_at_def op_ok_def io_states io_pool_inv_def split: io_pc.splits\<close>)

lemma io_idle_not_ended:
  assumes "io_pool_inv pins p" and "io_worker_at i c p" and "c \<notin> {ILeaving, IFetching, IEmpty, IExited}"
    and "\<forall>t. c \<noteq> IHolding t"
  shows "\<not> iw_term (ip_workers p ! i)"
  using io_pool_inv_okD [OF assms(1), of i] assms(2-4)
  by (auto simp: io_worker_at_def io_worker_ok_def io_holds_def split: io_pc.splits)

lemma io_pool_inv_idle:
  assumes "io_pool_inv pins p" and "io_worker_at i c p" and "op_ok pins (ip_iom p) s"
    and "\<forall>t. c \<noteq> IHolding t" and "c \<notin> {ILeaving, IFetching, IEmpty, IExited}"
    and "\<forall>t. c' \<noteq> IHolding t" and "c' \<noteq> IExited"
  shows "io_pool_inv pins (io_move i c' s p)"
  using io_idle_not_ended [OF assms(1,2,5,4)] by (rule io_pool_inv_move [OF assms(1-4,6,7)])

lemma op_okI:
  "ctxs s' = ctxs s \<Longrightarrow> m_pendingEventCnt s' = m_pendingEventCnt s \<Longrightarrow> m_fdContexts s' = m_fdContexts s \<Longrightarrow>
   io_timers s' = io_timers s \<Longrightarrow> m_tasks s' = m_tasks s \<Longrightarrow> m_stopping s' = m_stopping s \<Longrightarrow>
   m_activeThreadCnt s' = m_activeThreadCnt s \<Longrightarrow> op_ok pins s s'"
  by (simp add: op_ok_def manager_ok_def iom_inv_def)

lemma op_ok_refl: "op_ok pins s s"
  by (simp add: op_ok_def)

lemma op_ok_pipe [simp]: "op_ok pins s (s\<lparr>io_pipe := n\<rparr>)"
  by (rule op_okI) simp_all

lemma op_ok_next: "op_ok pins s (s\<lparr>io_timers := snd (getNextTimer now (io_timers s))\<rparr>)"
  by (rule op_ok_timers_quiet [OF tm_step.get_next])

lemma io_pool_inv_fetch:
  assumes "io_pool_inv pins p" and "io_worker_at i IFetching p" and "io_fetch i p = Inr p'"
  shows "io_pool_inv pins p'"
proof -
  have ok: "manager_ok pins (ip_iom p)" using assms(1) by (simp add: io_pool_inv_def)
  have i: "i < length (ip_workers p)" "iw_pc (ip_workers p ! i) = IFetching"
    using assms(2) by (simp_all add: io_worker_at_def)
  show ?thesis
    using assms(3) ok
  proof (cases rule: io_fetch_spec)
    case (1 n)
    let ?w = "(ip_workers p ! i)\<lparr>iw_pc := IEmpty\<rparr>"
    have q: "ip_workers p' = (ip_workers p)[i := ?w]" "m_tasks (ip_iom p') = m_tasks (ip_iom p)"
      by (simp_all add: 1)
    show ?thesis
    proof (rule io_pool_inv_worker [OF assms(1) i(1) q(1)])
      show "drained p'" if "length (ip_workers p) < 2 ^ 64" "all_ended p'"
        by (rule drained_keep [OF assms(1) i(1) q(1) _ that(1) _ that(2)]) (simp_all add: q(2) io_holds_def)
    qed (use 1(1) i io_pool_inv_okD [OF assms(1) i(1)] ok op_ok_pipe [of pins "ip_iom p" n] in
          \<open>auto simp: io_states op_ok_def\<close>)
  next
    case (2 xs t ys n)
    let ?w = "(ip_workers p ! i)\<lparr>iw_pc := IHolding t\<rparr>"
    have q: "ip_workers p' = (ip_workers p)[i := ?w]" by (simp add: 2)
    show ?thesis
    proof (rule io_pool_inv_worker [OF assms(1) i(1) q])
      show "manager_ok pins (ip_iom p')" by (rule manager_ok_cong [OF _ _ _ _ _ ok]) (auto simp: 2)
      show "drained p'" if "length (ip_workers p) < 2 ^ 64" "all_ended p'"
        by (rule drained_keep [OF assms(1) i(1) q _ that(1) _ that(2)]) (simp_all add: 2(1))
    qed (use 2 i io_pool_inv_okD [OF assms(1) i(1)] in \<open>auto simp: io_states\<close>)
  qed
qed

text \<open>A worker in the loop of \<open>run\<close> moves and leaves the queue as it is.\<close>

lemma io_pool_inv_run:
  assumes "io_pool_inv pins p" and "i < length (ip_workers p)" and "manager_ok pins s"
    and "m_tasks s = m_tasks (ip_iom p)" and "m_stopping s = m_stopping (ip_iom p)"
    and "m_activeThreadCnt s = m_activeThreadCnt (ip_iom p) - io_active (ip_workers p ! i)"
    and "c = IFetching \<or> c = IExited \<and> iw_term (ip_workers p ! i)"
  shows "io_pool_inv pins (io_move i c s p)"
proof (rule io_pool_inv_worker [OF assms(1,2) io_move_sel(2)])
  show "drained (io_move i c s p)" if "length (ip_workers p) < 2 ^ 64" "all_ended (io_move i c s p)"
    by (rule drained_keep [OF assms(1,2) io_move_sel(2) _ that(1) _ that(2)])
      (use assms(4,7) in \<open>auto simp: io_holds_def\<close>)
qed (use assms io_pool_inv_okD [OF assms(1,2)] in \<open>auto simp: io_states\<close>)

lemma io_pool_inv_local:
  assumes "io_pool_inv pins p"
  shows "io_worker_at i (IHolding t) p \<Longrightarrow> io_pool_inv pins (io_done i p)"
    and "io_worker_at i IEmpty p \<Longrightarrow> io_pool_inv pins (io_no_task i p)"
    and "io_worker_at i ILeaving p \<Longrightarrow> io_pool_inv pins (io_leave i p)"
    and "io_worker_at i ISaw_no_event p \<Longrightarrow> io_pool_inv pins (test_base i p)"
proof -
  note ok = io_pool_inv_okD [OF assms]
  have m: "manager_ok pins (ip_iom p)" using assms by (simp add: io_pool_inv_def)
  show "io_worker_at i (IHolding t) p \<Longrightarrow> io_pool_inv pins (io_done i p)"
    using manager_ok_cong [OF _ _ _ _ _ m, of "run_task_done (ip_iom p)"] unfolding io_done_def
    by (intro io_pool_inv_run [OF assms]) (simp_all add: io_worker_at_def run_task_done_def io_states)
  show "io_worker_at i ILeaving p \<Longrightarrow> io_pool_inv pins (io_leave i p)"
    using manager_ok_cong [OF _ _ _ _ _ m, of "run_idle_leave (ip_iom p)"] unfolding io_leave_def
    by (intro io_pool_inv_run [OF assms]) (simp_all add: io_worker_at_def run_idle_leave_def io_states)
  show "io_worker_at i IEmpty p \<Longrightarrow> io_pool_inv pins (io_no_task i p)"
  proof (cases "iw_term (ip_workers p ! i)")
    case True
    then show "io_worker_at i IEmpty p \<Longrightarrow> ?thesis"
      using io_pool_inv_run [OF assms _ m, of i IExited]
      by (simp add: io_worker_at_def io_no_task_def io_states)
  next
    case False
    then show "io_worker_at i IEmpty p \<Longrightarrow> ?thesis"
      using io_pool_inv_move [OF assms, of i IEmpty "run_idle_enter (ip_iom p)" ITesting] op_okI
      by (auto simp: io_no_task_def run_idle_enter_def)
  qed
  show "io_pool_inv pins (test_base i p)" if at: "io_worker_at i ISaw_no_event p"
  proof (cases "base_stopping (ip_iom p)")
    case True
    let ?w = "(ip_workers p ! i)\<lparr>iw_pc := ILeaving, iw_term := True\<rparr>"
    have q: "test_base i p = p\<lparr>ip_workers := (ip_workers p)[i := ?w]\<rparr>" using True by (simp add: test_base_def)
    have i: "i < length (ip_workers p)" "iw_pc (ip_workers p ! i) = ISaw_no_event"
      using at by (simp_all add: io_worker_at_def)
    have "drained (test_base i p)" if "length (ip_workers p) < 2 ^ 64"
    proof -
      have "\<forall>v\<in>set (ip_workers p). \<not> io_holds v"
        using io_active_zero [OF _ that] True assms by (simp add: io_pool_inv_def base_stopping_def)
      then show ?thesis
        using True set_update_subset_insert [of "ip_workers p" i ?w]
        by (auto simp: q drained_def base_stopping_def io_holds_def)
    qed
    then show ?thesis
      using m i by (intro io_pool_inv_worker [OF assms i(1), of _ ?w])
        (simp_all add: q io_states True [unfolded base_stopping_def])
  next
    case False
    then show ?thesis
      using io_pool_inv_idle [OF assms at op_ok_refl, of IWaiting] by (simp add: test_base_def)
  qed
qed

lemma io_pool_inv_step: "io_pool_step ext pins p p' \<Longrightarrow> io_pool_inv pins p \<Longrightarrow> io_pool_inv pins p'"
proof (induction rule: io_pool_step.induct)
  case (task_op i t p s)
  have "io_holds (ip_workers p ! i)" "ip_workers p ! i \<in> set (ip_workers p)"
    using task_op(1) by (simp_all add: io_worker_at_def io_holds_def)
  then have "\<not> drained p" by (auto simp: drained_def)
  then show ?case using io_pool_inv_op [OF task_op(3) user_op_ok [OF task_op(2)]] by blast
next
  case (outside_op p s)
  have "ip_workers p = [] \<or> \<not> all_ended p"
    using outside_op(2,4) hd_in_set [of "ip_workers p"]
    by (auto simp: io_pool_inv_def io_worker_ok_def all_ended_def)
  then show ?case using io_pool_inv_op [OF outside_op(4) user_op_ok [OF outside_op(3)]] by blast
next
  case (stop p)
  then show ?case
    by (simp add: io_pool_inv_def manager_ok_def iom_inv_def io_worker_ok_def all_ended_def drained_def)
next
  case (stop_tickle p s)
  obtain n where "s = (ip_iom p)\<lparr>io_pipe := n\<rparr>" using iom_tickle_pipe [OF stop_tickle(1)] by blast
  then show ?case
    using stop_tickle(2)
    by (simp add: io_pool_inv_def manager_ok_def iom_inv_def io_worker_ok_def all_ended_def drained_def)
next
  case (fetch i p p')
  then show ?case by (blast intro: io_pool_inv_fetch)
next
  case (see_timers i p now)
  then show ?case
    using io_pool_inv_idle [OF see_timers(3,1) op_ok_next] by (simp add: test_timers_def case_prod_beta)
next
  case (see_events i p)
  then show ?case using io_pool_inv_idle [OF see_events(2,1) op_ok_refl] by (simp add: test_events_def)
next
  case (poll i p now)
  have "op_ok pins (ip_iom p) (snd (idle_timeout now (ip_iom p)))"
    using op_ok_next by (simp add: idle_timeout_def case_prod_beta)
  with poll(1) show ?case
    using io_pool_inv_idle [OF poll(3)] unfolding io_poll_def by auto
next
  case (expire i p now1 now2 es p')
  then obtain M cbs where "listExpireCb now1 now2 (io_timers (ip_iom p)) [] = Some (M, cbs)"
      "p' = io_move i (IHanding cbs es) ((ip_iom p)\<lparr>io_timers := M\<rparr>) p"
    by (auto simp: io_expire_def)
  then show ?case
    using io_pool_inv_idle [OF expire(3,1) op_ok_timers_quiet [OF tm_step.expire]] by simp
next
  case (hand_cb i cb cbs es p p')
  then obtain s where s: "scheduleLock iom_tickle (cb_task cb (- 1)) (ip_iom p) = Inr s"
      "p' = io_move i (IHanding cbs es) s p" by (auto simp: io_hand_cb_def res_simps)
  have "user_op pins (ip_iom p) s" using s(1) by (rule user_op.schedule [rotated]) (simp add: cb_task_def)
  then show ?case using io_pool_inv_idle [OF hand_cb(3,1) user_op_ok] s(2) by simp
next
  case (hand_event i rt e es p p')
  then obtain s where s: "idle_event rt e (ip_iom p) = Inr s" "p' = io_move i (IHanding [] es) s p"
    by (auto simp: io_hand_event_def res_simps)
  have "op_ok pins (ip_iom p) s"
    using grows_idle_event [OF s(1)] iom_inv_idle_event [OF _ s(1)] by (rule op_ok_grows)
  then show ?case using io_pool_inv_idle [OF hand_event(3,1)] s(2) by simp
next
  case (yield i p)
  then show ?case using io_pool_inv_idle [OF yield(2,1) op_ok_refl] by (simp add: io_yield_def)
qed (auto intro: io_pool_inv_local)

lemma sum_list_zero: "\<forall>x\<in>set xs. f x = 0 \<Longrightarrow> sum_list (map f xs) = (0 :: u64)"
  by (induction xs) simp_all

lemma io_pool_inv_init: "io_pool_init n pins p \<Longrightarrow> io_pool_inv pins p"
proof -
  assume a: "io_pool_init n pins p"
  then have "\<forall>w\<in>set (ip_workers p). io_active w = 0 \<and> io_worker_ok (ip_iom p) w \<and> \<not> iw_term w"
    by (auto simp: io_pool_init_def io_states)
  moreover from this have "sum_list (map io_active (ip_workers p)) = 0"
    by (simp add: sum_list_zero)
  ultimately show ?thesis
    using a by (cases "ip_workers p") (auto simp: io_pool_inv_def io_pool_init_def all_ended_def)
qed

interpretation io_pool_acc: inductive_invariant "io_pool_init n pins" "io_pool_step ext pins" "io_pool_inv pins"
  by unfold_locales (auto intro: io_pool_inv_init io_pool_inv_step)

section \<open>A worker on its own\<close>

text \<open>What all three readings of \<open>IOManager::stopping\<close> would find at once.\<close>

definition quiet :: "iomanager \<Rightarrow> bool" where
  "quiet s \<longleftrightarrow> m_timers (io_timers s) = [] \<and> m_pendingEventCnt s = 0 \<and> base_stopping s"

definition lone_ok :: "iomanager \<Rightarrow> io_worker \<Rightarrow> bool" where
  "lone_ok s w \<longleftrightarrow>
     (iw_pc w = ISaw_no_timer \<longrightarrow> m_timers (io_timers s) = [])
     \<and> (iw_pc w = ISaw_no_event \<longrightarrow> m_timers (io_timers s) = [] \<and> m_pendingEventCnt s = 0)
     \<and> (iw_term w \<longrightarrow> iw_pc w \<in> {ILeaving, IFetching, IEmpty, IExited} \<and> quiet s)"

definition lone_inv :: "int set \<Rightarrow> io_pool \<Rightarrow> bool" where
  "lone_inv pins p \<longleftrightarrow> io_pool_inv pins p \<and> length (ip_workers p) = 1
     \<and> lone_ok (ip_iom p) (ip_workers p ! 0)"

lemma no_next_timer:
  assumes "manager_ok pins s" and "0 \<le> now" and "fst (getNextTimer now (io_timers s)) = - 1"
  shows "m_timers (io_timers s) = []"
proof -
  have "next_of (io_timers s) i < 2 ^ 63" if "i \<in> set (m_timers (io_timers s))" for i
    using assms(1) that next_bounded_nth [of "io_timers s" i]
    by (simp add: manager_ok_def tm_wf_def next_of_def)
  moreover obtain M where "getNextTimer now (io_timers s) = (- 1, M)"
    using assms(3) by (metis prod.collapse)
  ultimately show ?thesis
    using getNextTimer_spec [of "io_timers s" now "- 1" M] assms(1,2) by (auto simp: manager_ok_def)
qed

lemma getNextTimer_timers [simp]: "m_timers (snd (getNextTimer now M)) = m_timers M"
  by (simp add: getNextTimer_def Let_def split: list.splits)

lemma io_step_length: "io_pool_step ext pins p p' \<Longrightarrow> length (ip_workers p') = length (ip_workers p)"
  by (induction rule: io_pool_step.induct)
    (auto simp: io_fetch_def res_simps io_pool_defs Let_def case_prod_beta)

lemma io_reach_length:
  "reach (io_pool_init n pins) (io_pool_step ext pins) p \<Longrightarrow> length (ip_workers p) = n"
  by (induction rule: reach.induct) (simp_all add: io_pool_init_def io_step_length)

lemmas lone_defs = lone_ok_def io_worker_at_def

lemma lone_ok_step:
  assumes "lone_inv pins p" and "io_pool_step False pins p p'"
  shows "lone_ok (ip_iom p') (ip_workers p' ! 0)"
proof -
  have inv: "manager_ok pins (ip_iom p)" and len: "length (ip_workers p) = 1"
    and l: "lone_ok (ip_iom p) (ip_workers p ! 0)"
    using assms(1) by (simp_all add: lone_inv_def io_pool_inv_def)
  from assms(2) show ?thesis
  proof cases
    case (fetch i)
    then have i: "i = 0" "iw_pc (ip_workers p ! 0) = IFetching" using len by (auto simp: io_worker_at_def)
    from fetch(2) inv show ?thesis
    proof (cases rule: io_fetch_spec)
      case (1 n)
      then show ?thesis using l i len by (auto simp: lone_ok_def quiet_def base_stopping_def)
    next
      case (2 xs t ys n)
      then show ?thesis using l i len by (auto simp: lone_ok_def quiet_def base_stopping_def)
    qed
  next
    case (stop_tickle s)
    then obtain n where "p' = p\<lparr>ip_iom := (ip_iom p)\<lparr>io_pipe := n\<rparr>\<rparr>" using iom_tickle_pipe by blast
    then show ?thesis using l by (simp add: lone_ok_def quiet_def base_stopping_def)
  next
    case (see_timers i now)
    then show ?thesis
      using l len no_next_timer [OF inv see_timers(3)]
      by (auto simp: lone_defs test_timers_def case_prod_beta)
  next
    case (expire i now1 now2 es)
    then show ?thesis using l len by (auto simp: lone_defs io_expire_def)
  next
    case (see_base i)
    then show ?thesis using l len by (auto simp: lone_defs test_base_def quiet_def)
  next
    case (hand_cb i cb cbs es)
    then show ?thesis using l len by (auto simp: lone_defs io_hand_cb_def res_simps)
  next
    case (hand_event i rt e es)
    then show ?thesis using l len by (auto simp: lone_defs io_hand_event_def res_simps)
  next
    case (no_task i)
    then show ?thesis using l len by (auto simp: lone_defs io_no_task_def)
  next
    case (see_events i)
    then show ?thesis using l len by (auto simp: lone_defs test_events_def)
  next
    case (leave i)
    then show ?thesis
      using l len by (auto simp: lone_defs io_leave_def run_idle_leave_def quiet_def base_stopping_def)
  next
    case stop
    then show ?thesis using l by (simp add: lone_ok_def quiet_def base_stopping_def)
  next
    case (poll i now)
    then show ?thesis using l len by (auto simp: lone_defs io_poll_def)
  next
    case (task_op i t s)
    then have "iw_pc (ip_workers p ! 0) = IHolding t" using len by (auto simp: io_worker_at_def)
    then show ?thesis using l by (simp add: task_op(1) lone_ok_def)
  qed (use l len in \<open>simp_all add: lone_defs io_done_def io_yield_def\<close>)
qed

lemma lone_inv_step: "io_pool_step False pins p p' \<Longrightarrow> lone_inv pins p \<Longrightarrow> lone_inv pins p'"
  using lone_ok_step io_step_length io_pool_inv_step by (simp add: lone_inv_def)

lemma lone_inv_init: "io_pool_init 1 pins p \<Longrightarrow> lone_inv pins p"
  using io_pool_inv_init by (auto simp: lone_inv_def io_pool_init_def lone_ok_def)

interpretation lone_worker: inductive_invariant "io_pool_init 1 pins" "io_pool_step False pins" "lone_inv pins"
  by unfold_locales (auto intro: lone_inv_init lone_inv_step)

section \<open>Runs\<close>

lemma two_steps: "r a b \<Longrightarrow> r b c \<Longrightarrow> r\<^sup>*\<^sup>* a c"
  and three_steps: "r a b \<Longrightarrow> r b c \<Longrightarrow> r c d \<Longrightarrow> r\<^sup>*\<^sup>* a d"
  by (rule converse_rtranclp_into_rtranclp rtranclp.rtrancl_refl | assumption)+

text \<open>A worker that finds the queue empty comes to the test of its idle fiber.\<close>

lemma run_to_test:
  assumes "io_worker_at i IFetching p" and "\<not> iw_term (ip_workers p ! i)" and "m_tasks (ip_iom p) = []"
  shows "(io_pool_step ext pins)\<^sup>*\<^sup>* p (io_move i ITesting (run_idle_enter (ip_iom p)) p)"
proof -
  let ?p1 = "io_move i IEmpty (ip_iom p) p"
  have "io_fetch i p = Inr ?p1" using assms(3) by (simp add: io_fetch_def run_fetch_def)
  then have "io_pool_step ext pins p ?p1" by (rule io_pool_step.fetch [OF assms(1)])
  moreover have "io_pool_step ext pins ?p1 (io_no_task i ?p1)"
    using assms(1) by (intro io_pool_step.no_task) (simp add: io_worker_at_def)
  moreover have "io_no_task i ?p1 = io_move i ITesting (run_idle_enter (ip_iom p)) p"
    using assms(1,2) by (simp add: io_no_task_def io_move_def io_worker_at_def)
  ultimately show ?thesis using two_steps [of "io_pool_step ext pins"] by metis
qed

text \<open>A worker whose idle fiber has ended leaves its loop if the queue is empty.\<close>

lemma run_to_exit:
  assumes "io_worker_at i ILeaving p" and "iw_term (ip_workers p ! i)" and "m_tasks (ip_iom p) = []"
  shows "(io_pool_step ext pins)\<^sup>*\<^sup>* p (io_move i IExited (run_idle_leave (ip_iom p)) p)"
proof -
  let ?p1 = "io_leave i p"
  let ?p2 = "io_move i IEmpty (ip_iom ?p1) ?p1"
  have i: "i < length (ip_workers p)" using assms(1) by (simp add: io_worker_at_def)
  have "io_pool_step ext pins p ?p1" by (rule io_pool_step.leave [OF assms(1)])
  moreover have "io_fetch i ?p1 = Inr ?p2"
    using assms(3) i by (simp add: io_fetch_def run_fetch_def io_leave_def run_idle_leave_def)
  then have "io_pool_step ext pins ?p1 ?p2"
    using i by (intro io_pool_step.fetch) (simp_all add: io_worker_at_def io_leave_def)
  moreover have "io_pool_step ext pins ?p2 (io_no_task i ?p2)"
    using i by (intro io_pool_step.no_task) (simp add: io_worker_at_def io_leave_def)
  moreover have "io_no_task i ?p2 = io_move i IExited (run_idle_leave (ip_iom p)) p"
    using assms(2) i by (simp add: io_no_task_def io_leave_def io_move_def)
  ultimately show ?thesis using three_steps [of "io_pool_step ext pins"] by metis
qed

text \<open>The last reading of \<open>stopping()\<close> and the way out.\<close>

lemma run_base_to_exit:
  assumes "io_worker_at i ISaw_no_event p" and "base_stopping (ip_iom p)"
  shows "\<exists>q. (io_pool_step ext pins)\<^sup>*\<^sup>* p q \<and> io_worker_at i IExited q
    \<and> ip_iom q = run_idle_leave (ip_iom p) \<and> length (ip_workers q) = length (ip_workers p)"
proof -
  let ?p1 = "test_base i p"
  have i: "i < length (ip_workers p)" using assms(1) by (simp add: io_worker_at_def)
  have p1: "io_worker_at i ILeaving ?p1" "iw_term (ip_workers ?p1 ! i)" "ip_iom ?p1 = ip_iom p"
      "length (ip_workers ?p1) = length (ip_workers p)"
    using i assms(2) by (simp_all add: test_base_def io_worker_at_def)
  have "io_pool_step ext pins p ?p1" by (rule io_pool_step.see_base [OF assms(1)])
  moreover have "(io_pool_step ext pins)\<^sup>*\<^sup>* ?p1 (io_move i IExited (run_idle_leave (ip_iom p)) ?p1)"
    using run_to_exit [OF p1(1,2)] p1(3) assms(2) by (simp add: base_stopping_def)
  ultimately show ?thesis
    using i p1(4) by (intro exI [of _ "io_move i IExited (run_idle_leave (ip_iom p)) ?p1"])
      (auto simp: io_worker_at_def intro: converse_rtranclp_into_rtranclp)
qed

text \<open>The first two readings, when there is nothing to see.\<close>

lemma run_to_base:
  assumes "io_worker_at i ITesting p" and "m_timers (io_timers (ip_iom p)) = []"
    and "m_pendingEventCnt (ip_iom p) = 0"
  shows "(io_pool_step ext pins)\<^sup>*\<^sup>* p
    (io_move i ISaw_no_event ((ip_iom p)\<lparr>io_timers := (io_timers (ip_iom p))\<lparr>m_tickled := False\<rparr>\<rparr>) p)"
proof -
  let ?s = "(ip_iom p)\<lparr>io_timers := (io_timers (ip_iom p))\<lparr>m_tickled := False\<rparr>\<rparr>"
  have i: "i < length (ip_workers p)" using assms(1) by (simp add: io_worker_at_def)
  have t: "test_timers 0 i p = io_move i ISaw_no_timer ?s p"
    using assms(2) by (simp add: test_timers_def getNextTimer_def Let_def)
  have "io_pool_step ext pins p (test_timers 0 i p)" by (rule io_pool_step.see_timers [OF assms(1)]) simp
  moreover have "io_pool_step ext pins (test_timers 0 i p) (test_events i (test_timers 0 i p))"
    using i by (intro io_pool_step.see_events) (simp add: t io_worker_at_def)
  moreover have "test_events i (test_timers 0 i p) = io_move i ISaw_no_event ?s p"
    using assms(3) i by (simp add: t test_events_def io_move_def)
  ultimately show ?thesis using two_steps [of "io_pool_step ext pins"] by metis
qed

text \<open>Where everything is done, a worker leaves.\<close>

lemma run_quiet:
  assumes "io_worker_at i IFetching p" and "\<not> iw_term (ip_workers p ! i)" and "quiet (ip_iom p)"
  shows "\<exists>q. (io_pool_step ext pins)\<^sup>*\<^sup>* p q \<and> io_worker_at i IExited q
    \<and> length (ip_workers q) = length (ip_workers p) \<and> ctxs (ip_iom q) = ctxs (ip_iom p)"
proof -
  have i: "i < length (ip_workers p)" using assms(1) by (simp add: io_worker_at_def)
  let ?p1 = "io_move i ITesting (run_idle_enter (ip_iom p)) p"
  let ?p2 = "io_move i ISaw_no_event ((ip_iom ?p1)\<lparr>io_timers := (io_timers (ip_iom ?p1))\<lparr>m_tickled := False\<rparr>\<rparr>) ?p1"
  have "(io_pool_step ext pins)\<^sup>*\<^sup>* p ?p1"
    using run_to_test [OF assms(1,2)] assms(3) by (simp add: quiet_def base_stopping_def)
  moreover have "(io_pool_step ext pins)\<^sup>*\<^sup>* ?p1 ?p2"
    using assms(3) i by (intro run_to_base) (simp_all add: io_worker_at_def quiet_def run_idle_enter_def)
  moreover have "io_worker_at i ISaw_no_event ?p2" "base_stopping (ip_iom ?p2)"
    using assms(3) i by (simp_all add: io_worker_at_def quiet_def base_stopping_def run_idle_enter_def)
  from run_base_to_exit [OF this, of ext pins] obtain q where q: "(io_pool_step ext pins)\<^sup>*\<^sup>* ?p2 q"
      "io_worker_at i IExited q" "ip_iom q = run_idle_leave (ip_iom ?p2)"
      "length (ip_workers q) = length (ip_workers ?p2)" by blast
  moreover from q(3,4) have "length (ip_workers q) = length (ip_workers p)" "ctxs (ip_iom q) = ctxs (ip_iom p)"
    by (simp_all add: run_idle_enter_def run_idle_leave_def)
  ultimately show ?thesis by (meson rtranclp_trans)
qed

text \<open>What is done to the manager after the second reading and before \<open>stop\<close> is not seen.\<close>

lemma run_missing:
  assumes "io_worker_at i ISaw_no_event p" and "\<not> m_stopping (ip_iom p)"
    and "user_op pins (ip_iom p) s" and "m_tasks s = []" and "m_activeThreadCnt s = 0"
  shows "\<exists>q. (io_pool_step True pins)\<^sup>*\<^sup>* p q \<and> io_worker_at i IExited q
    \<and> ip_iom q = run_idle_leave (s\<lparr>m_stopping := True\<rparr>) \<and> length (ip_workers q) = length (ip_workers p)"
proof -
  let ?p1 = "p\<lparr>ip_iom := s\<rparr>"
  let ?p2 = "?p1\<lparr>ip_iom := (ip_iom ?p1)\<lparr>m_stopping := True\<rparr>\<rparr>"
  have "io_pool_step True pins p ?p1" using assms(2,3) by (intro io_pool_step.outside_op) simp_all
  moreover have "io_pool_step True pins ?p1 ?p2" by (rule io_pool_step.stop)
  moreover obtain q where "(io_pool_step True pins)\<^sup>*\<^sup>* ?p2 q" "io_worker_at i IExited q"
      "ip_iom q = run_idle_leave (s\<lparr>m_stopping := True\<rparr>)" "length (ip_workers q) = length (ip_workers p)"
    using run_base_to_exit [of i ?p2 True pins] assms(1,4,5) by (auto simp: io_worker_at_def base_stopping_def)
  ultimately show ?thesis by (meson converse_rtranclp_into_rtranclp)
qed

lemma addTimer_first:
  assumes "m_timers (io_timers s) = []" and "io_pipe_open s"
  shows "\<exists>s'. iom_addTimer now ms cb r s = Inr (length (objs (io_timers s)), s')
    \<and> m_timers (io_timers s') = [length (objs (io_timers s))]
    \<and> objs (io_timers s') = objs (io_timers s) @ [new_timer now ms cb r]
    \<and> m_tasks s' = m_tasks s \<and> m_activeThreadCnt s' = m_activeThreadCnt s"
  using assms by (auto simp: iom_addTimer_def addTimer_def addTimer_ptr_def Let_def
      onTimerInsertedAtFront_def iom_tickle_def)

section \<open>Where the runs begin, and the turn of the idle fiber in one piece\<close>

lemma start_loop_keeps:
  "start_loop answer is s = Inr s' \<Longrightarrow> m_tasks s' = m_tasks s \<and> io_timers s' = io_timers s
   \<and> m_activeThreadCnt s' = m_activeThreadCnt s"
  for s :: iomanager
  by (induction "is" arbitrary: s) (auto simp: res_simps)

text \<open>The manager a constructor has made is one the workers can start on.\<close>

lemma new_manager_starts_pool:
  assumes "io_init s" and "\<forall>w\<in>set ws. iw_pc w = IFetching \<and> \<not> iw_term w"
  shows "io_pool_init (length ws) pins \<lparr>ip_iom = s, ip_workers = ws\<rparr>"
proof -
  from assms(1) obtain this tid n uc name l base l1 fds epfd now answer where
    b: "new_scheduler this tid n uc name l = Inr (base, l1)" and
    st: "start answer (contextResize 32 (ctl CTL_ADD (fst fds) (EPOLLIN OR EPOLLET) (Data_fd (fst fds))
      (scheduler.extend base (iomanager.fields (new_manager now) epfd fds 0 [] [] (\<lambda>_. None) 0 True []))))
      = Inr s" (is "start answer (contextResize 32 ?s0) = _")
    by (auto simp: io_init_def new_iomanager_def res_simps Let_def)
  have "m_activeThreadCnt base = 0" "m_tasks base = []"
    using b by (auto simp: new_scheduler_def res_simps Let_def case_prod_beta split: if_splits)
  then have "m_tasks s = []" "io_timers s = new_manager now" "m_activeThreadCnt s = 0"
    using st grows_resize [of "{}" ?s0 32] contextResize_spec [of 32 ?s0]
    by (auto simp: start_def res_simps grows_def ctl_def scheduler.defs iomanager.defs
        split: if_splits dest!: start_loop_keeps)
  moreover have "next_bounded (new_manager now)" by (simp add: next_bounded_def new_manager_def)
  ultimately show ?thesis
    using assms iom_inv_init by (simp add: io_pool_init_def manager_ok_def tm_wf_new_manager)
qed

lemma io_move_move [simp]: "io_move i c s (io_move i c' s' p) = io_move i c s p"
  by (cases "i < length (ip_workers p)") (simp_all add: io_move_def list_update_beyond)

lemma io_worker_at_move [simp]: "io_worker_at i c (io_move i c s p) \<longleftrightarrow> i < length (ip_workers p)"
  by (auto simp: io_worker_at_def)

lemma run_polls:
  assumes "io_worker_at i IWaiting p \<or> io_worker_at i IPolling p" and "waits \<noteq> []" and "\<forall>now\<in>set waits. 0 \<le> now"
  shows "(io_pool_step ext pins)\<^sup>*\<^sup>* p
    (io_move i IPolling (fold (\<lambda>now s. snd (idle_timeout now s)) waits (ip_iom p)) p)"
  using assms
proof (induction waits arbitrary: p)
  case (Cons now waits)
  let ?p = "io_poll now i p"
  have i: "i < length (ip_workers p)" using Cons.prems(1) by (auto simp: io_worker_at_def)
  have step: "io_pool_step ext pins p ?p" using Cons.prems by (intro io_pool_step.poll) simp_all
  show ?case
  proof (cases "waits = []")
    case True
    then show ?thesis using step by (simp add: io_poll_def)
  next
    case False
    then have "(io_pool_step ext pins)\<^sup>*\<^sup>* ?p
        (io_move i IPolling (fold (\<lambda>now s. snd (idle_timeout now s)) waits (ip_iom ?p)) ?p)"
      using i Cons.prems(3) by (intro Cons.IH) (simp_all add: io_poll_def)
    with step show ?thesis by (simp add: io_poll_def converse_rtranclp_into_rtranclp)
  qed
qed simp

lemma run_hand_cbs:
  "io_worker_at i (IHanding cbs es) p \<Longrightarrow> schedule_cbs cbs (ip_iom p) = Inr s \<Longrightarrow>
   (io_pool_step ext pins)\<^sup>*\<^sup>* p (io_move i (IHanding [] es) s p)"
proof (induction cbs arbitrary: p)
  case Nil
  then have "io_move i (IHanding [] es) s p = p"
    by (auto simp: io_move_def io_worker_at_def list_update_same_conv)
  then show ?case by simp
next
  case (Cons cb cbs)
  then obtain s1 where s1: "scheduleLock iom_tickle (cb_task cb (- 1)) (ip_iom p) = Inr s1"
      "schedule_cbs cbs s1 = Inr s" by (auto simp: res_simps)
  have i: "i < length (ip_workers p)" using Cons.prems(1) by (simp add: io_worker_at_def)
  have "io_pool_step ext pins p (io_move i (IHanding cbs es) s1 p)"
    using s1(1) by (intro io_pool_step.hand_cb [OF Cons.prems(1)]) (simp add: io_hand_cb_def)
  then show ?case
    using Cons.IH [of "io_move i (IHanding cbs es) s1 p"] s1(2) i
    by (simp add: converse_rtranclp_into_rtranclp)
qed

lemma run_hand_events:
  "io_worker_at i (IHanding [] es) p \<Longrightarrow> idle_events es (ip_iom p) = Inr s \<Longrightarrow>
   (io_pool_step ext pins)\<^sup>*\<^sup>* p (io_move i (IHanding [] []) s p)"
proof (induction es arbitrary: p)
  case Nil
  then have "io_move i (IHanding [] []) s p = p"
    by (auto simp: io_move_def io_worker_at_def list_update_same_conv)
  then show ?case by simp
next
  case (Cons re es)
  obtain rt e where re: "re = (rt, e)" by (cases re)
  then obtain s1 where s1: "idle_event rt e (ip_iom p) = Inr s1" "idle_events es s1 = Inr s"
    using Cons.prems(2) by (auto simp: res_simps)
  have i: "i < length (ip_workers p)" using Cons.prems(1) by (simp add: io_worker_at_def)
  have "io_pool_step ext pins p (io_move i (IHanding [] es) s1 p)"
    using s1(1) Cons.prems(1) by (intro io_pool_step.hand_event [of i rt e es]) (simp_all add: re io_hand_event_def)
  then show ?case
    using Cons.IH [of "io_move i (IHanding [] es) s1 p"] s1(2) i
    by (simp add: converse_rtranclp_into_rtranclp)
qed

text \<open>The three readings with nobody in between are \<open>iom_stopping\<close>.\<close>

lemma run_stopping:
  assumes "io_worker_at i ITesting p" and "0 \<le> now" and "iom_stopping now (ip_iom p) = (ends, s)"
  shows "(io_pool_step ext pins)\<^sup>*\<^sup>* p
    (if ends then p\<lparr>ip_iom := s,
         ip_workers := (ip_workers p)[i := (ip_workers p ! i)\<lparr>iw_pc := ILeaving, iw_term := True\<rparr>]\<rparr>
     else io_move i IWaiting s p)"
proof -
  obtain w M where g: "getNextTimer now (io_timers (ip_iom p)) = (w, M)" by fastforce
  have i: "i < length (ip_workers p)" using assms(1) by (simp add: io_worker_at_def)
  have s: "s = (ip_iom p)\<lparr>io_timers := M\<rparr>" "ends = (w = - 1 \<and> m_pendingEventCnt (ip_iom p) = 0 \<and> base_stopping (ip_iom p))"
    using assms(3) g by (auto simp: iom_stopping_def)
  let ?p1 = "test_timers now i p"
  have 1: "io_pool_step ext pins p ?p1" by (rule io_pool_step.see_timers [OF assms(1,2)])
  have p1: "?p1 = io_move i (if w = - 1 then ISaw_no_timer else IWaiting) s p"
    using g by (simp add: test_timers_def s)
  show ?thesis
  proof (cases "w = - 1")
    case False
    then show ?thesis using 1 s(2) by (simp add: p1 r_into_rtranclp)
  next
    case True
    let ?p2 = "test_events i ?p1"
    have 2: "io_pool_step ext pins ?p1 ?p2" using i True by (intro io_pool_step.see_events) (simp add: p1)
    have p2: "?p2 = io_move i (if m_pendingEventCnt (ip_iom p) = 0 then ISaw_no_event else IWaiting) s p"
      using True by (simp add: test_events_def p1 s(1))
    show ?thesis
    proof (cases "m_pendingEventCnt (ip_iom p) = 0")
      case False
      then show ?thesis using two_steps [of "io_pool_step ext pins", OF 1 2] s(2) by (simp add: p2)
    next
      case pend: True
      let ?p3 = "test_base i ?p2"
      have 3: "io_pool_step ext pins ?p2 ?p3" using i pend by (intro io_pool_step.see_base) (simp add: p2)
      have "?p3 = (if ends then p\<lparr>ip_iom := s,
           ip_workers := (ip_workers p)[i := (ip_workers p ! i)\<lparr>iw_pc := ILeaving, iw_term := True\<rparr>]\<rparr>
         else io_move i IWaiting s p)"
        using True pend i by (auto simp: test_base_def p2 s base_stopping_def io_move_def)
      then show ?thesis using three_steps [of "io_pool_step ext pins", OF 1 2 3] by simp
    qed
  qed
qed

text \<open>The whole turn of \<open>idle\<close>, with nobody in between, is \<open>idle_turn\<close>.\<close>

lemma idle_turn_is_a_run:
  assumes "io_worker_at i ITesting p" and "0 \<le> now0" and "waits \<noteq> []" and "\<forall>now\<in>set waits. 0 \<le> now"
    and "idle_turn now0 waits now1 now2 es (ip_iom p) = Some (Inr (ends, s'))"
  shows "(io_pool_step ext pins)\<^sup>*\<^sup>* p
    (if ends then p\<lparr>ip_iom := s',
         ip_workers := (ip_workers p)[i := (ip_workers p ! i)\<lparr>iw_pc := ILeaving, iw_term := True\<rparr>]\<rparr>
     else io_move i ILeaving s' p)"
proof -
  obtain e1 s1 where st: "iom_stopping now0 (ip_iom p) = (e1, s1)" by fastforce
  note run1 = run_stopping [OF assms(1,2) st, of ext pins]
  have i: "i < length (ip_workers p)" using assms(1) by (simp add: io_worker_at_def)
  show ?thesis
  proof (cases e1)
    case True
    then show ?thesis using run1 assms(5) st by (simp add: idle_turn_def)
  next
    case False
    define s2 where "s2 = fold (\<lambda>now s. snd (idle_timeout now s)) waits s1"
    obtain M cbs s3 where x: "listExpireCb now1 now2 (io_timers s2) [] = Some (M, cbs)"
        "schedule_cbs cbs (s2\<lparr>io_timers := M\<rparr>) = Inr s3" "idle_events es s3 = Inr s'" "\<not> ends"
      using assms(5) st False
      by (auto simp: idle_turn_def idle_turn_body_def idle_expire_def s2_def res_simps Let_def split: option.splits)
    have "(io_pool_step ext pins)\<^sup>*\<^sup>* p (io_move i IWaiting s1 p)" using run1 False by simp
    also have "(io_pool_step ext pins)\<^sup>*\<^sup>* \<dots> (io_move i IPolling s2 p)"
      using run_polls [of i "io_move i IWaiting s1 p" waits ext pins] assms(3,4) i by (simp add: s2_def)
    also have "io_pool_step ext pins (io_move i IPolling s2 p)
        (io_move i (IHanding cbs es) (s2\<lparr>io_timers := M\<rparr>) p)"
      using x(1) i by (intro io_pool_step.expire [of i _ now1 now2 es]) (simp_all add: io_expire_def)
    also have "(io_pool_step ext pins)\<^sup>*\<^sup>* \<dots> (io_move i (IHanding [] es) s3 p)"
      using run_hand_cbs [of i cbs es "io_move i (IHanding cbs es) (s2\<lparr>io_timers := M\<rparr>) p" s3 ext pins] x(2) i
      by simp
    also have "(io_pool_step ext pins)\<^sup>*\<^sup>* \<dots> (io_move i (IHanding [] []) s' p)"
      using run_hand_events [of i es "io_move i (IHanding [] es) s3 p" s' ext pins] x(3) i by simp
    also have "io_pool_step ext pins \<dots> (io_yield i (io_move i (IHanding [] []) s' p))"
      using i by (intro io_pool_step.yield) simp
    finally show ?thesis using x(4) by (simp add: io_yield_def)
  qed
qed

section \<open>Properties\<close>

text \<open>One worker over a manager with the descriptors of \<open>ex_iom\<close>, none of them registered.\<close>

definition ex_quiet :: iomanager where
  "ex_quiet = ex_iom\<lparr>ctxs := [new_fd_context 0, new_fd_context 1], m_pendingEventCnt := 0,
     io_interest := (\<lambda>_. None)\<rparr>"

definition ex_io_pool :: io_pool where
  "ex_io_pool = \<lparr>ip_iom = ex_quiet, ip_workers = [\<lparr>iw_tid = 11, iw_pc = IFetching, iw_term = False\<rparr>]\<rparr>"

lemma ex_io_pool_init: "io_pool_init 1 pins ex_io_pool"
  by (auto simp: ex_io_pool_def io_pool_init_def ex_quiet_def manager_ok_def tm_wf_def new_manager_def
      ordered_def next_bounded_def iom_inv_def nth_Cons ex_iom_defs split: nat.splits)

lemma ex_io_pool_reach: "reach (io_pool_init 1 pins) (io_pool_step ext pins) ex_io_pool"
  using ex_io_pool_init by (rule reach.reach_init)

lemma ex_quiet_sel [simp]:
  "m_tasks ex_quiet = []" "m_pendingEventCnt ex_quiet = 0" "io_timers ex_quiet = new_manager 0"
  "\<not> m_stopping ex_quiet" "m_activeThreadCnt ex_quiet = 0" "io_pipe_open ex_quiet"
  "ctxs ex_quiet = [new_fd_context 0, new_fd_context 1]"
  by (simp_all add: ex_quiet_def ex_iom_defs)

lemma ex_io_pool_leaves:
  "\<exists>q. reach (io_pool_init 1 pins) (io_pool_step ext pins) q \<and> io_worker_at 0 IExited q \<and> length (ip_workers q) = 1
     \<and> length (ctxs (ip_iom q)) = 2"
proof -
  let ?p = "ex_io_pool\<lparr>ip_iom := (ip_iom ex_io_pool)\<lparr>m_stopping := True\<rparr>\<rparr>"
  have "reach (io_pool_init 1 pins) (io_pool_step ext pins) ?p"
    by (rule reach_step [OF ex_io_pool_reach io_pool_step.stop])
  moreover have "\<exists>q. (io_pool_step ext pins)\<^sup>*\<^sup>* ?p q \<and> io_worker_at 0 IExited q
      \<and> length (ip_workers q) = length (ip_workers ?p) \<and> ctxs (ip_iom q) = ctxs (ip_iom ?p)"
    by (rule run_quiet)
      (simp_all add: ex_io_pool_def io_worker_at_def quiet_def base_stopping_def new_manager_def)
  ultimately show ?thesis using reach_rtranclp by (fastforce simp: ex_io_pool_def)
qed

text \<open>
  C23: Shutting down an \<open>IOManager\<close> loses no task: whatever its tasks do, also when they bind tasks to
  threads, and in whatever order its threads run, and although \<open>stopping()\<close> reads the manager
  piecemeal and a worker whose idle fiber has ended may still be given tasks, when all workers have
  left their loops then \<open>stop\<close> was called, the queue is empty and no thread is active; so the
  assertion of the destructor holds. (That they leave is not said: a task bound to a thread that
  has left keeps the others in their loops for ever.)
\<close>

theorem shutdown_loses_no_task:
  assumes "reach (io_pool_init n pins) (io_pool_step ext pins) p" and "0 < n" and "n < 2 ^ 64"
    and "\<forall>w\<in>set (ip_workers p). iw_pc w = IExited"
  shows "m_stopping (ip_iom p) \<and> m_tasks (ip_iom p) = [] \<and> m_activeThreadCnt (ip_iom p) = 0
    \<and> (\<exists>fds cs l'. delete_iomanager (ip_iom p) l = Inr (fds, cs, l'))"
proof -
  have inv: "io_pool_inv pins p" using assms(1) by (rule io_pool_acc.reach_inv)
  have len: "length (ip_workers p) = n" by (rule io_reach_length [OF assms(1)])
  have "all_ended p" "sum_list (map io_active (ip_workers p)) = 0"
    using inv assms(4) by (auto simp: io_pool_inv_def all_ended_def io_states sum_list_zero)
  then have "m_tasks (ip_iom p) = []" "m_activeThreadCnt (ip_iom p) = 0"
    using inv assms(2,3) len by (auto simp: io_pool_inv_def drained_def)
  moreover have "ip_workers p ! 0 \<in> set (ip_workers p)" using assms(2) len by simp
  then have "m_stopping (ip_iom p)"
    using io_pool_inv_okD [OF inv, of 0] assms(2,4) len by (simp add: io_worker_ok_def)
  ultimately show ?thesis
    by (simp add: delete_iomanager_def delete_scheduler_def base_stopping_def scheduler.defs)
qed

theorem shutdown_loses_no_task_witness:
  "\<exists>p. reach (io_pool_init 1 {}) (io_pool_step True {}) p \<and> io_worker_at 0 IExited p
     \<and> m_stopping (ip_iom p) \<and> m_tasks (ip_iom p) = []"
proof -
  obtain p where p: "reach (io_pool_init 1 {}) (io_pool_step True {}) p" "io_worker_at 0 IExited p"
      "length (ip_workers p) = 1"
    using ex_io_pool_leaves by blast
  then have w: "\<forall>w\<in>set (ip_workers p). iw_pc w = IExited"
    by (auto simp: io_worker_at_def length_Suc_conv)
  from shutdown_loses_no_task [OF p(1) _ _ w] p show ?thesis by auto
qed

text \<open>
  C24: The only worker of an \<open>IOManager\<close> that nobody uses from outside leaves its loop only when nothing
  is left to do: \<open>stop\<close> was called, no timer is armed, no descriptor is registered for an event,
  the queue is empty and no task runs.
\<close>

theorem lone_worker_leaves_nothing:
  assumes "reach (io_pool_init 1 pins) (io_pool_step False pins) p"
    and "w \<in> set (ip_workers p)" and "iw_pc w = IExited" and "length (ctxs (ip_iom p)) < 2 ^ 63"
  shows "m_stopping (ip_iom p) \<and> m_timers (io_timers (ip_iom p)) = []
    \<and> (\<forall>c\<in>set (ctxs (ip_iom p)). ctx_event c = 0)
    \<and> m_tasks (ip_iom p) = [] \<and> m_activeThreadCnt (ip_iom p) = 0"
proof -
  have inv: "lone_inv pins p" using assms(1) by (rule lone_worker.reach_inv)
  then have w: "w = ip_workers p ! 0" using assms(2) by (auto simp: lone_inv_def in_set_conv_nth)
  have "iw_term w" and i: "iom_inv (ip_iom p)"
    using inv assms(2,3) by (auto simp: lone_inv_def io_pool_inv_def io_worker_ok_def manager_ok_def)
  then have "quiet (ip_iom p)" using inv by (simp add: lone_inv_def lone_ok_def w)
  then show ?thesis using pending_zero [OF i assms(4)] by (simp add: quiet_def base_stopping_def)
qed

theorem lone_worker_leaves_nothing_witness:
  "\<exists>p. reach (io_pool_init 1 {}) (io_pool_step False {}) p \<and> io_worker_at 0 IExited p
     \<and> m_timers (io_timers (ip_iom p)) = [] \<and> m_tasks (ip_iom p) = []"
proof -
  obtain p where p: "reach (io_pool_init 1 {}) (io_pool_step False {}) p" "io_worker_at 0 IExited p"
      "length (ip_workers p) = 1" "length (ctxs (ip_iom p)) = 2"
    using ex_io_pool_leaves by blast
  then have w: "ip_workers p ! 0 \<in> set (ip_workers p)" "iw_pc (ip_workers p ! 0) = IExited"
    by (simp_all add: io_worker_at_def)
  have "length (ctxs (ip_iom p)) < 2 ^ 63" using p(4) by simp
  from lone_worker_leaves_nothing [OF p(1) w this] p(1,2) show ?thesis by blast
qed

text \<open>
  C25: \<open>stop\<close> can overtake the worker's look at the timers and events: if another thread arms a timer,
  or registers for an event, and then calls \<open>stop\<close>, between the second reading and the third one
  of a \<open>stopping()\<close> that found nothing, the only worker leaves, and the timer is never looked at,
  nor the event waited for.
\<close>

theorem stop_can_miss_a_timer:
  assumes "reach (io_pool_init 1 pins) (io_pool_step True pins) p" and "io_worker_at 0 ITesting p"
    and "m_timers (io_timers (ip_iom p)) = []" and "m_pendingEventCnt (ip_iom p) = 0"
    and "m_tasks (ip_iom p) = []" and "\<not> m_stopping (ip_iom p)" and "io_pipe_open (ip_iom p)"
  shows "(\<exists>q. (io_pool_step True pins)\<^sup>*\<^sup>* p q \<and> (\<forall>w\<in>set (ip_workers q). iw_pc w = IExited)
      \<and> (\<exists>i. m_timers (io_timers (ip_iom q)) = [i] \<and> objs (io_timers (ip_iom q)) ! i = new_timer now ms cb r))
    \<and> (c < length (ctxs (ip_iom p)) \<and> ctx_event (ctxs (ip_iom p) ! c) AND READ = 0 \<longrightarrow>
        (\<exists>q. (io_pool_step True pins)\<^sup>*\<^sup>* p q \<and> (\<forall>w\<in>set (ip_workers q). iw_pc w = IExited)
          \<and> ctx_event (ctxs (ip_iom q) ! c) AND READ \<noteq> 0 \<and> m_pendingEventCnt (ip_iom q) = 1))"
proof -
  let ?s = "(ip_iom p)\<lparr>io_timers := (io_timers (ip_iom p))\<lparr>m_tickled := False\<rparr>\<rparr>"
  let ?p1 = "io_move 0 ISaw_no_event ?s p"
  have inv: "io_pool_inv pins p" using assms(1) by (rule io_pool_acc.reach_inv)
  have len: "length (ip_workers p) = 1"
    using assms(1) by (induction rule: reach.induct) (auto simp: io_pool_init_def io_step_length)
  then have act: "m_activeThreadCnt ?s = 0"
    using inv assms(2) by (auto simp: io_pool_inv_def length_Suc_conv io_worker_at_def io_states)
  have s: "iom_inv ?s" using inv by (simp add: io_pool_inv_def manager_ok_def iom_inv_def)
  have run: "(io_pool_step True pins)\<^sup>*\<^sup>* p ?p1" by (rule run_to_base [OF assms(2-4)])
  have miss: "\<exists>q. (io_pool_step True pins)\<^sup>*\<^sup>* p q \<and> (\<forall>w\<in>set (ip_workers q). iw_pc w = IExited)
      \<and> ip_iom q = run_idle_leave (s1\<lparr>m_stopping := True\<rparr>)"
    if u: "user_op pins ?s s1" "m_tasks s1 = []" "m_activeThreadCnt s1 = 0" for s1
  proof -
    from len run_missing [of 0 ?p1 pins s1] u assms(6) obtain q where
      "(io_pool_step True pins)\<^sup>*\<^sup>* ?p1 q" "io_worker_at 0 IExited q" "length (ip_workers q) = 1"
      "ip_iom q = run_idle_leave (s1\<lparr>m_stopping := True\<rparr>)" by (auto simp: io_worker_at_def)
    moreover from this have "\<forall>w\<in>set (ip_workers q). iw_pc w = IExited"
      by (auto simp: io_worker_at_def length_Suc_conv)
    ultimately show ?thesis using run by (meson rtranclp_trans)
  qed
  obtain s1 where s1: "iom_addTimer now ms cb r ?s = Inr (length (objs (io_timers ?s)), s1)"
      "m_timers (io_timers s1) = [length (objs (io_timers ?s))]"
      "objs (io_timers s1) = objs (io_timers ?s) @ [new_timer now ms cb r]"
      "m_tasks s1 = []" "m_activeThreadCnt s1 = 0"
    using addTimer_first [of ?s now ms cb r] assms(3,5,7) act by auto
  from miss [OF user_op.add_timer [OF s1(1)] s1(4,5)] s1(2,3)
  have "\<exists>q. (io_pool_step True pins)\<^sup>*\<^sup>* p q \<and> (\<forall>w\<in>set (ip_workers q). iw_pc w = IExited)
      \<and> (\<exists>i. m_timers (io_timers (ip_iom q)) = [i] \<and> objs (io_timers (ip_iom q)) ! i = new_timer now ms cb r)"
    by (auto simp: run_idle_leave_def)
  moreover have "\<exists>q. (io_pool_step True pins)\<^sup>*\<^sup>* p q \<and> (\<forall>w\<in>set (ip_workers q). iw_pc w = IExited)
      \<and> ctx_event (ctxs (ip_iom q) ! c) AND READ \<noteq> 0 \<and> m_pendingEventCnt (ip_iom q) = 1"
    if c: "c < length (ctxs (ip_iom p))" "ctx_event (ctxs (ip_iom p) ! c) AND READ = 0"
  proof -
    let ?s2 = "registered c 0 READ \<lparr>ev_scheduler = t_scheduler ex_locals, ev_fiber = None,
        ev_cb = Some (User_cb 1)\<rparr> ?s"
    have "addEvent_locked 0 c 0 READ (Some (User_cb 1)) ?s ex_locals = Inr (0, ?s2, ex_locals)"
      using addEvent_locked_registers [OF s, of c READ "Some (User_cb 1)" ex_locals] c by simp
    then have "user_op pins ?s ?s2" by (rule user_op.add)
    moreover have "m_activeThreadCnt ?s2 = 0"
      using act by (simp add: registered_def Let_def put_ctx_def ctl_def)
    ultimately obtain q where "(io_pool_step True pins)\<^sup>*\<^sup>* p q" "\<forall>w\<in>set (ip_workers q). iw_pc w = IExited"
        "ip_iom q = run_idle_leave (?s2\<lparr>m_stopping := True\<rparr>)"
      using miss [of ?s2] assms(5) by auto
    moreover have "ctx_event (register READ ec d) AND READ \<noteq> 0" for ec d
      using mask_bits(1) [of "ctx_event d" READ] by (simp add: register_def setEventContext_def)
    ultimately show ?thesis
      using c(1) assms(4) by (auto simp: run_idle_leave_def)
  qed
  ultimately show ?thesis by blast
qed

theorem stop_can_miss_a_timer_witness:
  "\<exists>q i. (io_pool_step True {})\<^sup>*\<^sup>* ex_io_pool q \<and> (\<forall>w\<in>set (ip_workers q). iw_pc w = IExited)
     \<and> m_timers (io_timers (ip_iom q)) = [i]"
proof -
  let ?p = "io_move 0 ITesting (run_idle_enter (ip_iom ex_io_pool)) ex_io_pool"
  have run: "(io_pool_step True {})\<^sup>*\<^sup>* ex_io_pool ?p"
    by (rule run_to_test) (simp_all add: ex_io_pool_def io_worker_at_def)
  have "reach (io_pool_init 1 {}) (io_pool_step True {}) ?p"
    by (rule reach_rtranclp [OF ex_io_pool_reach run])
  from stop_can_miss_a_timer [OF this, of 0 10 "Some (User_cb 1)" False 0] run show ?thesis
    by (simp add: ex_io_pool_def io_worker_at_def run_idle_enter_def new_manager_def)
      (meson rtranclp_trans)
qed

end
