(* ===== verification/Fd_Manager.thy ===== *)
theory Fd_Manager
  imports Prelude
begin

text \<open>
  \<open>code/fd_manager.h\<close> and \<open>code/fd_manager.cpp\<close>: what is remembered of each descriptor, and the
  table of these objects. The objects live in a list by address and the table holds addresses, so
  that a caller's \<open>shared_ptr\<close> and the table may name the same object. The kernel's view of a
  descriptor is a record of its own; what \<open>fcntl(F_SETFL)\<close> makes of old and new flags is the
  argument \<open>setfl\<close>.
\<close>

section \<open>The kernel's descriptors\<close>

definition O_NONBLOCK :: u32 where "O_NONBLOCK = 0x800"

record kernel =
  k_stat :: "int \<Rightarrow> bool option"      \<comment> \<open>\<open>fstat\<close>: fails, or tells whether it is a socket\<close>
  k_flags :: "int \<Rightarrow> u32"             \<comment> \<open>the status flags\<close>

definition k_setfl :: "(u32 \<Rightarrow> u32 \<Rightarrow> u32) \<Rightarrow> int \<Rightarrow> u32 \<Rightarrow> kernel \<Rightarrow> kernel" where
  "k_setfl setfl fd v k = k\<lparr>k_flags := (k_flags k)(fd := setfl (k_flags k fd) v)\<rparr>"

text \<open>What the manual of \<open>fcntl\<close> promises: \<open>F_SETFL\<close> takes over the \<open>O_NONBLOCK\<close> bit.\<close>

definition sets_nonblock :: "(u32 \<Rightarrow> u32 \<Rightarrow> u32) \<Rightarrow> bool" where
  "sets_nonblock setfl \<longleftrightarrow> (\<forall>old v. setfl old v AND O_NONBLOCK = v AND O_NONBLOCK)"

section \<open>\<open>FdCtx\<close>\<close>

record fd_ctx =
  m_isInit :: bool
  m_isSocket :: bool
  m_sysNonblock :: bool
  m_userNonblock :: bool
  m_isClosed :: bool
  m_fd :: int
  m_recvTimeout :: u64
  m_sendTimeout :: u64

definition fresh_fd_ctx :: "int \<Rightarrow> fd_ctx" where
  "fresh_fd_ctx fd = \<lparr>m_isInit = False, m_isSocket = False, m_sysNonblock = False,
     m_userNonblock = False, m_isClosed = False, m_fd = fd,
     m_recvTimeout = - 1, m_sendTimeout = - 1\<rparr>"

text \<open>\<open>FdCtx::init\<close>, which makes sockets non-blocking behind the user's back.\<close>

definition fd_init ::
  "(u32 \<Rightarrow> u32 \<Rightarrow> u32) \<Rightarrow> fd_ctx \<Rightarrow> kernel \<Rightarrow> bool \<times> fd_ctx \<times> kernel"
where
  "fd_init setfl c k =
     (if m_isInit c then (True, c, k)
      else
        let c1 = (case k_stat k (m_fd c) of
                    None \<Rightarrow> c\<lparr>m_isInit := False, m_isSocket := False\<rparr>
                  | Some sock \<Rightarrow> c\<lparr>m_isInit := True, m_isSocket := sock\<rparr>)
        in if m_isSocket c1 then
             let flags = k_flags k (m_fd c1);
                 k1 = (if flags AND O_NONBLOCK = 0 then k_setfl setfl (m_fd c1) (flags OR O_NONBLOCK) k
                       else k)
             in (m_isInit c1, c1\<lparr>m_sysNonblock := True\<rparr>, k1)
           else (m_isInit c1, c1\<lparr>m_sysNonblock := False\<rparr>, k))"

definition new_fd_ctx :: "(u32 \<Rightarrow> u32 \<Rightarrow> u32) \<Rightarrow> int \<Rightarrow> kernel \<Rightarrow> fd_ctx \<times> kernel" where
  "new_fd_ctx setfl fd k = snd (fd_init setfl (fresh_fd_ctx fd) k)"

definition SO_RCVTIMEO :: int where "SO_RCVTIMEO = 20"
definition SO_SNDTIMEO :: int where "SO_SNDTIMEO = 21"

definition setTimeout :: "int \<Rightarrow> u64 \<Rightarrow> fd_ctx \<Rightarrow> fd_ctx" where
  "setTimeout type v c =
     (if type = SO_RCVTIMEO then c\<lparr>m_recvTimeout := v\<rparr> else c\<lparr>m_sendTimeout := v\<rparr>)"

definition getTimeout :: "int \<Rightarrow> fd_ctx \<Rightarrow> u64" where
  "getTimeout type c = (if type = SO_RCVTIMEO then m_recvTimeout c else m_sendTimeout c)"

definition setUserNonblock :: "bool \<Rightarrow> fd_ctx \<Rightarrow> fd_ctx" where
  "setUserNonblock v c = c\<lparr>m_userNonblock := v\<rparr>"

definition set_getSysNonblock :: "bool \<Rightarrow> fd_ctx \<Rightarrow> fd_ctx" where
  "set_getSysNonblock v c = c\<lparr>m_sysNonblock := v\<rparr>"

section \<open>\<open>FdManager\<close>\<close>

type_synonym fdc_ptr = nat

record fd_manager =
  m_datas :: "fdc_ptr option list"
  fdc_objs :: "fd_ctx list"               \<comment> \<open>the \<open>FdCtx\<close> objects, by address\<close>

definition new_fd_manager :: fd_manager where
  "new_fd_manager = \<lparr>m_datas = replicate 64 None, fdc_objs = []\<rparr>"

text \<open>
  The test \<open>m_datas.size() <= fd\<close>: the comparison is unsigned, so a negative descriptor is past
  the end.
\<close>

definition past_end :: "int \<Rightarrow> fd_manager \<Rightarrow> bool" where
  "past_end fd m \<longleftrightarrow> fd < 0 \<or> length (m_datas m) \<le> nat fd"

text \<open>
  \<open>FdManager::get\<close> under the shared lock: \<open>Some r\<close> where it returns \<open>r\<close>, \<open>None\<close> where it goes on
  to create an object.
\<close>

definition get_shared :: "int \<Rightarrow> bool \<Rightarrow> fd_manager \<Rightarrow> fdc_ptr option option" where
  "get_shared fd auto_create m =
     (if fd = - 1 then Some None
      else if past_end fd m then (if \<not> auto_create then Some None else None)
      else if m_datas m ! nat fd \<noteq> None \<or> \<not> auto_create then Some (m_datas m ! nat fd)
      else None)"

text \<open>
  The rest, under the exclusive lock: the table grows by half, a new object takes the place, and
  its constructor looks at the descriptor. A negative descriptor makes \<open>resize\<close> throw
  \<open>std::length_error\<close>, a \<open>std::logic_error\<close>.
\<close>

definition grown_table :: "int \<Rightarrow> fd_manager \<Rightarrow> fdc_ptr option list" where
  "grown_table fd m =
     (if past_end fd m
      then take (nat (fd * 3 div 2)) (m_datas m)
           @ replicate (nat (fd * 3 div 2) - length (m_datas m)) None
      else m_datas m)"

definition get_create ::
  "(u32 \<Rightarrow> u32 \<Rightarrow> u32) \<Rightarrow> int \<Rightarrow> fd_manager \<Rightarrow> kernel \<Rightarrow> (fdc_ptr \<times> fd_manager \<times> kernel) res"
where
  "get_create setfl fd m k =
     (if fd < 0 then Inl Logic_error_thrown
      else
        let xs = grown_table fd m
        in if nat fd < length xs then
             let (c, k1) = new_fd_ctx setfl fd k; p = length (fdc_objs m)
             in Inr (p, m\<lparr>m_datas := xs[nat fd := Some p], fdc_objs := fdc_objs m @ [c]\<rparr>, k1)
           else Inl Out_of_bounds)"

definition fd_get ::
  "(u32 \<Rightarrow> u32 \<Rightarrow> u32) \<Rightarrow> int \<Rightarrow> bool \<Rightarrow> fd_manager \<Rightarrow> kernel
   \<Rightarrow> (fdc_ptr option \<times> fd_manager \<times> kernel) res"
where
  "fd_get setfl fd auto_create m k =
     (case get_shared fd auto_create m of
        Some r \<Rightarrow> Inr (r, m, k)
      | None \<Rightarrow> bind_res (get_create setfl fd m k) (\<lambda>(p, m1, k1). Inr (Some p, m1, k1)))"

definition fd_del :: "int \<Rightarrow> fd_manager \<Rightarrow> fd_manager" where
  "fd_del fd m = (if past_end fd m then m else m\<lparr>m_datas := (m_datas m)[nat fd := None]\<rparr>)"

text \<open>The object behind a \<open>shared_ptr\<close>, and an update of it.\<close>

definition fdc_at :: "fdc_ptr \<Rightarrow> fd_manager \<Rightarrow> fd_ctx" where
  "fdc_at p m = fdc_objs m ! p"

definition upd_fdc :: "fdc_ptr \<Rightarrow> (fd_ctx \<Rightarrow> fd_ctx) \<Rightarrow> fd_manager \<Rightarrow> fd_manager" where
  "upd_fdc p f m = m\<lparr>fdc_objs := (fdc_objs m)[p := f (fdc_objs m ! p)]\<rparr>"

text \<open>\<open>Singleton<FdManager>\<close>: the instance pointer, made on first use.\<close>

definition GetInstance :: "fd_manager option \<Rightarrow> fd_manager \<times> fd_manager option" where
  "GetInstance inst =
     (case inst of None \<Rightarrow> (new_fd_manager, Some new_fd_manager) | Some m \<Rightarrow> (m, inst))"

definition DestroyInstance :: "fd_manager option \<Rightarrow> fd_manager option" where
  "DestroyInstance inst = None"

section \<open>The contract of the table\<close>

text \<open>
  What the hooked calls rely on: after a descriptor is opened it has an object, after it is
  closed it has none, and neither touches another descriptor.
\<close>

locale fd_table =
  fixes look :: "int \<Rightarrow> 't \<Rightarrow> 'p option"
    and opened :: "int \<Rightarrow> 't \<Rightarrow> ('p \<times> 't) res"
    and closed :: "int \<Rightarrow> 't \<Rightarrow> 't"
  assumes look_opened: "opened fd t = Inr (p, t') \<Longrightarrow>
      look fd' t' = (if fd' = fd then Some p else look fd' t)"
    and look_closed: "look fd' (closed fd t) = (if fd' = fd then None else look fd' t)"
begin

lemma open_close:
  "opened fd t = Inr (p, t') \<Longrightarrow> look fd' (closed fd t') = (if fd' = fd then None else look fd' t)"
  by (simp add: look_opened look_closed)

lemma close_open:
  "opened fd (closed fd t) = Inr (p, t') \<Longrightarrow> look fd' t' = (if fd' = fd then Some p else look fd' t)"
  by (simp add: look_opened look_closed)

text \<open>A sequence of openings and closings: the last one of a descriptor decides.\<close>

fun all_ops :: "(bool \<times> int) list \<Rightarrow> 't \<Rightarrow> 't res" where
  "all_ops [] t = Inr t"
| "all_ops ((True, fd) # ops) t = bind_res (opened fd t) (\<lambda>(p, t'). all_ops ops t')"
| "all_ops ((False, fd) # ops) t = all_ops ops (closed fd t)"

fun last_op :: "int \<Rightarrow> (bool \<times> int) list \<Rightarrow> bool \<Rightarrow> bool" where
  "last_op fd [] b = b"
| "last_op fd ((b', fd') # ops) b = last_op fd ops (if fd' = fd then b' else b)"

lemma all_ops_look:
  "all_ops ops t = Inr t' \<Longrightarrow> (look fd t' \<noteq> None) = last_op fd ops (look fd t \<noteq> None)"
proof (induction ops arbitrary: t)
  case Nil
  then show ?case by simp
next
  case (Cons op ops)
  show ?case
  proof (cases op)
    case (Pair b fd')
    show ?thesis
    proof (cases b)
      case True
      with Cons.prems Pair obtain p u where u: "opened fd' t = Inr (p, u)" "all_ops ops u = Inr t'"
        by (auto simp: res_simps)
      from Cons.IH [OF u(2)] show ?thesis
        using look_opened [OF u(1), of fd] Pair True by (cases "fd = fd'") auto
    next
      case False
      with Cons.prems Pair have "all_ops ops (closed fd' t) = Inr t'" by simp
      from Cons.IH [OF this] show ?thesis
        using look_closed [of fd fd' t] Pair False by (cases "fd = fd'") auto
    qed
  qed
qed

end

text \<open>The look-up \<open>get(fd)\<close>, and \<open>get\<close> with creation.\<close>

definition fd_look :: "int \<Rightarrow> fd_manager \<times> kernel \<Rightarrow> fdc_ptr option" where
  "fd_look fd t = (case get_shared fd False (fst t) of Some r \<Rightarrow> r | None \<Rightarrow> None)"

definition fd_open :: "(u32 \<Rightarrow> u32 \<Rightarrow> u32) \<Rightarrow> int \<Rightarrow> fd_manager \<times> kernel
    \<Rightarrow> (fdc_ptr \<times> fd_manager \<times> kernel) res" where
  "fd_open setfl fd t =
     bind_res (fd_get setfl fd True (fst t) (snd t)) (\<lambda>(r, t1). bind_res (deref r) (\<lambda>p. Inr (p, t1)))"

definition fd_close :: "int \<Rightarrow> fd_manager \<times> kernel \<Rightarrow> fd_manager \<times> kernel" where
  "fd_close fd t = (fd_del fd (fst t), snd t)"

definition slot :: "int \<Rightarrow> fdc_ptr option list \<Rightarrow> fdc_ptr option" where
  "slot fd xs = (if 0 \<le> fd \<and> nat fd < length xs then xs ! nat fd else None)"

lemma fd_look_eq: "fd_look fd t = slot fd (m_datas (fst t))"
  by (auto simp: fd_look_def get_shared_def past_end_def slot_def)

lemma slot_update:
  "0 \<le> fd \<Longrightarrow> nat fd < length xs \<Longrightarrow> slot fd' (xs[nat fd := p]) = (if fd' = fd then p else slot fd' xs)"
  by (auto simp: slot_def nth_list_update)

lemma slot_grown:
  assumes "0 \<le> fd"
  shows "slot fd' (grown_table fd m) = slot fd' (m_datas m)"
proof (cases "past_end fd m")
  case True
  then have "length (m_datas m) \<le> nat (fd * 3 div 2)"
    using assms by (auto simp: past_end_def)
  then show ?thesis
    using True by (auto simp: slot_def grown_table_def nth_append)
qed (simp add: grown_table_def)

lemma get_create_eq_Inr:
  assumes "get_create setfl fd m k = Inr (p, m', k')"
  shows "0 \<le> fd" "p = length (fdc_objs m)" "fdc_objs m' = fdc_objs m @ [fst (new_fd_ctx setfl fd k)]"
    "k' = snd (new_fd_ctx setfl fd k)"
    "slot fd' (m_datas m') = (if fd' = fd then Some p else slot fd' (m_datas m))"
proof -
  show fd: "0 \<le> fd" using assms by (auto simp: get_create_def split: if_splits)
  have r: "nat fd < length (grown_table fd m)" "p = length (fdc_objs m)"
      "m' = m\<lparr>m_datas := (grown_table fd m)[nat fd := Some p],
              fdc_objs := fdc_objs m @ [fst (new_fd_ctx setfl fd k)]\<rparr>"
      "k' = snd (new_fd_ctx setfl fd k)"
    using assms fd by (auto simp: get_create_def Let_def case_prod_beta split: if_splits)
  from r(2-4) show "p = length (fdc_objs m)" "k' = snd (new_fd_ctx setfl fd k)"
    "fdc_objs m' = fdc_objs m @ [fst (new_fd_ctx setfl fd k)]" by simp_all
  show "slot fd' (m_datas m') = (if fd' = fd then Some p else slot fd' (m_datas m))"
    using slot_update [OF fd r(1), of fd' "Some p"] slot_grown [OF fd] r(3) by simp
qed

lemma fd_look_opened:
  assumes "fd_open setfl fd t = Inr (p, t')"
  shows "fd_look fd' t' = (if fd' = fd then Some p else fd_look fd' t)"
proof (cases "get_shared fd True (fst t)")
  case None
  then obtain m k where t': "t' = (m, k)" "get_create setfl fd (fst t) (snd t) = Inr (p, m, k)"
    using assms by (auto simp: fd_open_def fd_get_def res_simps)
  show ?thesis
    using get_create_eq_Inr(5) [OF t'(2), of fd'] by (simp add: fd_look_eq t'(1))
next
  case (Some r)
  then have "t' = t" "r = Some p"
    using assms by (auto simp: fd_open_def fd_get_def res_simps)
  then show ?thesis
    using Some by (auto simp: get_shared_def fd_look_eq slot_def past_end_def split: if_splits)
qed

lemma fd_look_closed:
  "fd_look fd' (fd_close fd t) = (if fd' = fd then None else fd_look fd' t)"
  by (cases "past_end fd (fst t)")
    (auto simp: fd_look_eq fd_close_def fd_del_def past_end_def slot_update slot_def)

interpretation fdt: fd_table fd_look "fd_open setfl" fd_close
  by unfold_locales (rule fd_look_opened, assumption, rule fd_look_closed)

section \<open>Properties\<close>

definition ex_kernel :: kernel where
  "ex_kernel = \<lparr>k_stat = (\<lambda>fd. if fd \<in> {3, 4} then Some True else if fd = 1 then Some False else None),
     k_flags = (\<lambda>_. 2)\<rparr>"

text \<open>
  C40: after any sequence of openings and closings of descriptors (\<open>get(fd, true)\<close> and \<open>del(fd)\<close>),
  \<open>get(fd)\<close> finds an object for \<open>fd\<close> exactly when the last operation on that descriptor was an
  opening, or there was none and it had one before; operations on other descriptors, and the
  growth of the table they cause, make no difference.
\<close>

theorem descriptor_has_object_iff_open:
  assumes "fdt.all_ops setfl ops (m, k) = Inr (m', k')"
  shows "(\<exists>p. fd_get setfl fd False m' k' = Inr (Some p, m', k'))
     \<longleftrightarrow> fdt.last_op fd ops (\<exists>p. fd_get setfl fd False m k = Inr (Some p, m, k))"
proof -
  have g: "(\<exists>p. fd_get setfl fd False n l = Inr (Some p, n, l)) \<longleftrightarrow> fd_look fd (n, l) \<noteq> None" for n l
    by (auto simp: fd_get_def get_shared_def fd_look_def)
  show ?thesis
    unfolding g by (rule fdt.all_ops_look [OF assms])
qed

theorem descriptor_has_object_iff_open_witness:
  "\<exists>m k p. fdt.all_ops (\<lambda>old v. v) [(True, 3), (True, 1), (False, 1)] (new_fd_manager, ex_kernel)
       = Inr (m, k)
     \<and> fd_get (\<lambda>old v. v) 3 False m k = Inr (Some p, m, k)"
proof -
  have "\<exists>m k. fdt.all_ops (\<lambda>old v. v) [(True, 3), (True, 1), (False, 1)] (new_fd_manager, ex_kernel) = Inr (m, k)"
    by (simp add: fd_open_def fd_get_def get_shared_def get_create_def grown_table_def past_end_def
        new_fd_manager_def Let_def case_prod_beta fd_close_def)
  then obtain m k where mk: "fdt.all_ops (\<lambda>old v. v) [(True, 3), (True, 1), (False, 1)] (new_fd_manager, ex_kernel)
      = Inr (m, k)" by blast
  from descriptor_has_object_iff_open [OF this, of 3] mk show ?thesis by auto
qed

text \<open>
  \<open>get(fd, true)\<close> decides to create under the shared lock and does not look again under the
  exclusive one. If two threads both decide so, the second one replaces the object of the first:
  what the first thread set on it (here a receive timeout) is lost, and every later \<open>get(fd)\<close>
  returns the second object, with the default.
\<close>

theorem creation_race_loses_settings:
  assumes "get_shared fd True m = None"
    and "get_create setfl fd m k = Inr (p, m1, k1)"
    and "get_create setfl fd (upd_fdc p (setTimeout SO_RCVTIMEO v) m1) k1 = Inr (q, m2, k2)"
  shows "p \<noteq> q \<and> get_shared fd False m2 = Some (Some q)
    \<and> getTimeout SO_RCVTIMEO (fdc_at p m2) = v \<and> getTimeout SO_RCVTIMEO (fdc_at q m2) = - 1"
proof -
  note c1 = get_create_eq_Inr [OF assms(2)] and c2 = get_create_eq_Inr [OF assms(3)]
  have q: "q = Suc p" using c2(2) c1(2,3) by (simp add: upd_fdc_def)
  have "fdc_objs m2 ! p = setTimeout SO_RCVTIMEO v (fdc_objs m1 ! p)"
    using c2(3) c1(2,3) by (simp add: upd_fdc_def nth_append)
  moreover have "fdc_objs m2 ! q = fst (new_fd_ctx setfl fd k1)"
    using c2(2,3) by (simp add: nth_append)
  moreover have "m_recvTimeout (fst (new_fd_ctx setfl fd k1)) = - 1"
    by (auto simp: new_fd_ctx_def fd_init_def fresh_fd_ctx_def Let_def split: option.splits)
  moreover have "get_shared fd False m2 = Some (Some q)"
    using c2(5) [of fd] c1(1) by (auto simp: get_shared_def slot_def past_end_def split: if_splits)
  ultimately show ?thesis
    using q by (simp add: fdc_at_def getTimeout_def setTimeout_def)
qed

theorem creation_race_loses_settings_witness:
  "\<exists>p q m1 m2 k1 k2. get_create (\<lambda>old v. v) 3 new_fd_manager ex_kernel = Inr (p, m1, k1)
     \<and> get_create (\<lambda>old v. v) 3 (upd_fdc p (setTimeout SO_RCVTIMEO 500) m1) k1 = Inr (q, m2, k2)
     \<and> get_shared 3 False m2 = Some (Some q) \<and> getTimeout SO_RCVTIMEO (fdc_at q m2) = - 1"
proof -
  have c: "\<exists>r. get_create (\<lambda>old v. v) 3 m k = Inr r" if "length (m_datas m) = 64" for m k
    using that by (simp add: get_create_def grown_table_def past_end_def Let_def case_prod_beta)
  obtain p m1 k1 where 1: "get_create (\<lambda>old v. v) 3 new_fd_manager ex_kernel = Inr (p, m1, k1)"
    using c [of new_fd_manager ex_kernel] by (auto simp: new_fd_manager_def)
  then have "length (m_datas m1) = 64"
    by (auto simp: get_create_def grown_table_def past_end_def Let_def case_prod_beta new_fd_manager_def)
  then obtain q m2 k2 where 2:
    "get_create (\<lambda>old v. v) 3 (upd_fdc p (setTimeout SO_RCVTIMEO 500) m1) k1 = Inr (q, m2, k2)"
    using c [of "upd_fdc p (setTimeout SO_RCVTIMEO 500) m1" k1] by (auto simp: upd_fdc_def)
  have "get_shared 3 True new_fd_manager = None"
    by (simp add: get_shared_def past_end_def new_fd_manager_def)
  from creation_race_loses_settings [OF this 1 2] 1 2 show ?thesis by blast
qed

end
