(* ===== verification/Hook.thy ===== *)
theory Hook
  imports Task_Fibers Io_Manager Fd_Manager
begin

text \<open>
  \<open>code/hook.h\<close> and \<open>code/hook.cpp\<close>: the system calls the library replaces. A call that gives up
  the thread is cut at its \<open>yield\<close>: the first part leaves the fiber parked, the second part goes
  on when the scheduler has resumed it. The original functions are not modelled: a hooked call
  that only forwards to the original one says so, and what an original call answers is an
  argument where the code looks at it.
\<close>

section \<open>The original functions\<close>

text \<open>
  The list \<open>HOOK_FUN\<close> of the functions that are replaced, the pointers \<open>name_f\<close> to the originals,
  null at first, and \<open>hook_init\<close>, which a static object runs before \<open>main\<close>. What \<open>dlsym\<close> finds
  under a name is its argument.
\<close>

definition HOOK_FUN :: "string list" where
  "HOOK_FUN =
     [''sleep'', ''usleep'', ''nanosleep'', ''socket'', ''connect'', ''accept'', ''read'', ''readv'',
      ''recv'', ''recvfrom'', ''recvmsg'', ''write'', ''writev'', ''send'', ''sendto'', ''sendmsg'',
      ''close'', ''fcntl'', ''ioctl'', ''getsockopt'', ''setsockopt'']"

record 'f hook_table =
  is_inited :: bool
  orig_f :: "string \<Rightarrow> 'f option"

definition new_hook_table :: "'f hook_table" where
  "new_hook_table = \<lparr>is_inited = False, orig_f = (\<lambda>_. None)\<rparr>"

definition hook_init :: "(string \<Rightarrow> 'f option) \<Rightarrow> 'f hook_table \<Rightarrow> 'f hook_table" where
  "hook_init dlsym t =
     (if is_inited t then t
      else fold (\<lambda>name t. t\<lparr>orig_f := (orig_f t)(name := dlsym name)\<rparr>) HOOK_FUN (t\<lparr>is_inited := True\<rparr>))"

lemma fold_look_up:
  "fold (\<lambda>name t. t\<lparr>orig_f := (orig_f t)(name := dlsym name)\<rparr>) names t =
     t\<lparr>orig_f := (\<lambda>name. if name \<in> set names then dlsym name else orig_f t name)\<rparr>"
  by (induction names arbitrary: t) (auto intro!: hook_table.equality)

text \<open>Each replaced function has its original from the first call on; later calls change nothing.\<close>

lemma hook_init_once:
  "hook_init dlsym' (hook_init dlsym new_hook_table) = hook_init dlsym new_hook_table"
  "name \<in> set HOOK_FUN \<Longrightarrow> orig_f (hook_init dlsym new_hook_table) name = dlsym name"
  "name \<notin> set HOOK_FUN \<Longrightarrow> orig_f (hook_init dlsym new_hook_table) name = None"
  by (simp_all add: hook_init_def fold_look_up new_hook_table_def)

section \<open>State\<close>

definition EINTR :: int where "EINTR = 4"
definition EBADF :: int where "EBADF = 9"
definition EAGAIN :: int where "EAGAIN = 11"
definition ETIMEDOUT :: int where "ETIMEDOUT = 110"
definition EINPROGRESS :: int where "EINPROGRESS = 115"

text \<open>
  What a hooked call sees: the variables of its thread, the singleton of \<open>FdManager\<close>, the kernel,
  the \<open>IOManager\<close> there is, \<open>errno\<close>, and the \<open>timer_info\<close> objects that are alive, by address,
  with their member \<open>cancelled\<close>.
\<close>

record hook_world =
  hw_local :: thread_locals
  hw_fdmgr :: "fd_manager option"
  hw_kernel :: kernel
  hw_iom :: "iomanager option"
  hw_errno :: int
  hw_conds :: "cond_ptr \<Rightarrow> int option"
  hw_fresh_cond :: cond_ptr

datatype hook_result =
    Raw                              \<comment> \<open>the result of the original function, called as it is\<close>
  | Ret int
  | Park "timer_ptr option"          \<comment> \<open>the fiber has yielded; the timer that was set, if any\<close>
  | Retry                            \<comment> \<open>at the label \<open>retry\<close>\<close>

definition is_hook_enable :: "hook_world \<Rightarrow> bool" where
  "is_hook_enable w = t_hook_enable (hw_local w)"

definition set_hook_enable :: "bool \<Rightarrow> hook_world \<Rightarrow> hook_world" where
  "set_hook_enable flag w = w\<lparr>hw_local := (hw_local w)\<lparr>t_hook_enable := flag\<rparr>\<rparr>"

text \<open>\<open>IOManager::GetThis()\<close>, null when the thread's scheduler is a plain one or there is none.\<close>

definition this_iom :: "hook_world \<Rightarrow> iomanager option" where
  "this_iom w =
     (case iom_GetThis (\<lambda>q. map_option m_this (hw_iom w) = Some q) (hw_local w) of
        None \<Rightarrow> None | Some q \<Rightarrow> hw_iom w)"

definition put_iom :: "iomanager \<Rightarrow> hook_world \<Rightarrow> hook_world" where
  "put_iom s w = w\<lparr>hw_iom := Some s\<rparr>"

definition put_fibers :: "fiber_world \<Rightarrow> hook_world \<Rightarrow> hook_world" where
  "put_fibers f w = w\<lparr>hw_local := (hw_local w)\<lparr>tl_fibers := f\<rparr>\<rparr>"

text \<open>\<open>FdMgr::GetInstance()->get(fd, auto_create)\<close> and the object it returns.\<close>

definition mgr_get ::
  "(u32 \<Rightarrow> u32 \<Rightarrow> u32) \<Rightarrow> int \<Rightarrow> bool \<Rightarrow> hook_world \<Rightarrow> (fdc_ptr option \<times> hook_world) res"
where
  "mgr_get setfl fd auto_create w =
     (let (m, inst) = GetInstance (hw_fdmgr w) in
      bind_res (fd_get setfl fd auto_create m (hw_kernel w)) (\<lambda>(r, m1, k1).
      Inr (r, w\<lparr>hw_fdmgr := Some m1, hw_kernel := k1\<rparr>)))"

definition mgr_ctx :: "fdc_ptr \<Rightarrow> hook_world \<Rightarrow> fd_ctx" where
  "mgr_ctx p w = fdc_at p (fst (GetInstance (hw_fdmgr w)))"

definition mgr_upd :: "fdc_ptr \<Rightarrow> (fd_ctx \<Rightarrow> fd_ctx) \<Rightarrow> hook_world \<Rightarrow> hook_world" where
  "mgr_upd p f w = w\<lparr>hw_fdmgr := map_option (upd_fdc p f) (hw_fdmgr w)\<rparr>"

section \<open>Sleeping\<close>

text \<open>What the three sleeping calls share: a timer that schedules the fiber again, then \<open>yield\<close>.\<close>

definition sleep_ms :: "time_point \<Rightarrow> u64 \<Rightarrow> hook_world \<Rightarrow> (hook_result \<times> hook_world) res" where
  "sleep_ms now ms w =
     bind_res (GetThis (tl_fibers (hw_local w))) (\<lambda>(f, fw).
     bind_res (deref (this_iom w)) (\<lambda>s.
     bind_res (iom_addTimer now ms (Some (Schedule_fiber_cb (m_this s) f)) False s) (\<lambda>(_, s1).
     bind_res (fiber_yield f fw) (\<lambda>fw1.
     Inr (Park None, put_fibers fw1 (put_iom s1 w))))))"

text \<open>\<open>seconds * 1000\<close> is an \<open>unsigned int\<close>.\<close>

definition hook_sleep :: "time_point \<Rightarrow> u32 \<Rightarrow> hook_world \<Rightarrow> (hook_result \<times> hook_world) res" where
  "hook_sleep now seconds w =
     (if \<not> is_hook_enable w then Inr (Raw, w) else sleep_ms now (ucast (seconds * 1000)) w)"

definition hook_usleep :: "time_point \<Rightarrow> u32 \<Rightarrow> hook_world \<Rightarrow> (hook_result \<times> hook_world) res" where
  "hook_usleep now usec w =
     (if \<not> is_hook_enable w then Inr (Raw, w) else sleep_ms now (ucast (usec div 1000)) w)"

text \<open>The division of C, and the \<open>int timeout_ms\<close> of \<open>nanosleep\<close>.\<close>

definition cdiv :: "int \<Rightarrow> int \<Rightarrow> int" where
  "cdiv a b = (if a < 0 then - ((- a) div b) else a div b)"

definition nanosleep_ms :: "int \<Rightarrow> int \<Rightarrow> int" where
  "nanosleep_ms tv_sec tv_nsec = s32 (s64 (tv_sec * 1000 + cdiv (cdiv tv_nsec 1000) 1000))"

definition hook_nanosleep :: "time_point \<Rightarrow> int \<Rightarrow> int \<Rightarrow> hook_world \<Rightarrow> (hook_result \<times> hook_world) res" where
  "hook_nanosleep now tv_sec tv_nsec w =
     (if \<not> is_hook_enable w then Inr (Raw, w)
      else sleep_ms now (word_of_int (nanosleep_ms tv_sec tv_nsec)) w)"

section \<open>Creating and closing descriptors\<close>

text \<open>\<open>socket\<close>, given what \<open>socket_f\<close> returned.\<close>

definition hook_socket :: "(u32 \<Rightarrow> u32 \<Rightarrow> u32) \<Rightarrow> int \<Rightarrow> hook_world \<Rightarrow> (int \<times> hook_world) res" where
  "hook_socket setfl fd w =
     (if \<not> is_hook_enable w then Inr (fd, w)
      else if fd = - 1 then Inr (fd, w)
      else bind_res (mgr_get setfl fd True w) (\<lambda>(_, w1). Inr (fd, w1)))"

text \<open>\<open>close\<close> up to its call of \<open>close_f\<close>; \<open>rt\<close> is what \<open>epoll_ctl\<close> answers in \<open>cancelAll\<close>.\<close>

definition hook_close :: "(u32 \<Rightarrow> u32 \<Rightarrow> u32) \<Rightarrow> int \<Rightarrow> int \<Rightarrow> hook_world \<Rightarrow> (hook_result \<times> hook_world) res" where
  "hook_close setfl rt fd w =
     (if \<not> is_hook_enable w then Inr (Raw, w)
      else
        bind_res (mgr_get setfl fd False w) (\<lambda>(r, w1).
        case r of
          None \<Rightarrow> Inr (Raw, w1)
        | Some p \<Rightarrow>
            bind_res (case this_iom w1 of
                        None \<Rightarrow> Inr w1
                      | Some s \<Rightarrow> bind_res (cancelAll rt fd s) (\<lambda>(_, s1). Inr (put_iom s1 w1))) (\<lambda>w2.
            Inr (Raw, w2\<lparr>hw_fdmgr := map_option (fd_del fd) (hw_fdmgr w2)\<rparr>))))"

section \<open>Reading and writing\<close>

record io_call =
  io_fd :: int
  io_event :: u32
  io_timeout :: u64
  io_cond :: cond_ptr

text \<open>\<open>do_io\<close> up to the label \<open>retry\<close>: forward, fail, or go on with a new \<open>timer_info\<close>.\<close>

definition do_io_enter ::
  "(u32 \<Rightarrow> u32 \<Rightarrow> u32) \<Rightarrow> int \<Rightarrow> u32 \<Rightarrow> int \<Rightarrow> hook_world \<Rightarrow> (hook_result \<times> io_call \<times> hook_world) res"
where
  "do_io_enter setfl fd event timeout_so w =
     (let call = \<lparr>io_fd = fd, io_event = event, io_timeout = - 1, io_cond = hw_fresh_cond w\<rparr> in
      if \<not> is_hook_enable w then Inr (Raw, call, w)
      else
        bind_res (mgr_get setfl fd False w) (\<lambda>(r, w1).
        case r of
          None \<Rightarrow> Inr (Raw, call, w1)
        | Some p \<Rightarrow>
            let ctx = mgr_ctx p w1 in
            if m_isClosed ctx then Inr (Ret (- 1), call, w1\<lparr>hw_errno := EBADF\<rparr>)
            else if m_isSocket ctx \<or> m_userNonblock ctx then Inr (Raw, call, w1)
            else Inr (Retry, call\<lparr>io_timeout := getTimeout timeout_so ctx\<rparr>,
                      w1\<lparr>hw_conds := (hw_conds w1)(io_cond call \<mapsto> 0),
                         hw_fresh_cond := Suc (hw_fresh_cond w1)\<rparr>)))"

text \<open>
  The first call and the loop over \<open>EINTR\<close>: the answers of the original function are a sequence
  of results with \<open>errno\<close>; the loop need not end.
\<close>

partial_function (option) skip_eintr :: "(nat \<Rightarrow> int \<times> int) \<Rightarrow> nat \<Rightarrow> (nat \<times> int \<times> int) option" where
  "skip_eintr ans i =
     (let (n, e) = ans i
      in if n = - 1 \<and> e = EINTR then skip_eintr ans (Suc i) else Some (Suc i, n, e))"

text \<open>The timer of a call with a timeout.\<close>

definition call_timer ::
  "time_point \<Rightarrow> io_call \<Rightarrow> iomanager \<Rightarrow> (timer_ptr option \<times> iomanager) res"
where
  "call_timer now c s =
     (if io_timeout c \<noteq> - 1
      then bind_res (iom_addConditionTimer now (io_timeout c)
             (Some (Io_timeout_cb (m_this s) (io_cond c) (io_fd c) (io_event c))) (io_cond c) False s)
             (\<lambda>(p, s1). Inr (Some p, s1))
      else Inr (None, s))"

definition cancel_timer :: "timer_ptr option \<Rightarrow> iomanager \<Rightarrow> iomanager" where
  "cancel_timer t s =
     (case t of None \<Rightarrow> s | Some p \<Rightarrow> s\<lparr>io_timers := snd (timer_cancel p (io_timers s))\<rparr>)"

text \<open>The \<open>timer_info\<close> goes with the \<open>shared_ptr\<close> of the call that made it.\<close>

definition drop_cond :: "io_call \<Rightarrow> hook_world \<Rightarrow> hook_world" where
  "drop_cond c w = w\<lparr>hw_conds := (hw_conds w)(io_cond c := None)\<rparr>"

text \<open>
  After the loop over \<open>EINTR\<close>: \<open>n\<close> and \<open>e\<close> are the result and \<open>errno\<close>. \<open>rt\<close> is what \<open>epoll_ctl\<close>
  answers in \<open>addEvent\<close>.
\<close>

definition do_io_try ::
  "time_point \<Rightarrow> int \<Rightarrow> int \<Rightarrow> int \<Rightarrow> io_call \<Rightarrow> hook_world \<Rightarrow> (hook_result \<times> hook_world) res"
where
  "do_io_try now rt n e c w =
     (if n = - 1 \<and> e = EAGAIN
      then
        bind_res (deref (this_iom w)) (\<lambda>s.
        bind_res (call_timer now c s) (\<lambda>(timer, s1).
        bind_res (addEvent rt (io_fd c) (io_event c) None s1 (hw_local w)) (\<lambda>(r, s2, l).
        if r \<noteq> 0
        then Inr (Ret (- 1), drop_cond c (put_iom (cancel_timer timer s2) (w\<lparr>hw_local := l\<rparr>)))
        else
          bind_res (GetThis (tl_fibers l)) (\<lambda>(f, fw).
          bind_res (fiber_yield f fw) (\<lambda>fw1.
          Inr (Park timer, put_fibers fw1 (put_iom s2 (w\<lparr>hw_local := l\<rparr>))))))))
      else Inr (Ret n, drop_cond c (w\<lparr>hw_errno := e\<rparr>)))"

text \<open>After the \<open>yield\<close>: the timer is cancelled, and the call has timed out or starts again.\<close>

definition do_io_wake :: "timer_ptr option \<Rightarrow> io_call \<Rightarrow> hook_world \<Rightarrow> hook_result \<times> hook_world" where
  "do_io_wake timer c w =
     (let w1 = w\<lparr>hw_iom := map_option (cancel_timer timer) (hw_iom w)\<rparr>
      in if hw_conds w1 (io_cond c) = Some ETIMEDOUT
         then (Ret (- 1), drop_cond c (w1\<lparr>hw_errno := ETIMEDOUT\<rparr>)) else (Retry, w1))"

text \<open>The closure of the timer, of \<open>do_io\<close> and of \<open>connect_with_timeout\<close>.\<close>

definition run_io_timeout :: "int \<Rightarrow> cond_ptr \<Rightarrow> int \<Rightarrow> u32 \<Rightarrow> hook_world \<Rightarrow> hook_world res" where
  "run_io_timeout rt cond fd event w =
     (case hw_conds w cond of
        None \<Rightarrow> Inr w
      | Some cancelled \<Rightarrow>
          if cancelled \<noteq> 0 then Inr w
          else
            bind_res (deref (hw_iom w)) (\<lambda>s.
            bind_res (cancelEvent rt fd event s) (\<lambda>(_, s1).
            Inr (put_iom s1 (w\<lparr>hw_conds := (hw_conds w)(cond \<mapsto> ETIMEDOUT)\<rparr>)))))"

text \<open>The calls built on \<open>do_io\<close>, by the event and the timeout they wait with.\<close>

datatype io_fun =
    F_read | F_readv | F_recv | F_recvfrom | F_recvmsg
  | F_write | F_writev | F_send | F_sendto | F_sendmsg | F_accept

definition io_fun_args :: "io_fun \<Rightarrow> u32 \<times> int" where
  "io_fun_args f =
     (case f of
        F_read \<Rightarrow> (READ, SO_RCVTIMEO)
      | F_readv \<Rightarrow> (READ, SO_RCVTIMEO)
      | F_recv \<Rightarrow> (READ, SO_RCVTIMEO)
      | F_recvfrom \<Rightarrow> (READ, SO_RCVTIMEO)
      | F_recvmsg \<Rightarrow> (READ, SO_RCVTIMEO)
      | F_write \<Rightarrow> (WRITE, SO_SNDTIMEO)
      | F_writev \<Rightarrow> (WRITE, SO_SNDTIMEO)
      | F_send \<Rightarrow> (WRITE, SO_SNDTIMEO)
      | F_sendto \<Rightarrow> (WRITE, SO_SNDTIMEO)
      | F_sendmsg \<Rightarrow> (WRITE, SO_SNDTIMEO)
      | F_accept \<Rightarrow> (READ, SO_RCVTIMEO))"

definition io_enter ::
  "(u32 \<Rightarrow> u32 \<Rightarrow> u32) \<Rightarrow> io_fun \<Rightarrow> int \<Rightarrow> hook_world \<Rightarrow> (hook_result \<times> io_call \<times> hook_world) res"
where
  "io_enter setfl f fd w = (let (event, so) = io_fun_args f in do_io_enter setfl fd event so w)"

text \<open>What \<open>accept\<close> does with the descriptor \<open>do_io\<close> returned.\<close>

definition accept_leave :: "(u32 \<Rightarrow> u32 \<Rightarrow> u32) \<Rightarrow> int \<Rightarrow> hook_world \<Rightarrow> (int \<times> hook_world) res" where
  "accept_leave setfl fd w =
     (if fd > 0 then bind_res (mgr_get setfl fd True w) (\<lambda>(_, w1). Inr (fd, w1)) else Inr (fd, w))"

section \<open>Connecting\<close>

text \<open>
  \<open>connect_with_timeout\<close> up to its call of \<open>connect_f\<close> that it does not simply forward (\<open>Retry\<close>).
\<close>

definition connect_enter ::
  "(u32 \<Rightarrow> u32 \<Rightarrow> u32) \<Rightarrow> int \<Rightarrow> hook_world \<Rightarrow> (hook_result \<times> hook_world) res"
where
  "connect_enter setfl fd w =
     (if \<not> is_hook_enable w then Inr (Raw, w)
      else
        bind_res (mgr_get setfl fd False w) (\<lambda>(r, w1).
        case r of
          None \<Rightarrow> Inr (Ret (- 1), w1\<lparr>hw_errno := EBADF\<rparr>)
        | Some p \<Rightarrow>
            let ctx = mgr_ctx p w1 in
            if m_isClosed ctx then Inr (Ret (- 1), w1\<lparr>hw_errno := EBADF\<rparr>)
            else if \<not> m_isSocket ctx then Inr (Raw, w1)
            else if m_userNonblock ctx then Inr (Raw, w1)
            else Inr (Retry, w1)))"

text \<open>The end of the function: \<open>rt\<close> and \<open>error\<close> are what \<open>getsockopt(SO_ERROR)\<close> gives.\<close>

definition connect_check :: "int \<Rightarrow> int \<Rightarrow> io_call \<Rightarrow> hook_world \<Rightarrow> int \<times> hook_world" where
  "connect_check rt error c w =
     (if rt = - 1 then (- 1, drop_cond c w)
      else if error = 0 then (0, drop_cond c w)
      else (- 1, drop_cond c (w\<lparr>hw_errno := error\<rparr>)))"

text \<open>
  From the result \<open>n\<close> and \<open>errno\<close> \<open>e\<close> of \<open>connect_f\<close> to the \<open>yield\<close>; \<open>Retry\<close> stands for going on to
  \<open>connect_check\<close>. \<open>rt\<close> is what \<open>epoll_ctl\<close> answers in \<open>addEvent\<close>.
\<close>

definition connect_try ::
  "time_point \<Rightarrow> int \<Rightarrow> int \<Rightarrow> int \<Rightarrow> int \<Rightarrow> u64 \<Rightarrow> hook_world \<Rightarrow> (hook_result \<times> io_call \<times> hook_world) res"
where
  "connect_try now rt n e fd timeout_ms w =
     (let c = \<lparr>io_fd = fd, io_event = WRITE, io_timeout = timeout_ms, io_cond = hw_fresh_cond w\<rparr> in
      if n = 0 then Inr (Ret 0, c, w)
      else if n \<noteq> - 1 \<or> e \<noteq> EINPROGRESS then Inr (Ret n, c, w\<lparr>hw_errno := e\<rparr>)
      else
        let w1 = w\<lparr>hw_conds := (hw_conds w)(io_cond c \<mapsto> 0), hw_fresh_cond := Suc (hw_fresh_cond w)\<rparr> in
        bind_res (deref (this_iom w1)) (\<lambda>s.
        bind_res (call_timer now c s) (\<lambda>(timer, s1).
        bind_res (addEvent rt fd WRITE None s1 (hw_local w1)) (\<lambda>(r, s2, l).
        if r = 0 then
          bind_res (GetThis (tl_fibers l)) (\<lambda>(f, fw).
          bind_res (fiber_yield f fw) (\<lambda>fw1.
          Inr (Park timer, c, put_fibers fw1 (put_iom s2 (w1\<lparr>hw_local := l\<rparr>)))))
        else Inr (Retry, c, put_iom (cancel_timer timer s2) (w1\<lparr>hw_local := l\<rparr>))))))"

text \<open>After the \<open>yield\<close>.\<close>

definition connect_wake :: "timer_ptr option \<Rightarrow> io_call \<Rightarrow> hook_world \<Rightarrow> hook_result \<times> hook_world" where
  "connect_wake timer c w =
     (let w1 = w\<lparr>hw_iom := map_option (cancel_timer timer) (hw_iom w)\<rparr>
      in case hw_conds w1 (io_cond c) of
           Some cancelled \<Rightarrow>
             if cancelled \<noteq> 0 then (Ret (- 1), drop_cond c (w1\<lparr>hw_errno := cancelled\<rparr>))
             else (Retry, w1)
         | None \<Rightarrow> (Retry, w1))"

text \<open>\<open>connect\<close> up to its \<open>yield\<close>: \<open>s_connect_timeout\<close> is -1, so there is never a timer.\<close>

definition hook_connect ::
  "(u32 \<Rightarrow> u32 \<Rightarrow> u32) \<Rightarrow> time_point \<Rightarrow> int \<Rightarrow> int \<Rightarrow> int \<Rightarrow> int \<Rightarrow> hook_world
   \<Rightarrow> (hook_result \<times> io_call option \<times> hook_world) res"
where
  "hook_connect setfl now rt n e sockfd w =
     bind_res (connect_enter setfl sockfd w) (\<lambda>(r, w1).
     if r \<noteq> Retry then Inr (r, None, w1)
     else bind_res (connect_try now rt n e sockfd (- 1) w1) (\<lambda>(r, c, w2). Inr (r, Some c, w2)))"

section \<open>Descriptor flags and options\<close>

text \<open>The commands of \<open>fcntl\<close> by number, and how each is forwarded.\<close>

datatype fcntl_arg = Int_arg | Ptr_arg | No_arg

definition F_GETFL :: int where "F_GETFL = 3"
definition F_SETFL :: int where "F_SETFL = 4"

definition fcntl_forward :: "int \<Rightarrow> fcntl_arg" where
  "fcntl_forward cmd =
     (if cmd \<in> {0, 1030, 2, 8, 10, 1024, 1026, 1031} then Int_arg
        \<comment> \<open>\<open>F_DUPFD\<close>, \<open>F_DUPFD_CLOEXEC\<close>, \<open>F_SETFD\<close>, \<open>F_SETOWN\<close>, \<open>F_SETSIG\<close>, \<open>F_SETLEASE\<close>, \<open>F_NOTIFY\<close>, \<open>F_SETPIPE_SZ\<close>\<close>
      else if cmd \<in> {1, 9, 11, 1025, 1032} then No_arg
        \<comment> \<open>\<open>F_GETFD\<close>, \<open>F_GETOWN\<close>, \<open>F_GETSIG\<close>, \<open>F_GETLEASE\<close>, \<open>F_GETPIPE_SZ\<close>\<close>
      else if cmd \<in> {6, 7, 5, 15, 16} then Ptr_arg
        \<comment> \<open>\<open>F_SETLK\<close>, \<open>F_SETLKW\<close>, \<open>F_GETLK\<close>, \<open>F_SETOWN_EX\<close>, \<open>F_GETOWN_EX\<close>\<close>
      else No_arg)"

text \<open>\<open>fcntl(fd, F_SETFL, arg)\<close>: the flags handed to \<open>fcntl_f\<close>, with their effect on the kernel.\<close>

definition fcntl_setfl :: "(u32 \<Rightarrow> u32 \<Rightarrow> u32) \<Rightarrow> int \<Rightarrow> u32 \<Rightarrow> hook_world \<Rightarrow> hook_world res" where
  "fcntl_setfl setfl fd arg w =
     bind_res (mgr_get setfl fd False w) (\<lambda>(r, w1).
     case r of
       None \<Rightarrow> Inr (w1\<lparr>hw_kernel := k_setfl setfl fd arg (hw_kernel w1)\<rparr>)
     | Some p \<Rightarrow>
         if m_isClosed (mgr_ctx p w1) \<or> \<not> m_isSocket (mgr_ctx p w1)
         then Inr (w1\<lparr>hw_kernel := k_setfl setfl fd arg (hw_kernel w1)\<rparr>)
         else
           let w2 = mgr_upd p (setUserNonblock (arg AND O_NONBLOCK \<noteq> 0)) w1;
               arg' = (if m_sysNonblock (mgr_ctx p w2) then arg OR O_NONBLOCK else arg AND NOT O_NONBLOCK)
           in Inr (w2\<lparr>hw_kernel := k_setfl setfl fd arg' (hw_kernel w2)\<rparr>))"

definition fcntl_getfl :: "(u32 \<Rightarrow> u32 \<Rightarrow> u32) \<Rightarrow> int \<Rightarrow> hook_world \<Rightarrow> (u32 \<times> hook_world) res" where
  "fcntl_getfl setfl fd w =
     (let arg = k_flags (hw_kernel w) fd in
      bind_res (mgr_get setfl fd False w) (\<lambda>(r, w1).
      case r of
        None \<Rightarrow> Inr (arg, w1)
      | Some p \<Rightarrow>
          if m_isClosed (mgr_ctx p w1) \<or> \<not> m_isSocket (mgr_ctx p w1) then Inr (arg, w1)
          else if m_userNonblock (mgr_ctx p w1) then Inr (arg OR O_NONBLOCK, w1)
          else Inr (arg AND NOT O_NONBLOCK, w1)))"

datatype fcntl_result = Set_flags | Flags u32 | Forward fcntl_arg

definition hook_fcntl ::
  "(u32 \<Rightarrow> u32 \<Rightarrow> u32) \<Rightarrow> int \<Rightarrow> int \<Rightarrow> u32 \<Rightarrow> hook_world \<Rightarrow> (fcntl_result \<times> hook_world) res"
where
  "hook_fcntl setfl fd cmd arg w =
     (if cmd = F_SETFL then bind_res (fcntl_setfl setfl fd arg w) (\<lambda>w1. Inr (Set_flags, w1))
      else if cmd = F_GETFL then bind_res (fcntl_getfl setfl fd w) (\<lambda>(v, w1). Inr (Flags v, w1))
      else Inr (Forward (fcntl_forward cmd), w))"

text \<open>\<open>ioctl\<close> up to its call of \<open>ioctl_f\<close>; \<open>arg\<close> is the \<open>int\<close> behind the pointer.\<close>

definition FIONBIO :: u64 where "FIONBIO = 0x5421"

definition hook_ioctl ::
  "(u32 \<Rightarrow> u32 \<Rightarrow> u32) \<Rightarrow> int \<Rightarrow> u64 \<Rightarrow> int \<Rightarrow> hook_world \<Rightarrow> (hook_result \<times> hook_world) res"
where
  "hook_ioctl setfl fd request arg w =
     (if FIONBIO = request
      then
        bind_res (mgr_get setfl fd False w) (\<lambda>(r, w1).
        case r of
          None \<Rightarrow> Inr (Raw, w1)
        | Some p \<Rightarrow>
            if m_isClosed (mgr_ctx p w1) \<or> \<not> m_isSocket (mgr_ctx p w1) then Inr (Raw, w1)
            else Inr (Raw, mgr_upd p (setUserNonblock (arg \<noteq> 0)) w1))
      else Inr (Raw, w))"

text \<open>
  \<open>getsockopt\<close> always forwards. \<open>setsockopt\<close> remembers the two timeouts before it forwards; the
  option's \<open>timeval\<close> is \<open>tv_sec\<close> and \<open>tv_usec\<close>.
\<close>

definition SOL_SOCKET :: int where "SOL_SOCKET = 1"

definition hook_getsockopt :: "hook_world \<Rightarrow> hook_result \<times> hook_world" where
  "hook_getsockopt w = (Raw, w)"

definition hook_setsockopt ::
  "(u32 \<Rightarrow> u32 \<Rightarrow> u32) \<Rightarrow> int \<Rightarrow> int \<Rightarrow> int \<Rightarrow> int \<Rightarrow> int \<Rightarrow> hook_world \<Rightarrow> (hook_result \<times> hook_world) res"
where
  "hook_setsockopt setfl sockfd level optname tv_sec tv_usec w =
     (if \<not> is_hook_enable w then Inr (Raw, w)
      else if level = SOL_SOCKET \<and> (optname = SO_RCVTIMEO \<or> optname = SO_SNDTIMEO)
      then
        bind_res (mgr_get setfl sockfd False w) (\<lambda>(r, w1).
        case r of
          None \<Rightarrow> Inr (Raw, w1)
        | Some p \<Rightarrow>
            Inr (Raw, mgr_upd p (setTimeout optname
                   (word_of_int (s64 (tv_sec * 1000 + cdiv tv_usec 1000)))) w1))
      else Inr (Raw, w))"

section \<open>The idle fiber of a plain scheduler\<close>

text \<open>
  A turn of \<open>Scheduler::idle\<close>, whose \<open>sleep(1)\<close> is the hooked one: \<open>run\<close> has enabled the hooks of
  its thread. The \<open>yield\<close> after the sleep is not reached before the fiber is resumed.
\<close>

definition scheduler_idle_turn ::
  "time_point \<Rightarrow> 'z scheduler_scheme \<Rightarrow> hook_world \<Rightarrow> (hook_result option \<times> hook_world) res"
where
  "scheduler_idle_turn now s w =
     (if base_stopping s then Inr (None, w)
      else bind_res (hook_sleep now 1 w) (\<lambda>(r, w1). Inr (Some r, w1)))"

section \<open>Looking up descriptors\<close>

definition mgr_look :: "int \<Rightarrow> hook_world \<Rightarrow> fdc_ptr option" where
  "mgr_look fd w = fd_look fd (fst (GetInstance (hw_fdmgr w)), hw_kernel w)"

text \<open>A look-up without creation only makes sure that the singleton exists.\<close>

definition touch_mgr :: "hook_world \<Rightarrow> hook_world" where
  "touch_mgr w = w\<lparr>hw_fdmgr := Some (fst (GetInstance (hw_fdmgr w)))\<rparr>"

lemma mgr_get_look: "mgr_get setfl fd False w = Inr (mgr_look fd w, touch_mgr w)"
proof -
  let ?m = "fst (GetInstance (hw_fdmgr w))"
  have "get_shared fd False ?m = Some (fd_look fd (?m, hw_kernel w))"
    by (auto simp: get_shared_def fd_look_def)
  then show ?thesis
    by (simp add: mgr_get_def fd_get_def mgr_look_def touch_mgr_def case_prod_beta)
qed

lemma touch_mgr_sel [simp]:
  "mgr_ctx p (touch_mgr w) = mgr_ctx p w" "hw_local (touch_mgr w) = hw_local w"
  "hw_kernel (touch_mgr w) = hw_kernel w" "hw_iom (touch_mgr w) = hw_iom w"
  "hw_conds (touch_mgr w) = hw_conds w" "hw_fresh_cond (touch_mgr w) = hw_fresh_cond w"
  "hw_errno (touch_mgr w) = hw_errno w" "is_hook_enable (touch_mgr w) = is_hook_enable w"
  "this_iom (touch_mgr w) = this_iom w" "mgr_look fd (touch_mgr w) = mgr_look fd w"
  "hw_fdmgr (touch_mgr w) \<noteq> None" "touch_mgr (touch_mgr w) = touch_mgr w"
  by (auto simp: touch_mgr_def mgr_ctx_def GetInstance_def is_hook_enable_def this_iom_def mgr_look_def
      split: option.splits)

lemma mgr_get_create:
  assumes "mgr_get setfl fd True w = Inr (r, w1)" and "mgr_look fd w = None" and "fd \<noteq> - 1"
  shows "\<exists>p. r = Some p \<and> mgr_look fd w1 = Some p
    \<and> mgr_ctx p w1 = fst (new_fd_ctx setfl fd (hw_kernel w))
    \<and> hw_kernel w1 = snd (new_fd_ctx setfl fd (hw_kernel w))
    \<and> hw_local w1 = hw_local w \<and> hw_iom w1 = hw_iom w
    \<and> p < length (fdc_objs (fst (GetInstance (hw_fdmgr w1))))"
proof -
  let ?m = "fst (GetInstance (hw_fdmgr w))"
  have "get_shared fd True ?m = None"
    using assms(2,3) by (auto simp: mgr_look_def fd_look_eq get_shared_def past_end_def slot_def split: if_splits)
  then obtain p m1 k1 where c: "get_create setfl fd ?m (hw_kernel w) = Inr (p, m1, k1)"
      and w1: "w1 = w\<lparr>hw_fdmgr := Some m1, hw_kernel := k1\<rparr>" "r = Some p"
    using assms(1) by (auto simp: mgr_get_def fd_get_def case_prod_beta res_simps)
  note g = get_create_eq_Inr [OF c]
  show ?thesis
    using g(2-4) g(5) [of fd] w1
    by (auto simp: mgr_look_def fd_look_eq GetInstance_def mgr_ctx_def fdc_at_def nth_append)
qed

lemma new_socket_ctx:
  assumes "k_stat k fd = Some True" and "sets_nonblock setfl"
  shows "m_isSocket (fst (new_fd_ctx setfl fd k))" "m_sysNonblock (fst (new_fd_ctx setfl fd k))"
    "\<not> m_isClosed (fst (new_fd_ctx setfl fd k))" "\<not> m_userNonblock (fst (new_fd_ctx setfl fd k))"
    "k_flags (snd (new_fd_ctx setfl fd k)) fd AND O_NONBLOCK \<noteq> 0"
proof -
  have "(x OR O_NONBLOCK) AND O_NONBLOCK \<noteq> 0" for x :: u32
    by (simp add: mask_bits) (simp add: O_NONBLOCK_def)
  then show "m_isSocket (fst (new_fd_ctx setfl fd k))" "m_sysNonblock (fst (new_fd_ctx setfl fd k))"
    "\<not> m_isClosed (fst (new_fd_ctx setfl fd k))" "\<not> m_userNonblock (fst (new_fd_ctx setfl fd k))"
    "k_flags (snd (new_fd_ctx setfl fd k)) fd AND O_NONBLOCK \<noteq> 0"
    using assms by (auto simp: new_fd_ctx_def fd_init_def fresh_fd_ctx_def Let_def k_setfl_def sets_nonblock_def)
qed

section \<open>Timers armed by a call\<close>

text \<open>
  Arming allocates one \<open>Timer\<close> object at the end of the manager's objects; the queue, the
  contexts and the identity of the manager stay.
\<close>

definition armed :: "timer \<Rightarrow> iomanager \<Rightarrow> iomanager \<Rightarrow> bool" where
  "armed t s s1 \<longleftrightarrow> objs (io_timers s1) = objs (io_timers s) @ [t] \<and> m_tasks s1 = m_tasks s
     \<and> ctxs s1 = ctxs s \<and> m_this s1 = m_this s \<and> io_pipe_open s1 = io_pipe_open s
     \<and> m_fdContexts s1 = m_fdContexts s
     \<and> io_timers s1 = fst (addTimer_ptr (length (objs (io_timers s)))
                          ((io_timers s)\<lparr>objs := objs (io_timers s) @ [t]\<rparr>))"

lemma addTimer_ptr_objs: "objs (fst (addTimer_ptr i M)) = objs M"
  by (simp add: addTimer_ptr_def Let_def)

lemma iom_addTimer_armed:
  "iom_addTimer now ms cb r s = Inr (p, s1) \<Longrightarrow>
   armed (new_timer now ms cb r) s s1 \<and> p = length (objs (io_timers s))"
  using addTimer_ptr_objs [of "length (objs (io_timers s))"
      "(io_timers s)\<lparr>objs := objs (io_timers s) @ [new_timer now ms cb r]\<rparr>"]
  by (auto simp: iom_addTimer_def addTimer_def Let_def res_simps onTimerInsertedAtFront_def iom_tickle_eq
      armed_def split: prod.splits if_splits)

declare addTimer_ptr_objs [simp]

text \<open>The thread's scheduler is the \<open>IOManager\<close> \<open>s\<close>.\<close>

definition on_iom :: "iomanager \<Rightarrow> hook_world \<Rightarrow> bool" where
  "on_iom s w \<longleftrightarrow> hw_iom w = Some s \<and> t_scheduler (hw_local w) = Some (m_this s)"

lemma on_iom_this: "on_iom s w \<Longrightarrow> this_iom w = Some s"
  by (simp add: on_iom_def this_iom_def iom_GetThis_def)

lemma iom_addTimer_ok: "io_pipe_open s \<Longrightarrow> \<exists>p s1. iom_addTimer now ms cb r s = Inr (p, s1)"
  by (auto simp: iom_addTimer_def Let_def onTimerInsertedAtFront_def iom_tickle_def split: prod.splits)

text \<open>A sleeping task: its timer is armed and its fiber parked.\<close>

lemma sleep_ms_ok:
  assumes "on_iom s w" and "running_task f (tl_fibers (hw_local w))" and "io_pipe_open s"
  obtains p s1 fw where "iom_addTimer now ms (Some (Schedule_fiber_cb (m_this s) f)) False s = Inr (p, s1)"
    "sleep_ms now ms w = Inr (Park None, put_fibers fw (put_iom s1 w))" "parked f fw"
proof -
  obtain p s1 where "iom_addTimer now ms (Some (Schedule_fiber_cb (m_this s) f)) False s = Inr (p, s1)"
    using iom_addTimer_ok [OF assms(3)] by blast
  moreover obtain fw where "fiber_yield f (tl_fibers (hw_local w)) = Inr fw" "parked f fw"
    using running_task_yields [OF assms(2)] by blast
  ultimately show ?thesis
    using that on_iom_this [OF assms(1)] running_task_GetThis [OF assms(2)]
    by (simp add: sleep_ms_def deref_def)
qed

lemma sleep_ms_arms:
  assumes "sleep_ms now ms w = Inr (r, w1)"
  obtains s s1 f where "this_iom w = Some s" "hw_iom w1 = Some s1" "r = Park None"
    "armed (new_timer now ms (Some (Schedule_fiber_cb (m_this s) f)) False) s s1"
  using assms
  by (auto simp: sleep_ms_def res_simps put_fibers_def put_iom_def deref_def split: option.splits
      dest!: iom_addTimer_armed)

text \<open>The numbers of milliseconds.\<close>

lemma sleep_product:
  fixes seconds :: u32
  shows "uint (ucast (seconds * 1000) :: u64) = uint seconds * 1000 mod 2 ^ 32"
    and "uint seconds * 1000 mod 2 ^ 32 = uint seconds * 1000 \<longleftrightarrow> uint seconds \<le> 4294967"
proof -
  have "uint (ucast (seconds * 1000) :: u64) = uint (seconds * 1000)"
    by (rule uint_up_ucast) (simp add: is_up)
  then show "uint (ucast (seconds * 1000) :: u64) = uint seconds * 1000 mod 2 ^ 32"
    by (simp add: uint_word_ariths)
  show "uint seconds * 1000 mod 2 ^ 32 = uint seconds * 1000 \<longleftrightarrow> uint seconds \<le> 4294967"
  proof
    assume a: "uint seconds * 1000 mod 2 ^ 32 = uint seconds * 1000"
    have "uint seconds * 1000 mod 2 ^ 32 < (2::int) ^ 32" by simp
    with a show "uint seconds \<le> 4294967" by simp
  next
    assume "uint seconds \<le> 4294967"
    then show "uint seconds * 1000 mod 2 ^ 32 = uint seconds * 1000"
      by (intro mod_pos_pos_trivial) simp_all
  qed
qed

lemma nanosleep_ms_eq:
  assumes "0 \<le> nsec"
  shows "nanosleep_ms sec nsec = s32 (s64 (sec * 1000 + nsec div 10 ^ 6))"
  using assms zdiv_zmult2_eq [of 1000 nsec 1000] by (simp add: nanosleep_ms_def cdiv_def)

lemma nanosleep_small:
  assumes "0 \<le> nsec" and "nsec < 10 ^ 9" and "0 \<le> sec" and "sec * 1000 + nsec div 10 ^ 6 < 2 ^ 31"
  shows "uint (word_of_int (nanosleep_ms sec nsec) :: u64) = sec * 1000 + nsec div 10 ^ 6"
proof -
  let ?m = "sec * 1000 + nsec div 10 ^ 6"
  have m: "0 \<le> ?m" using assms(1,3) by simp
  then have "nanosleep_ms sec nsec = ?m"
    using assms(1,4) by (simp add: nanosleep_ms_eq s64_id s32_id)
  then have "uint (word_of_int (nanosleep_ms sec nsec) :: u64) = ?m mod 2 ^ 64"
    by (simp only: uint_word_of_int) simp
  with m assms(4) show ?thesis by simp
qed

lemma nanosleep_large:
  assumes "0 \<le> nsec" and "nsec < 10 ^ 9" and "2147484 \<le> sec" and "sec < 4294967"
  shows "2 ^ 63 < uint (word_of_int (nanosleep_ms sec nsec) :: u64)"
proof -
  let ?m = "sec * 1000 + nsec div 10 ^ 6"
  have "0 \<le> nsec div 10 ^ 6" using assms(1) by simp
  moreover have "nsec div 10 ^ 6 < 1000" using assms(2) by simp
  ultimately have m: "2147484000 \<le> ?m" "?m < 4294967000" using assms(3,4) by linarith+
  have "(?m + 2 ^ 31) mod 2 ^ 32 = ?m + 2 ^ 31 - 2 ^ 32"
    using m by (simp add: mod_pos_geq)
  then have "nanosleep_ms sec nsec = ?m - 2 ^ 32"
    using assms(1) m by (simp add: nanosleep_ms_eq s64_id s32_def)
  moreover have "(?m - 2 ^ 32) mod 2 ^ 64 = ?m - 2 ^ 32 + 2 ^ 64"
    using m by (subst mod_add_self2 [symmetric], intro mod_pos_pos_trivial) simp_all
  ultimately have "uint (word_of_int (nanosleep_ms sec nsec) :: u64) = ?m - 2 ^ 32 + 2 ^ 64"
    by (simp only: uint_word_of_int) simp
  then show ?thesis using m by simp
qed

section \<open>The loop over \<open>EINTR\<close>\<close>

lemma skip_eintr_stops:
  assumes "ans k \<noteq> (- 1, EINTR)" and "i \<le> k" and "\<forall>l. i \<le> l \<longrightarrow> l < k \<longrightarrow> ans l = (- 1, EINTR)"
  shows "skip_eintr ans i = Some (Suc k, ans k)"
  using assms
proof (induction "k - i" arbitrary: i)
  case 0
  then have "i = k" by simp
  then show ?case using 0(2) by (subst skip_eintr.simps) (auto simp: case_prod_beta prod_eq_iff)
next
  case (Suc n)
  then have "ans i = (- 1, EINTR)" and "skip_eintr ans (Suc i) = Some (Suc k, ans k)"
    by (auto intro!: Suc(1))
  then show ?case by (subst skip_eintr.simps) simp
qed

lemma skip_eintr_Some: "skip_eintr ans i = Some r \<Longrightarrow> \<exists>k\<ge>i. ans k \<noteq> (- 1, EINTR)"
proof (induction rule: skip_eintr.raw_induct [rotated 1, consumes 1])
  case (1 skip ans i r)
  show ?case
  proof (cases "ans i = (- 1, EINTR)")
    case True
    then have "skip ans (Suc i) = Some r" using 1(2) by simp
    then obtain k where "Suc i \<le> k" "ans k \<noteq> (- 1, EINTR)" using 1(1) by (cases r) blast
    then show ?thesis using Suc_leD by blast
  qed auto
qed

section \<open>Cancelling everything\<close>

text \<open>\<open>cancelAll\<close> when \<open>epoll_ctl\<close> succeeds and all waiters belong to this manager.\<close>

definition waits_here :: "ctx_ptr \<Rightarrow> iomanager \<Rightarrow> bool" where
  "waits_here p s \<longleftrightarrow> p < length (ctxs s) \<and> io_pipe_open s \<and> ctx_event (ctxs s ! p) \<noteq> 0
     \<and> (ctx_event (ctxs s ! p) AND READ \<noteq> 0 \<longrightarrow> ev_scheduler (ctx_read (ctxs s ! p)) = Some (m_this s))
     \<and> (ctx_event (ctxs s ! p) AND WRITE \<noteq> 0 \<longrightarrow> ev_scheduler (ctx_write (ctxs s ! p)) = Some (m_this s))"

lemma all_events_cleared:
  assumes "e \<in> {0, READ, WRITE, READ OR WRITE}"
  shows "e AND NOT ((if e AND READ \<noteq> 0 then READ else 0) OR (if e AND WRITE \<noteq> 0 then WRITE else 0)) = 0"
  using assms by (elim event_cases) (simp_all add: event_defs)

lemma cancelAll_fires:
  assumes "iom_inv s" and "find_context fd s = Inr (Some p)" and "waits_here p s"
  defines "c \<equiv> ctxs s ! p"
  shows "\<exists>s1. cancelAll 0 fd s = Inr (True, s1)
    \<and> m_tasks s1 = m_tasks s @ event_tasks (ctx_event c AND READ \<noteq> 0) (ctx_event c AND WRITE \<noteq> 0) c
    \<and> m_pendingEventCnt s1 = m_pendingEventCnt s - reg_count c
    \<and> ctx_event (ctxs s1 ! p) = 0 \<and> io_interest s1 = (io_interest s)(fd := None)"
proof -
  let ?s = "ctl CTL_DEL fd 0 (Data_ptr p) s"
  let ?br = "ctx_event c AND READ \<noteq> 0" and ?bw = "ctx_event c AND WRITE \<noteq> 0"
  have p: "p < length (ctxs s)" using assms(3) by (simp add: waits_here_def)
  have ok: "ctx_ok (ctxs ?s ! p)" using iom_inv_ctx_ok [OF assms(1) p] by simp
  obtain s1 s2 where t: "trigger_if ?br READ p ?s = Inr s1" "trigger_if ?bw WRITE p s1 = Inr s2"
      "m_tasks s2 = m_tasks s @ event_tasks ?br ?bw c"
      "m_pendingEventCnt s2 = m_pendingEventCnt s - (if ?br then 1 else 0) - (if ?bw then 1 else 0)"
      "io_interest s2 = io_interest ?s" "p < length (ctxs s1)"
      "ctx_event (ctxs s1 ! p) AND WRITE = ctx_event c AND WRITE" "p < length (ctxs s2)"
      "ctx_event (ctxs s2 ! p) = ctx_event c AND NOT ((if ?br then READ else 0) OR (if ?bw then WRITE else 0))"
    using trigger_both [OF ok, of ?br ?bw] assms(3) by (auto simp: waits_here_def c_def)
  have z: "ctx_event (ctxs s2 ! p) = 0"
    using all_events_cleared [of "ctx_event c"] ok t(9) by (simp add: ctx_ok_def c_def)
  have "cancelAll 0 fd s = Inr (True, s2)"
    using assms(2,3) t(1,2,6-8) z
    by (simp add: cancelAll_def with_context_def cancelAll_locked_def ctx_at_def waits_here_def c_def)
  then show ?thesis
    using t z by (auto simp: reg_count_def)
qed

section \<open>Properties\<close>

definition ex_hook :: hook_world where
  "ex_hook = \<lparr>hw_local = ex_locals\<lparr>tl_fibers := ex_task\<rparr>, hw_fdmgr = None, hw_kernel = ex_kernel, hw_iom = Some ex_iom,
     hw_errno = 0, hw_conds = (\<lambda>_. None), hw_fresh_cond = 0\<rparr>"

lemma ex_hook_sel [simp]:
  "hw_local ex_hook = ex_locals\<lparr>tl_fibers := ex_task\<rparr>" "hw_iom ex_hook = Some ex_iom"
  "hw_kernel ex_hook = ex_kernel" "hw_fdmgr ex_hook = None"
  "t_scheduler ex_locals = Some 1" "t_hook_enable ex_locals"
  by (simp_all add: ex_hook_def ex_locals_def)

lemma ex_hook_on: "on_iom ex_iom ex_hook" "running_task 1 (tl_fibers (hw_local ex_hook))"
  using ex_task_running by (simp_all add: on_iom_def)

text \<open>A descriptor opened in the example's world, with kernel \<open>k\<close>.\<close>

lemma ex_opened:
  assumes "0 \<le> fd" and "fd < 64"
  obtains w p where "mgr_look fd w = Some p" "mgr_ctx p w = fst (new_fd_ctx (\<lambda>old v. v) fd k)"
    "p < length (fdc_objs (fst (GetInstance (hw_fdmgr w))))" "on_iom ex_iom w" "is_hook_enable w"
    "running_task 1 (tl_fibers (hw_local w))"
proof -
  let ?w0 = "ex_hook\<lparr>hw_kernel := k\<rparr>"
  have "nat fd < 64" using assms by simp
  then have "\<exists>r w. mgr_get (\<lambda>old v. v) fd True ?w0 = Inr (r, w)"
    using assms by (simp add: mgr_get_def GetInstance_def fd_get_def get_shared_def past_end_def
        new_fd_manager_def get_create_def grown_table_def Let_def case_prod_beta)
  then obtain r w where g: "mgr_get (\<lambda>old v. v) fd True ?w0 = Inr (r, w)" by blast
  have "mgr_look fd ?w0 = None"
    by (simp add: mgr_look_def GetInstance_def fd_look_eq slot_def new_fd_manager_def)
  from mgr_get_create [OF g this] assms(1) obtain p where
    "mgr_look fd w = Some p" "mgr_ctx p w = fst (new_fd_ctx (\<lambda>old v. v) fd k)"
      "p < length (fdc_objs (fst (GetInstance (hw_fdmgr w))))" "hw_local w = hw_local ex_hook"
      "hw_iom w = hw_iom ex_hook" by auto
  then show ?thesis
    using that ex_hook_on by (simp add: on_iom_def is_hook_enable_def)
qed

text \<open>A hooked \<open>socket\<close> in the example's world.\<close>

lemma ex_socket:
  obtains w1 where "hook_socket (\<lambda>old v. v) 3 ex_hook = Inr (3, w1)"
  by (simp add: hook_socket_def is_hook_enable_def ex_hook_def ex_locals_def mgr_get_def GetInstance_def
      fd_get_def get_shared_def past_end_def new_fd_manager_def get_create_def grown_table_def Let_def
      case_prod_beta)

lemma ex_hook_facts:
  "sets_nonblock (\<lambda>old v. v)" "mgr_look 3 ex_hook = None" "is_hook_enable ex_hook"
  "k_stat (hw_kernel ex_hook) 3 = Some True"
  by (simp_all add: sets_nonblock_def mgr_look_def ex_hook_def GetInstance_def fd_look_eq slot_def
      new_fd_manager_def is_hook_enable_def ex_locals_def ex_kernel_def)

text \<open>
  C20: reading, writing and accepting on a socket never gives up the thread. \<open>socket\<close> makes the new
  socket non-blocking in the kernel while its user has not asked for it and sees it as blocking;
  yet \<open>do_io\<close> then forwards every call on it straight to the original function, without the
  wait for readiness, because its test asks for \<open>isSocket()\<close> where it means the opposite.
\<close>

theorem calls_on_sockets_never_wait:
  assumes "is_hook_enable w" and "hook_socket setfl fd w = Inr (fd, w1)" and "fd \<noteq> - 1"
    and "mgr_look fd w = None" and "k_stat (hw_kernel w) fd = Some True" and "sets_nonblock setfl"
  shows "k_flags (hw_kernel w1) fd AND O_NONBLOCK \<noteq> 0
    \<and> (\<exists>flags w2. fcntl_getfl setfl fd w1 = Inr (flags, w2) \<and> flags AND O_NONBLOCK = 0)
    \<and> (\<exists>c w2. io_enter setfl f fd w1 = Inr (Raw, c, w2) \<and> hw_iom w2 = hw_iom w \<and> hw_local w2 = hw_local w)"
proof -
  obtain r where "mgr_get setfl fd True w = Inr (r, w1)"
    using assms(1-3) by (auto simp: hook_socket_def res_simps)
  from mgr_get_create [OF this assms(4,3)] obtain p where
    p: "mgr_look fd w1 = Some p" "mgr_ctx p w1 = fst (new_fd_ctx setfl fd (hw_kernel w))"
      "hw_kernel w1 = snd (new_fd_ctx setfl fd (hw_kernel w))" "hw_local w1 = hw_local w" "hw_iom w1 = hw_iom w"
    by blast
  note n = new_socket_ctx [OF assms(5,6)]
  note b = mask_bits(2) [of _ O_NONBLOCK]
  then show ?thesis
    using p n b assms(1) by (auto simp: fcntl_getfl_def mgr_get_look io_enter_def do_io_enter_def Let_def
        case_prod_beta is_hook_enable_def)
qed

theorem calls_on_sockets_never_wait_witness:
  "\<exists>w1 c w2. hook_socket (\<lambda>old v. v) 3 ex_hook = Inr (3, w1)
     \<and> k_flags (hw_kernel w1) 3 AND O_NONBLOCK \<noteq> 0 \<and> io_enter (\<lambda>old v. v) F_recv 3 w1 = Inr (Raw, c, w2)"
proof -
  obtain w1 where w1: "hook_socket (\<lambda>old v. v) 3 ex_hook = Inr (3, w1)" by (rule ex_socket)
  with calls_on_sockets_never_wait [OF ex_hook_facts(3) w1 _ ex_hook_facts(2,4,1), of F_recv] show ?thesis
    by auto
qed

text \<open>
  For a socket of the library, the user's \<open>O_NONBLOCK\<close> and the kernel's are kept apart:
  \<open>F_GETFL\<close> shows exactly the bit the user last gave to \<open>F_SETFL\<close>, and the kernel's bit stays set
  whatever the user asks for.
\<close>

theorem user_nonblock_round_trip:
  assumes "mgr_look fd w = Some p" and "p < length (fdc_objs (fst (GetInstance (hw_fdmgr w))))"
    and "\<not> m_isClosed (mgr_ctx p w)" and "m_isSocket (mgr_ctx p w)" and "m_sysNonblock (mgr_ctx p w)"
    and "sets_nonblock setfl"
  shows "\<exists>w1 w2 flags. fcntl_setfl setfl fd arg w = Inr w1 \<and> fcntl_getfl setfl fd w1 = Inr (flags, w2)
    \<and> flags AND O_NONBLOCK = arg AND O_NONBLOCK \<and> k_flags (hw_kernel w1) fd AND O_NONBLOCK \<noteq> 0"
proof -
  define w' where "w' = mgr_upd p (setUserNonblock (arg AND O_NONBLOCK \<noteq> 0)) (touch_mgr w)"
  have ctx: "mgr_ctx p w' = setUserNonblock (arg AND O_NONBLOCK \<noteq> 0) (mgr_ctx p w)"
    using assms(2) by (simp add: w'_def mgr_ctx_def mgr_upd_def touch_mgr_def GetInstance_def upd_fdc_def fdc_at_def)
  have look: "mgr_look fd (w'\<lparr>hw_kernel := k\<rparr>) = Some p" for k
    using assms(1) by (simp add: w'_def mgr_look_def mgr_upd_def touch_mgr_def GetInstance_def upd_fdc_def fd_look_eq)
  define w1 where "w1 = w'\<lparr>hw_kernel := k_setfl setfl fd (arg OR O_NONBLOCK) (hw_kernel w')\<rparr>"
  have set: "fcntl_setfl setfl fd arg w = Inr w1"
    using assms(1,3-5) ctx by (simp add: fcntl_setfl_def mgr_get_look Let_def w1_def setUserNonblock_def
        flip: w'_def)
  have ctx1: "mgr_ctx p w1 = mgr_ctx p w'" by (simp add: w1_def mgr_ctx_def)
  note b = mask_bits(1,2) [of _ O_NONBLOCK]
  have o: "arg AND O_NONBLOCK = 0 \<or> arg AND O_NONBLOCK = O_NONBLOCK" and nz: "O_NONBLOCK \<noteq> 0"
    using one_bit [of arg 11] by (simp_all add: O_NONBLOCK_def)
  have "mgr_look fd w1 = Some p" using look unfolding w1_def .
  then have "fcntl_getfl setfl fd w1 = Inr (if arg AND O_NONBLOCK \<noteq> 0 then k_flags (hw_kernel w1) fd OR O_NONBLOCK
      else k_flags (hw_kernel w1) fd AND NOT O_NONBLOCK, touch_mgr w1)"
    using ctx ctx1 assms(3,4) by (simp add: fcntl_getfl_def Let_def mgr_get_look setUserNonblock_def)
  moreover have "k_flags (hw_kernel w1) fd AND O_NONBLOCK = O_NONBLOCK"
    using assms(6) b by (simp add: w1_def k_setfl_def sets_nonblock_def)
  ultimately show ?thesis
    using set o nz b by auto
qed

theorem user_nonblock_round_trip_witness:
  "\<exists>w w1 w2 flags. hook_socket (\<lambda>old v. v) 3 ex_hook = Inr (3, w)
     \<and> fcntl_setfl (\<lambda>old v. v) 3 2 w = Inr w1 \<and> fcntl_getfl (\<lambda>old v. v) 3 w1 = Inr (flags, w2)
     \<and> flags AND O_NONBLOCK = 0 \<and> k_flags (hw_kernel w1) 3 AND O_NONBLOCK \<noteq> 0"
proof -
  obtain w where w: "hook_socket (\<lambda>old v. v) 3 ex_hook = Inr (3, w)" by (rule ex_socket)
  then obtain r where "mgr_get (\<lambda>old v. v) 3 True ex_hook = Inr (r, w)"
    by (auto simp: hook_socket_def res_simps ex_hook_facts)
  from mgr_get_create [OF this ex_hook_facts(2)] obtain p where
    p: "mgr_look 3 w = Some p" "mgr_ctx p w = fst (new_fd_ctx (\<lambda>old v. v) 3 (hw_kernel ex_hook))"
      "p < length (fdc_objs (fst (GetInstance (hw_fdmgr w))))" by auto
  note n = new_socket_ctx [OF ex_hook_facts(4,1)]
  show ?thesis
    using user_nonblock_round_trip [OF p(1,3) _ _ _ ex_hook_facts(1), of 2] p(2) n w
    by (fastforce simp: O_NONBLOCK_def)
qed

text \<open>
  C37: the period of the timer a hooked sleep arms. \<open>sleep\<close> multiplies in 32 bits, so that it
  arms the time it was asked for exactly up to 4294967 seconds and a shorter one beyond;
  \<open>usleep\<close> rounds down to milliseconds; \<open>nanosleep\<close> arms the time in milliseconds, rounded
  down, as long as it fits an \<open>int\<close>, and from 2147484 seconds on, where it first does not, a
  time of more than half a billion years.
\<close>

theorem sleep_arms_requested_time:
  assumes "is_hook_enable w"
    and "if nano then hook_nanosleep now sec nsec w = Inr (r, w1)
         else hook_sleep now seconds w = Inr (r, w1)"
    and "hw_iom w1 = Some s" and "0 \<le> nsec" and "nsec < 10 ^ 9" and "0 \<le> sec"
  shows "\<exists>t. last (objs (io_timers s)) = t
    \<and> (if nano
        then (sec * 1000 + nsec div 10 ^ 6 < 2 ^ 31 \<longrightarrow> uint (m_ms t) = sec * 1000 + nsec div 10 ^ 6)
          \<and> (2147484 \<le> sec \<and> sec < 4294967 \<longrightarrow> 2 ^ 63 < uint (m_ms t))
        else uint (m_ms t) = uint seconds * 1000 mod 2 ^ 32
          \<and> (uint (m_ms t) = uint seconds * 1000 \<longleftrightarrow> uint seconds \<le> 4294967))"
proof -
  define ms :: u64 where
    "ms = (if nano then word_of_int (nanosleep_ms sec nsec) else ucast (seconds * 1000))"
  have "sleep_ms now ms w = Inr (r, w1)"
    using assms(1,2) by (auto simp: hook_nanosleep_def hook_sleep_def ms_def split: if_splits)
  then obtain s0 f where "armed (new_timer now ms (Some (Schedule_fiber_cb (m_this s0) f)) False) s0 s"
    using assms(3) by (auto elim!: sleep_ms_arms)
  then have t: "m_ms (last (objs (io_timers s))) = ms"
    by (simp add: armed_def new_timer_def)
  show ?thesis
  proof (cases nano)
    case True
    then show ?thesis
      using t nanosleep_small [OF assms(4-6)] nanosleep_large [OF assms(4,5)] by (simp add: ms_def)
  next
    case False
    then show ?thesis
      using t sleep_product [of seconds] by (simp add: ms_def)
  qed
qed

theorem sleep_arms_requested_time_witness:
  "\<exists>w1 s. hook_sleep 0 4294968 ex_hook = Inr (Park None, w1) \<and> hw_iom w1 = Some s
     \<and> uint (m_ms (last (objs (io_timers s)))) = 704"
proof -
  have h: "is_hook_enable ex_hook" by (simp add: is_hook_enable_def)
  obtain p s fw where sl: "sleep_ms 0 (ucast (4294968 * 1000 :: u32)) ex_hook =
      Inr (Park None, put_fibers fw (put_iom s ex_hook))"
    by (rule sleep_ms_ok [OF ex_hook_on, where now = 0 and ms = "ucast (4294968 * 1000 :: u32)"]) simp_all
  then have "hook_sleep 0 4294968 ex_hook = Inr (Park None, put_fibers fw (put_iom s ex_hook))"
    using h by (simp add: hook_sleep_def)
  moreover have "hw_iom (put_fibers fw (put_iom s ex_hook)) = Some s"
    by (simp add: put_fibers_def put_iom_def)
  ultimately show ?thesis
    using sleep_arms_requested_time [of ex_hook False 0 0 0 "Park None"
        "put_fibers fw (put_iom s ex_hook)" 4294968 s] h by auto
qed

text \<open>
  What the pool of workers takes for the sleep of the idle function is the \<open>sleep\<close> of this file on
  a thread without an \<open>IOManager\<close>.
\<close>

lemma idle_sleep_is_hooked_sleep:
  assumes "this_iom w = None" and "running_task f (tl_fibers (hw_local w))"
  shows "hook_sleep now 1 w = bind_res (idle_sleep (is_hook_enable w)) (\<lambda>_. Inr (Raw, w))"
  using assms running_task_GetThis [OF assms(2)]
  by (simp add: idle_sleep_def hook_sleep_def sleep_ms_def deref_def)

text \<open>
  A plain \<open>Scheduler\<close> cannot be idle. Its \<open>run\<close> switches the hooks on, so the \<open>sleep(1)\<close> of
  \<open>Scheduler::idle\<close> is the hooked one, which asks for the \<open>IOManager\<close> of the thread and
  dereferences a null pointer, unless the scheduler is stopping already.
\<close>

theorem plain_scheduler_idle_crashes:
  assumes "run_prologue tid s l = Inr (idle_fiber, l1)"
    and "hw_local w = l1\<lparr>tl_fibers := fw\<rparr>" and "running_task idle_fiber fw"
    and "\<forall>q. hw_iom w = Some q \<longrightarrow> m_this q \<noteq> m_this s" and "\<not> base_stopping s"
  shows "is_hook_enable w \<and> scheduler_idle_turn now s w = Inl Null_pointer"
proof -
  have l1: "t_hook_enable l1" "t_scheduler l1 = Some (m_this s)"
    using assms(1) by (auto simp: run_prologue_def Let_def res_simps new_fiber_def)
  then have "this_iom w = None"
    using assms(2,4) by (auto simp: this_iom_def iom_GetThis_def)
  then show ?thesis
    using l1 assms(2,5) running_task_GetThis [OF assms(3)]
    by (simp add: is_hook_enable_def scheduler_idle_turn_def hook_sleep_def sleep_ms_def deref_def)
qed

theorem plain_scheduler_idle_crashes_witness:
  "\<exists>idle_fiber l1 fw. run_prologue 7 (ex_sched []) (ex_locals) = Inr (idle_fiber, l1)
     \<and> scheduler_idle_turn 0 (ex_sched []) (ex_hook\<lparr>hw_local := l1\<lparr>tl_fibers := fw\<rparr>, hw_iom := None\<rparr>)
         = Inl Null_pointer"
proof -
  let ?cb = "Some (Scheduler_idle (m_this (ex_sched [])))"
  obtain p w0 where n: "new_fiber ?cb 0 True ex_world = (p, w0)" by fastforce
  have "GetThis ex_world = Inr (0, ex_world)" by (simp add: GetThis_def ex_fiber_defs)
  then have pro: "run_prologue 7 (ex_sched []) ex_locals =
      Inr (p, ex_locals\<lparr>t_hook_enable := True, t_scheduler := Some (m_this (ex_sched [])), tl_fibers := w0\<rparr>)"
    using n by (simp add: run_prologue_def Let_def ex_locals_def)
  obtain fw where fw: "running_task p fw"
    using new_fiber_runs [OF ex_world_reach _ n] by (auto simp: ex_fiber_defs)
  have "\<not> base_stopping (ex_sched [])" by (simp add: base_stopping_def ex_sched_def)
  with plain_scheduler_idle_crashes [OF pro _ fw, of
      "ex_hook\<lparr>hw_local := ex_locals\<lparr>t_hook_enable := True, t_scheduler := Some (m_this (ex_sched [])),
         tl_fibers := fw\<rparr>, hw_iom := None\<rparr>" 0]
  show ?thesis using pro by auto
qed

text \<open>
  C29: \<open>close\<close> leaves nobody waiting. When \<open>epoll_ctl\<close> succeeds, the waiters of both directions are
  scheduled, reading before writing, each once; the descriptor is out of the interest list, its
  context is empty and the pending count is lower by the number of waiters; and \<open>FdManager\<close>
  has forgotten the descriptor, so that a new one with this number starts afresh.
\<close>

theorem close_wakes_waiters:
  assumes "is_hook_enable w" and "mgr_look fd w = Some q" and "on_iom s w"
    and "iom_inv s" and "find_context fd s = Inr (Some p)" and "waits_here p s"
    and "c = ctxs s ! p"
  shows "\<exists>w1 s1. hook_close setfl 0 fd w = Inr (Raw, w1) \<and> hw_iom w1 = Some s1
    \<and> m_tasks s1 = m_tasks s @ event_tasks (ctx_event c AND READ \<noteq> 0) (ctx_event c AND WRITE \<noteq> 0) c
    \<and> m_pendingEventCnt s1 = m_pendingEventCnt s - reg_count c
    \<and> ctx_event (ctxs s1 ! p) = 0 \<and> io_interest s1 fd = None \<and> mgr_look fd w1 = None"
proof -
  obtain s1 where s1: "cancelAll 0 fd s = Inr (True, s1)"
      "m_tasks s1 = m_tasks s @ event_tasks (ctx_event c AND READ \<noteq> 0) (ctx_event c AND WRITE \<noteq> 0) c"
      "m_pendingEventCnt s1 = m_pendingEventCnt s - reg_count c"
      "ctx_event (ctxs s1 ! p) = 0" "io_interest s1 = (io_interest s)(fd := None)"
    using cancelAll_fires [OF assms(4-6)] unfolding assms(7) [symmetric] by blast
  let ?w = "put_iom s1 (touch_mgr w)"
  have "hook_close setfl 0 fd w = Inr (Raw, ?w\<lparr>hw_fdmgr := map_option (fd_del fd) (hw_fdmgr ?w)\<rparr>)"
    using assms(1,2) s1(1) on_iom_this [OF assms(3)] by (simp add: hook_close_def mgr_get_look)
  moreover have "mgr_look fd (?w\<lparr>hw_fdmgr := map_option (fd_del fd) (hw_fdmgr ?w)\<rparr>) = None"
    by (auto simp: mgr_look_def put_iom_def touch_mgr_def GetInstance_def fd_look_eq fd_del_def slot_def
        past_end_def)
  ultimately show ?thesis
    using s1 by (auto simp: put_iom_def)
qed

theorem close_wakes_waiters_witness:
  "\<exists>w w1 s1. hook_close (\<lambda>old v. v) 0 1 w = Inr (Raw, w1) \<and> hw_iom w1 = Some s1
     \<and> m_tasks s1 = [fiber_task (Some 4) (- 1)] \<and> mgr_look 1 w1 = None"
proof -
  obtain w p where w: "mgr_look 1 w = Some p" "on_iom ex_iom w" "is_hook_enable w"
    by (rule ex_opened [of 1]) simp_all
  have "find_context 1 ex_iom = Inr (Some 1)" by (rule find_context_in) simp_all
  moreover have "waits_here 1 ex_iom"
    by (simp add: waits_here_def register_def setEventContext_def new_fd_context_def)
  ultimately show ?thesis
    using close_wakes_waiters [OF w(3,1,2) ex_iom_inv, where p = 1 and c = "ctxs ex_iom ! 1" and setfl = "\<lambda>old v. v"]
    by (auto simp: event_tasks_def event_task_def register_def setEventContext_def)
qed

text \<open>
  \<open>connect\<close> can report a connection that is not there. When the kernel answers \<open>EINPROGRESS\<close>
  and \<open>addEvent\<close> then fails, because \<open>epoll_ctl\<close> does or because another fiber waits for
  writing already, the call goes on to \<open>getsockopt(SO_ERROR)\<close> without having waited. No
  error is pending on a socket that is still connecting, so it returns 0.
\<close>

theorem connect_reports_false_success:
  assumes "is_hook_enable w" and "mgr_look fd w = Some q" and "m_isSocket (mgr_ctx q w)"
    and "\<not> m_isClosed (mgr_ctx q w)" and "\<not> m_userNonblock (mgr_ctx q w)" and "on_iom s w"
    and "find_context fd s = Inr (Some p)" and "p < length (ctxs s)"
    and "rt \<noteq> 0 \<or> ctx_event (ctxs s ! p) AND WRITE \<noteq> 0"
  shows "\<exists>c w1. hook_connect setfl now rt (- 1) EINPROGRESS fd w = Inr (Retry, Some c, w1)
    \<and> hw_local w1 = hw_local w \<and> hw_iom w1 = Some s \<and> fst (connect_check 0 0 c w1) = 0"
proof -
  have enter: "connect_enter setfl fd w = Inr (Retry, touch_mgr w)"
    using assms(1-5) by (simp add: connect_enter_def mgr_get_look Let_def)
  let ?c = "\<lparr>io_fd = fd, io_event = WRITE, io_timeout = - 1, io_cond = hw_fresh_cond w\<rparr>"
  let ?w = "(touch_mgr w)\<lparr>hw_conds := (hw_conds w)(hw_fresh_cond w \<mapsto> 0),
      hw_fresh_cond := Suc (hw_fresh_cond w)\<rparr>"
  have mine: "this_iom ?w = Some s"
    using assms(6) by (simp add: on_iom_def this_iom_def iom_GetThis_def)
  have "addEvent rt fd WRITE None s (hw_local w) = Inr (- 1, s, hw_local w)"
    using assms(7-9) by (auto simp: addEvent_def addEvent_locked_def ctx_at_def)
  then have "connect_try now rt (- 1) EINPROGRESS fd (- 1) (touch_mgr w) =
      Inr (Retry, ?c, put_iom s (?w\<lparr>hw_local := hw_local w\<rparr>))"
    using mine by (simp add: connect_try_def Let_def call_timer_def deref_def cancel_timer_def)
  then have "hook_connect setfl now rt (- 1) EINPROGRESS fd w =
      Inr (Retry, Some ?c, put_iom s (?w\<lparr>hw_local := hw_local w\<rparr>))"
    using enter by (simp add: hook_connect_def)
  then show ?thesis
    by (auto simp: put_iom_def connect_check_def)
qed

theorem connect_reports_false_success_witness:
  "\<exists>w c w1. hook_connect (\<lambda>old v. v) 0 (- 1) (- 1) EINPROGRESS 1 w = Inr (Retry, Some c, w1)
     \<and> fst (connect_check 0 0 c w1) = 0"
proof -
  let ?k = "ex_kernel\<lparr>k_stat := \<lambda>_. Some True\<rparr>"
  obtain w p where w: "mgr_look 1 w = Some p" "mgr_ctx p w = fst (new_fd_ctx (\<lambda>old v. v) 1 ?k)"
      "on_iom ex_iom w" "is_hook_enable w"
    by (rule ex_opened [of 1]) simp_all
  have "find_context 1 ex_iom = Inr (Some 1)" by (rule find_context_in) simp_all
  then show ?thesis
    using connect_reports_false_success [OF w(4,1) _ _ _ w(3), where p = 1 and rt = "- 1" and setfl = "\<lambda>old v. v" and now = 0]
      new_socket_ctx [of ?k 1 "\<lambda>old v. v"] w(2) ex_hook_facts(1) by auto
qed

text \<open>
  The timeout of \<open>setsockopt\<close> is the one a later call waits with. For a descriptor that
  \<open>do_io\<close> does not forward, the milliseconds of the \<open>timeval\<close> given for one direction are those
  with which the calls of this direction start, and the other direction keeps its own. A zero
  \<open>timeval\<close>, which asks the kernel to wait without limit, gives a timeout of 0 ms.
\<close>

theorem timeout_option_is_used:
  assumes "is_hook_enable w" and "mgr_look fd w = Some q"
    and "q < length (fdc_objs (fst (GetInstance (hw_fdmgr w))))" and "\<not> m_isClosed (mgr_ctx q w)"
    and "\<not> m_isSocket (mgr_ctx q w)" and "\<not> m_userNonblock (mgr_ctx q w)"
    and "0 \<le> sec" and "0 \<le> usec" and "usec < 10 ^ 6" and "sec < 2 ^ 50"
    and "so = SO_RCVTIMEO \<or> so = SO_SNDTIMEO" and "io_fun_args f = (event, so')"
  shows "\<exists>w1 c w2. hook_setsockopt setfl fd SOL_SOCKET so sec usec w = Inr (Raw, w1)
    \<and> io_enter setfl f fd w1 = Inr (Retry, c, w2) \<and> io_fd c = fd \<and> io_event c = event
    \<and> uint (io_timeout c) =
        (if so = so' then sec * 1000 + usec div 1000 else uint (getTimeout so' (mgr_ctx q w)))
    \<and> hw_conds w2 (io_cond c) = Some 0"
proof -
  let ?ms = "sec * 1000 + usec div 1000"
  define v :: u64 where "v = word_of_int (s64 (sec * 1000 + cdiv usec 1000))"
  define w1 where "w1 = mgr_upd q (setTimeout so v) (touch_mgr w)"
  have so': "so' = SO_RCVTIMEO \<or> so' = SO_SNDTIMEO"
    using assms(12) by (cases f) (auto simp: io_fun_args_def)
  have "0 \<le> usec div 1000" "usec div 1000 < 1000" using assms(8,9) by simp_all
  then have m: "0 \<le> ?ms" "?ms < 2 ^ 63" using assms(7,10) by simp_all
  then have "uint v = ?ms mod 2 ^ 64"
    using assms(8) by (simp only: v_def uint_word_of_int cdiv_def) (simp add: s64_id)
  then have v: "uint v = ?ms" using m by simp
  have set: "hook_setsockopt setfl fd SOL_SOCKET so sec usec w = Inr (Raw, w1)"
    using assms(1,2,11) by (auto simp: hook_setsockopt_def mgr_get_look w1_def v_def)
  have ctx: "mgr_ctx q w1 = setTimeout so v (mgr_ctx q w)"
    using assms(3) by (simp add: w1_def mgr_ctx_def mgr_upd_def touch_mgr_def GetInstance_def upd_fdc_def
        fdc_at_def)
  have look: "mgr_look fd w1 = Some q" "is_hook_enable w1"
    using assms(1,2) by (simp_all add: w1_def mgr_look_def mgr_upd_def touch_mgr_def GetInstance_def
        upd_fdc_def fd_look_eq is_hook_enable_def)
  have to: "getTimeout so' (mgr_ctx q w1) = (if so = so' then v else getTimeout so' (mgr_ctx q w))"
    using assms(11) so' by (auto simp: ctx getTimeout_def setTimeout_def SO_RCVTIMEO_def SO_SNDTIMEO_def)
  have keep: "\<not> m_isClosed (mgr_ctx q w1)" "\<not> m_isSocket (mgr_ctx q w1)" "\<not> m_userNonblock (mgr_ctx q w1)"
    using assms(4-6) by (simp_all add: ctx setTimeout_def)
  show ?thesis
    using set look keep to v assms(12)
    by (auto simp: io_enter_def do_io_enter_def mgr_get_look Let_def)
qed

theorem timeout_option_is_used_witness:
  "\<exists>w w1 c w2. hook_setsockopt (\<lambda>old v. v) 1 SOL_SOCKET SO_RCVTIMEO 2 500000 w = Inr (Raw, w1)
     \<and> io_enter (\<lambda>old v. v) F_read 1 w1 = Inr (Retry, c, w2) \<and> uint (io_timeout c) = 2500"
proof -
  obtain w p where w: "mgr_look 1 w = Some p" "mgr_ctx p w = fst (new_fd_ctx (\<lambda>old v. v) 1 ex_kernel)"
      "p < length (fdc_objs (fst (GetInstance (hw_fdmgr w))))" "is_hook_enable w"
    by (rule ex_opened [of 1]) simp_all
  have "\<not> m_isClosed (mgr_ctx p w)" "\<not> m_isSocket (mgr_ctx p w)" "\<not> m_userNonblock (mgr_ctx p w)"
    by (simp_all add: w(2) new_fd_ctx_def fd_init_def fresh_fd_ctx_def ex_kernel_def)
  from timeout_option_is_used [OF w(4,1,3) this, where sec = 2 and usec = 500000 and so = SO_RCVTIMEO
      and f = F_read and setfl = "\<lambda>old v. v"]
  show ?thesis by (auto simp: io_fun_args_def)
qed

text \<open>
  The loop over \<open>EINTR\<close> returns the first answer of the original function that is not an
  interruption, having asked once for each answer up to it; it does not return at all exactly when
  every answer is one.
\<close>

theorem eintr_loop_returns_first_answer:
  "(case skip_eintr ans i of
      None \<Rightarrow> \<forall>j\<ge>i. ans j = (- 1, EINTR)
    | Some (j, r) \<Rightarrow> \<exists>k\<ge>i. j = Suc k \<and> r = ans k \<and> ans k \<noteq> (- 1, EINTR)
        \<and> (\<forall>l. i \<le> l \<longrightarrow> l < k \<longrightarrow> ans l = (- 1, EINTR)))"
proof (cases "\<exists>j\<ge>i. ans j \<noteq> (- 1, EINTR)")
  case True
  then obtain k where "i \<le> k" "ans k \<noteq> (- 1, EINTR)" "\<forall>l. i \<le> l \<longrightarrow> l < k \<longrightarrow> ans l = (- 1, EINTR)"
    using exists_least_iff [of "\<lambda>j. i \<le> j \<and> ans j \<noteq> (- 1, EINTR)"] by blast
  then show ?thesis using skip_eintr_stops [of ans k i] by (auto split: prod.splits)
next
  case False
  then have "skip_eintr ans i = None"
    using skip_eintr_Some [of ans i] by (cases "skip_eintr ans i") auto
  with False show ?thesis by auto
qed

theorem eintr_loop_returns_first_answer_witness:
  "skip_eintr (\<lambda>i. if i < 2 then (- 1, EINTR) else (5, 0)) 0 = Some (3, 5, 0)"
proof -
  let ?ans = "\<lambda>i :: nat. if i < 2 then (- 1, EINTR) else (5 :: int, 0 :: int)"
  obtain j r where s: "skip_eintr ?ans 0 = Some (j, r)"
    using eintr_loop_returns_first_answer [where ans = ?ans and i = 0] by (cases "skip_eintr ?ans 0") (auto dest: spec [of _ 2])
  then obtain k where k: "j = Suc k" "r = ?ans k" "?ans k \<noteq> (- 1, EINTR)" "\<forall>l<k. ?ans l = (- 1, EINTR)"
    using eintr_loop_returns_first_answer [where ans = ?ans and i = 0] by auto
  then have "k = 2"
    by (metis (mono_tags, lifting) linorder_neqE_nat less_irrefl one_neq_neg_one prod.inject
        numeral_neq_neg_one)
  with s k show ?thesis by simp
qed

end
