(* ===== verification/Runtime.thy ===== *)
theory Runtime
  imports Hook
begin

text \<open>
  The parts at work together: how the closures of the library run, the turns of a worker whose
  scheduler is an \<open>IOManager\<close>, and what the blocking calls of \<open>Hook\<close> promise to the fiber that
  makes them, through the timers, the descriptors, the queue and the switches of fibers.
\<close>

section \<open>Running closures\<close>

text \<open>
  The body of a closure. The functions of the application, and the loops of the scheduler, which
  are never tasks, are the argument \<open>other\<close>; \<open>rt\<close> is what \<open>epoll_ctl\<close> answers in \<open>cancelEvent\<close>.
\<close>

function (sequential) run_closure ::
  "(closure \<Rightarrow> hook_world \<Rightarrow> hook_world res) \<Rightarrow> int \<Rightarrow> closure \<Rightarrow> hook_world \<Rightarrow> hook_world res"
where
  "run_closure other rt (OnTimer_cb weak_cond cb) w =
     (case OnTimer (\<lambda>p. hw_conds w p \<noteq> None) weak_cond cb of
        None \<Rightarrow> Inr w
      | Some None \<Rightarrow> Inl Bad_function_call
      | Some (Some c) \<Rightarrow> run_closure other rt c w)"
| "run_closure other rt (Schedule_fiber_cb iom fiber) w =
     bind_res (deref (hw_iom w)) (\<lambda>s.
     bind_res (schedule_on (Some iom) (fiber_task (Some fiber) (- 1)) s) (\<lambda>s1.
     Inr (put_iom s1 w)))"
| "run_closure other rt (Io_timeout_cb iom winfo fd event) w = run_io_timeout rt winfo fd event w"
| "run_closure other rt c w = other c w"
  by pat_completeness auto
termination
  by (relation "measure (\<lambda>(_, _, c, _). size c)") (auto simp: OnTimer_def split: if_splits)

section \<open>Turns of a worker\<close>

text \<open>One turn of \<open>Scheduler::run\<close> up to the switch to the fiber of the task it finds, if any.\<close>

definition worker_take :: "int \<Rightarrow> hook_world \<Rightarrow> (schedule_task option \<times> hook_world) res" where
  "worker_take tid w =
     bind_res (deref (hw_iom w)) (\<lambda>s.
     bind_res (run_fetch tid s) (\<lambda>(r, s1, tickle_me).
     bind_res (if tickle_me then iom_tickle s1 else Inr s1) (\<lambda>s2.
     case r of
       None \<Rightarrow> Inr (None, put_iom s2 w)
     | Some t \<Rightarrow>
         bind_res (run_dispatch t (tl_fibers (hw_local w))) (\<lambda>fw.
         Inr (Some t, put_fibers fw (put_iom s2 w))))))"

text \<open>The rest of the turn, once the fiber has given control back.\<close>

definition worker_done :: "hook_world \<Rightarrow> hook_world res" where
  "worker_done w = bind_res (deref (hw_iom w)) (\<lambda>s. Inr (put_iom (run_task_done s) w))"

text \<open>\<open>Fiber::MainFunc\<close> on a fiber whose closure runs to its end without giving up the thread.\<close>

definition run_fiber :: "(closure \<Rightarrow> hook_world \<Rightarrow> hook_world res) \<Rightarrow> int \<Rightarrow> hook_world \<Rightarrow> hook_world res" where
  "run_fiber other rt w =
     bind_res (MainFunc_enter (tl_fibers (hw_local w))) (\<lambda>(p, cb, fw).
     bind_res (run_closure other rt cb (put_fibers fw w)) (\<lambda>w1.
     bind_res (MainFunc_leave p (tl_fibers (hw_local w1))) (\<lambda>fw1.
     Inr (put_fibers fw1 w1))))"

text \<open>A whole turn with a callback of this kind.\<close>

definition run_callback ::
  "(closure \<Rightarrow> hook_world \<Rightarrow> hook_world res) \<Rightarrow> int \<Rightarrow> int \<Rightarrow> hook_world \<Rightarrow> hook_world res"
where
  "run_callback other rt tid w =
     bind_res (worker_take tid w) (\<lambda>(_, w1). bind_res (run_fiber other rt w1) worker_done)"

section \<open>Facts\<close>

lemma put_sel [simp]:
  "hw_iom (put_iom s w) = Some s" "hw_local (put_iom s w) = hw_local w" "hw_conds (put_iom s w) = hw_conds w"
  "hw_iom (put_fibers fw w) = hw_iom w" "tl_fibers (hw_local (put_fibers fw w)) = fw"
  "t_scheduler (hw_local (put_fibers fw w)) = t_scheduler (hw_local w)"
  "hw_conds (put_fibers fw w) = hw_conds w" "hw_errno (put_fibers fw w) = hw_errno w"
  "hw_errno (put_iom s w) = hw_errno w"
  by (simp_all add: put_iom_def put_fibers_def)

text \<open>A worker that finds one task, for any thread.\<close>

lemma worker_take_single:
  assumes "hw_iom w = Some s" and "m_tasks s = [t]" and "valid_task t" and "task_thread t = - 1"
    and "run_dispatch t (tl_fibers (hw_local w)) = Inr fw"
  shows "worker_take tid w = Inr (Some t, put_fibers fw (put_iom
    (s\<lparr>m_tasks := [], m_activeThreadCnt := m_activeThreadCnt s + 1\<rparr>) w))"
  using assms run_fetch_head [of s t "[]" tid] by (simp add: worker_take_def deref_def eligible_def)

text \<open>It resumes a parked fiber, or runs a callback while the fiber stays parked.\<close>

lemma worker_resumes:
  assumes "hw_iom w = Some s" and "m_tasks s = [fiber_task (Some f) (- 1)]"
    and "parked f (tl_fibers (hw_local w))"
  shows "\<exists>w1 s1. worker_take tid w = Inr (Some (fiber_task (Some f) (- 1)), w1)
    \<and> running_task f (tl_fibers (hw_local w1)) \<and> cur (tl_fibers (hw_local w1)) = On_stack f
    \<and> hw_iom w1 = Some s1 \<and> m_tasks s1 = [] \<and> io_timers s1 = io_timers s \<and> ctxs s1 = ctxs s
    \<and> hw_conds w1 = hw_conds w"
proof -
  obtain fw where fw: "run_dispatch (fiber_task (Some f) (- 1)) (tl_fibers (hw_local w)) = Inr fw"
      "running_task f fw" "cur fw = On_stack f"
    using parked_resumes [OF assms(3)] by blast
  have "valid_task (fiber_task (Some f) (- 1))" "task_thread (fiber_task (Some f) (- 1)) = - 1"
    by (simp_all add: valid_task_def fiber_task_def)
  with worker_take_single [OF assms(1,2) this fw(1)] fw(2,3) show ?thesis by simp
qed

lemma run_callback_single:
  assumes "hw_iom w = Some s" and "m_tasks s = [cb_task (Some cb) (- 1)]"
    and "parked f (tl_fibers (hw_local w))"
    and run: "\<And>p fw. running_task p fw \<Longrightarrow> \<exists>w1 s1. run_closure other rt cb (put_fibers fw (put_iom
        (s\<lparr>m_tasks := [], m_activeThreadCnt := m_activeThreadCnt s + 1\<rparr>) w)) = Inr w1
      \<and> tl_fibers (hw_local w1) = fw \<and> hw_iom w1 = Some s1 \<and> P w1 s1"
  shows "\<exists>w1 s1 fw. run_callback other rt tid w = Inr (put_fibers fw (put_iom (run_task_done s1) w1))
    \<and> P w1 s1 \<and> parked f fw"
proof -
  let ?t = "cb_task (Some cb) (- 1)"
  obtain p fw1 fw2 where d: "run_dispatch ?t (tl_fibers (hw_local w)) = Inr fw1" "running_task p fw1"
      "MainFunc_enter fw1 = Inr (p, cb, fw1)" "MainFunc_leave p fw1 = Inr fw2" "parked f fw2"
    using parked_callback [OF assms(3)] by blast
  let ?w = "put_fibers fw1 (put_iom (s\<lparr>m_tasks := [], m_activeThreadCnt := m_activeThreadCnt s + 1\<rparr>) w)"
  obtain w1 s1 where r: "run_closure other rt cb ?w = Inr w1" "tl_fibers (hw_local w1) = fw1"
      "hw_iom w1 = Some s1" "P w1 s1"
    using run [OF d(2)] by blast
  have same: "put_fibers fw1 ?w = ?w" by (simp add: put_fibers_def)
  have "worker_take tid w = Inr (Some ?t, ?w)"
    by (rule worker_take_single [OF assms(1,2) _ _ d(1)]) (simp_all add: valid_task_def cb_task_def)
  then have "run_callback other rt tid w = worker_done (put_fibers fw2 w1)"
    using d(3,4) r(1,2) same by (simp add: run_callback_def run_fiber_def)
  also have "\<dots> = Inr (put_fibers fw2 (put_iom (run_task_done s1) w1))"
    using r(3) by (simp add: worker_done_def deref_def put_fibers_def put_iom_def)
  finally show ?thesis using r(4) d(5) by blast
qed

text \<open>A callback that schedules the parked fiber, and the turn after it.\<close>

lemma callback_wakes:
  assumes "hw_iom w = Some s" and "m_tasks s = [cb_task (Some cb) (- 1)]"
    and "parked f (tl_fibers (hw_local w))"
    and "\<And>fw. \<exists>w1 s1. run_closure other rt cb (put_fibers fw (put_iom
        (s\<lparr>m_tasks := [], m_activeThreadCnt := m_activeThreadCnt s + 1\<rparr>) w)) = Inr w1
      \<and> tl_fibers (hw_local w1) = fw \<and> hw_iom w1 = Some s1
      \<and> m_tasks s1 = [fiber_task (Some f) (- 1)] \<and> P (hw_conds w1) (ctxs s1) (io_timers s1)"
  shows "\<exists>w2 w3 s3. run_callback other rt tid w = Inr w2
    \<and> worker_take tid' w2 = Inr (Some (fiber_task (Some f) (- 1)), w3)
    \<and> running_task f (tl_fibers (hw_local w3)) \<and> cur (tl_fibers (hw_local w3)) = On_stack f
    \<and> hw_iom w3 = Some s3 \<and> m_tasks s3 = [] \<and> P (hw_conds w3) (ctxs s3) (io_timers s3)"
proof -
  obtain w2 s2 fw2 where w2: "run_callback other rt tid w = Inr (put_fibers fw2 (put_iom (run_task_done s2) w2))"
      "m_tasks s2 = [fiber_task (Some f) (- 1)]" "P (hw_conds w2) (ctxs s2) (io_timers s2)" "parked f fw2"
    using run_callback_single [OF assms(1-3), of other rt "\<lambda>w1 s1. m_tasks s1 = [fiber_task (Some f) (- 1)]
        \<and> P (hw_conds w1) (ctxs s1) (io_timers s1)" tid] assms(4) by blast
  let ?w2 = "put_fibers fw2 (put_iom (run_task_done s2) w2)"
  have d: "m_tasks (run_task_done s2) = m_tasks s2" "io_timers (run_task_done s2) = io_timers s2"
      "ctxs (run_task_done s2) = ctxs s2"
    by (simp_all add: run_task_done_def)
  then obtain w3 s3 where "worker_take tid' ?w2 = Inr (Some (fiber_task (Some f) (- 1)), w3)"
      "running_task f (tl_fibers (hw_local w3))" "cur (tl_fibers (hw_local w3)) = On_stack f"
      "hw_iom w3 = Some s3" "m_tasks s3 = []" "P (hw_conds w3) (ctxs s3) (io_timers s3)"
    using worker_resumes [of ?w2 "run_task_done s2" f tid'] w2(2-4) by auto
  then show ?thesis using w2(1) by blast
qed

section \<open>Timers that expire\<close>

lemma schedule_cbs_sched_all:
  "schedule_cbs cbs s = iom_sink.sched_all (map (\<lambda>cb. cb_task cb (- 1)) cbs) s"
  by (induction cbs arbitrary: s) (auto intro: bind_res_cong)

lemma schedule_cbs_ok: "io_pipe_open s \<Longrightarrow> \<exists>s'. schedule_cbs cbs s = Inr s'"
proof (induction cbs arbitrary: s)
  case (Cons cb cbs)
  obtain s1 where s1: "scheduleLock iom_tickle (cb_task cb (- 1)) s = Inr s1"
    using scheduleLock_ok [OF Cons.prems] by blast
  then have "io_pipe_open s1" using scheduleLock_same_io [OF s1] Cons.prems by (simp add: same_io_def)
  then show ?case using Cons.IH s1 by simp
qed simp

text \<open>
  The idle fiber's look at the timers: the closures of those that are due become tasks, earliest
  first, behind the tasks that are there.
\<close>

definition due_tasks :: "time_point \<Rightarrow> timer_manager \<Rightarrow> schedule_task list" where
  "due_tasks now M = filter valid_task (map (\<lambda>i. cb_task (timer_cb (objs M ! i)) (- 1)) (due now M))"

lemma idle_expire_due:
  assumes "tm_wf (io_timers s)" and "io_pipe_open s" and "tp_sub (m_preTime (io_timers s)) (60 * 60 * 1000) \<le> now2"
    and "\<forall>i\<in>set (due now1 (io_timers s)). m_recurring (objs (io_timers s) ! i) \<longrightarrow>
           now1 < tp_add now1 (m_ms (objs (io_timers s) ! i))"
  shows "\<exists>s2. idle_expire now1 now2 s = Some (Inr s2) \<and> m_tasks s2 = m_tasks s @ due_tasks now1 (io_timers s)
    \<and> same_io (s\<lparr>io_timers := io_timers s2\<rparr>) s2
    \<and> set (m_timers (io_timers s2)) \<subseteq>
        set (pending now1 (io_timers s)) \<union> recurring_in (io_timers s) (due now1 (io_timers s))"
proof -
  let ?M = "io_timers s"
  obtain M' where M': "listExpireCb now1 now2 ?M [] = Some (M', map (\<lambda>i. timer_cb (objs ?M ! i)) (due now1 ?M))"
      "expire_post now1 (?M\<lparr>m_preTime := now2\<rparr>) (due now1 ?M) (pending now1 ?M) M'"
    using listExpireCb_due [OF assms(1,3,4), of "[]"] by auto
  obtain s2 where s2: "schedule_cbs (map (\<lambda>i. timer_cb (objs ?M ! i)) (due now1 ?M)) (s\<lparr>io_timers := M'\<rparr>) = Inr s2"
    using schedule_cbs_ok [of "s\<lparr>io_timers := M'\<rparr>"] assms(2) by auto
  have "same_io (s\<lparr>io_timers := M'\<rparr>) s2" by (rule schedule_cbs_same_io [OF s2])
  moreover have "m_tasks s2 = m_tasks s @ due_tasks now1 ?M"
    using iom_sink.sched_all_queue [OF s2 [unfolded schedule_cbs_sched_all]]
    by (simp add: due_tasks_def comp_def)
  moreover have "set (m_timers M') \<subseteq> set (pending now1 ?M) \<union> recurring_in ?M (due now1 ?M)"
    using M'(2) by (auto simp: expire_post_def recurring_in_def)
  ultimately show ?thesis
    using M'(1) s2 by (auto simp: idle_expire_def same_io_def)
qed

lemma armed_timers:
  fixes s s1 :: iomanager
  assumes "tm_wf (io_timers s)" and "armed (new_timer now ms cb False) s s1"
  defines "M \<equiv> io_timers s" and "M1 \<equiv> io_timers s1" and "n \<equiv> length (objs (io_timers s))"
  shows "tm_wf M1" and "m_preTime M1 = m_preTime M"
    and "set (m_timers M1) = (if \<exists>j\<in>set (m_timers M). next_of M j = tp_add now ms
           then set (m_timers M) else insert n (set (m_timers M)))"
    and "objs M1 ! n = new_timer now ms cb False" and "j < n \<Longrightarrow> objs M1 ! j = objs M ! j"
proof -
  have a: "addTimer now ms cb False M = (n, M1, snd (addTimer_ptr n
      (M\<lparr>objs := objs M @ [new_timer now ms cb False]\<rparr>)))"
    using assms(2) by (simp add: addTimer_def Let_def armed_def M_def M1_def n_def)
  show "tm_wf M1"
    using tm_wf_addTimer [of M now ms cb False] assms(1) a by (simp add: M_def)
  show "m_preTime M1 = m_preTime M"
    using assms(2) by (simp add: armed_def addTimer_ptr_def Let_def M_def M1_def)
  have o: "objs M1 = objs M @ [new_timer now ms cb False]"
    using assms(2) by (simp add: armed_def M_def M1_def)
  then show "objs M1 ! n = new_timer now ms cb False" and "j < n \<Longrightarrow> objs M1 ! j = objs M ! j"
    by (simp_all add: n_def M_def nth_append)
  show "set (m_timers M1) = (if \<exists>j\<in>set (m_timers M). next_of M j = tp_add now ms
      then set (m_timers M) else insert n (set (m_timers M)))"
    using addTimer_arms_unless_same_time [OF _ a] assms(1) by (simp add: M_def)
qed

text \<open>The place in the set is taken: the timers are what they were.\<close>

lemma armed_time_taken:
  assumes "tm_wf (io_timers s)" and "armed (new_timer now ms cb False) s s1"
    and "\<exists>j\<in>set (m_timers (io_timers s)). next_of (io_timers s) j = tp_add now ms"
  shows "m_timers (io_timers s1) = m_timers (io_timers s)"
    and "due_tasks t (io_timers s1) = due_tasks t (io_timers s)"
proof -
  let ?M = "io_timers s" and ?M1 = "io_timers s1" and ?n = "length (objs (io_timers s))"
  let ?M' = "?M\<lparr>objs := objs ?M @ [new_timer now ms cb False]\<rparr>"
  have small: "j < ?n" if "j \<in> set (m_timers ?M)" for j using assms(1) that by (simp add: tm_wf_def)
  then have old: "next_of ?M' j = next_of ?M j" if "j \<in> set (m_timers ?M)" for j
    using that by (simp add: next_of_def nth_append)
  have "ordered (next_of ?M') (m_timers ?M)"
    using tm_wf_alloc [OF assms(1)] by (simp add: tm_wf_def)
  moreover obtain j where "j \<in> set (m_timers ?M)" "next_of ?M' j = next_of ?M' ?n"
    using assms(3) old by (auto simp: next_of_def new_timer_def)
  ultimately show m: "m_timers ?M1 = m_timers ?M"
    using set_insert_equiv [of "next_of ?M'" "m_timers ?M" j ?n] assms(2)
    by (simp add: armed_def addTimer_ptr_fst)
  have "objs ?M1 ! j = objs ?M ! j" if "j \<in> set (m_timers ?M)" for j
    using armed_timers(5) [OF assms(1,2)] small [OF that] by simp
  then show "due_tasks t ?M1 = due_tasks t ?M"
    unfolding due_tasks_def due_def m next_of_def
    by (intro arg_cong [where f = "filter valid_task"] map_cong filter_cong) auto
qed

text \<open>A fiber that is scheduled by a closure of a timer.\<close>

lemma run_Schedule_fiber:
  assumes "hw_iom w = Some s" and "m_tasks s = []" and "io_pipe_open s"
  shows "\<exists>w1 s1. run_closure other rt (Schedule_fiber_cb (m_this s) f) w = Inr w1
    \<and> hw_local w1 = hw_local w \<and> hw_iom w1 = Some s1 \<and> m_tasks s1 = [fiber_task (Some f) (- 1)] \<and> same_io s s1"
proof -
  obtain s1 where "schedule_on (Some (m_this s)) (fiber_task (Some f) (- 1)) s = Inr s1" "same_io s s1"
      "m_tasks s1 = [fiber_task (Some f) (- 1)]"
    using schedule_on_this [of "Some (m_this s)" s "fiber_task (Some f) (- 1)"] assms(2,3)
    by (auto simp: valid_task_def fiber_task_def)
  then show ?thesis using assms(1) by (auto simp: deref_def)
qed

text \<open>The only timer of the manager, when it is due: its closure is the only new task.\<close>

lemma only_timer_fires:
  assumes "tm_wf (io_timers s)" and "m_timers (io_timers s) = []" and "io_pipe_open s"
    and "armed (new_timer now ms (Some cb) False) s s1"
    and "tp_sub (m_preTime (io_timers s)) (60 * 60 * 1000) \<le> now2" and "tp_add now ms \<le> now1"
    and "s1' = s1 \<or> io_timers s1' = io_timers s1 \<and> io_pipe_open s1'"
  shows "\<exists>s2. idle_expire now1 now2 s1' = Some (Inr s2) \<and> m_tasks s2 = m_tasks s1' @ [cb_task (Some cb) (- 1)]
    \<and> same_io (s1'\<lparr>io_timers := io_timers s2\<rparr>) s2 \<and> m_timers (io_timers s2) = []"
proof -
  let ?n = "length (objs (io_timers s))"
  note t = armed_timers [OF assms(1,4)]
  have M: "io_timers s1' = io_timers s1" and o: "io_pipe_open s1'"
    using assms(3,4,7) by (auto simp: armed_def)
  have one: "m_timers (io_timers s1) = [?n]"
    using assms(2,4) by (simp add: armed_def addTimer_ptr_fst)
  then have d: "due now1 (io_timers s1) = [?n]" "pending now1 (io_timers s1) = []"
    using t(4) assms(6) by (simp_all add: due_def pending_def next_of_def new_timer_def)
  have nr: "\<not> m_recurring (objs (io_timers s1) ! ?n)" using t(4) by (simp add: new_timer_def)
  have "due_tasks now1 (io_timers s1) = [cb_task (Some cb) (- 1)]"
    using d t(4) by (simp add: due_tasks_def new_timer_def valid_task_def cb_task_def)
  moreover have "recurring_in (io_timers s1) [?n] = {}" using nr by (simp add: recurring_in_def)
  ultimately show ?thesis
    using idle_expire_due [of s1' now2 now1] t(1,2) d nr assms(5) M o by simp
qed

section \<open>Waiting for a descriptor\<close>

lemma find_context_ptr:
  "iom_inv s \<Longrightarrow> find_context fd s = Inr (Some p) \<Longrightarrow> p < length (ctxs s)"
  by (auto simp: find_context_def res_simps at_res_def deref_def iom_inv_ptr split: if_splits option.splits)

lemma find_context_frame: "m_fdContexts s' = m_fdContexts s \<Longrightarrow> find_context fd s' = find_context fd s"
  by (simp add: find_context_def)

lemma iom_inv_frame:
  "iom_inv s \<Longrightarrow> ctxs s' = ctxs s \<Longrightarrow> m_pendingEventCnt s' = m_pendingEventCnt s \<Longrightarrow>
   m_fdContexts s' = m_fdContexts s \<Longrightarrow> iom_inv s'"
  by (simp add: iom_inv_def)

text \<open>The closure that a call with a timeout hands to its timer.\<close>

definition timeout_closure :: "io_call \<Rightarrow> sched_ptr \<Rightarrow> closure" where
  "timeout_closure c q = OnTimer_cb (io_cond c) (Some (Io_timeout_cb q (io_cond c) (io_fd c) (io_event c)))"

lemma call_timer_ok:
  assumes "io_pipe_open s"
  obtains timer sa where "call_timer now c s = Inr (timer, sa)"
    "if io_timeout c = - 1 then timer = None \<and> sa = s
     else timer = Some (length (objs (io_timers s)))
       \<and> armed (new_timer now (io_timeout c) (Some (timeout_closure c (m_this s))) False) s sa"
    "m_pendingEventCnt sa = m_pendingEventCnt s"
proof (cases "io_timeout c = - 1")
  case True
  then show ?thesis using that by (simp add: call_timer_def)
next
  case False
  let ?cb = "Some (timeout_closure c (m_this s))"
  obtain q sa where q: "iom_addTimer now (io_timeout c) ?cb False s = Inr (q, sa)"
    using iom_addTimer_ok [OF assms] by blast
  have "call_timer now c s = Inr (Some q, sa)"
    using False q by (simp add: call_timer_def iom_addConditionTimer_def addConditionTimer_def iom_addTimer_def
        timeout_closure_def)
  then show ?thesis
    using that False iom_addTimer_armed [OF q] iom_addTimer_frame [OF q] by auto
qed

text \<open>
  A call that finds nothing to read or write registers its fiber for the event, arms the timer of
  its timeout, if it has one, and parks.
\<close>

definition fiber_waits :: "fiber_ptr \<Rightarrow> sched_ptr \<Rightarrow> event_context" where
  "fiber_waits f q = \<lparr>ev_scheduler = Some q, ev_fiber = Some f, ev_cb = None\<rparr>"

lemma do_io_parks:
  assumes "on_iom s w" and "running_task f (tl_fibers (hw_local w))" and "iom_inv s" and "io_pipe_open s"
    and "find_context (io_fd c) s = Inr (Some p)" and "ctx_event (ctxs s ! p) = 0"
    and "io_event c = READ \<or> io_event c = WRITE"
  obtains timer s1 fw where "do_io_try now 0 (- 1) EAGAIN c w = Inr (Park timer, put_fibers fw (put_iom s1 w))"
    "parked f fw" "iom_inv s1" "m_tasks s1 = m_tasks s" "m_this s1 = m_this s" "io_pipe_open s1"
    "find_context (io_fd c) s1 = Inr (Some p)" "p < length (ctxs s1)"
    "ctx_event (ctxs s1 ! p) = io_event c" "ev_of (io_event c) (ctxs s1 ! p) = fiber_waits f (m_this s)"
    "io_interest s1 (io_fd c) = Some (EPOLLET OR io_event c, Data_ptr p)"
    "if io_timeout c = - 1 then timer = None
     else timer = Some (length (objs (io_timers s))) \<and> (\<exists>sa. io_timers s1 = io_timers sa
       \<and> armed (new_timer now (io_timeout c) (Some (timeout_closure c (m_this s))) False) s sa)"
proof -
  obtain timer sa where t: "call_timer now c s = Inr (timer, sa)"
    "if io_timeout c = - 1 then timer = None \<and> sa = s
     else timer = Some (length (objs (io_timers s)))
       \<and> armed (new_timer now (io_timeout c) (Some (timeout_closure c (m_this s))) False) s sa"
    "m_pendingEventCnt sa = m_pendingEventCnt s"
    by (rule call_timer_ok [OF assms(4)])
  then have fr: "ctxs sa = ctxs s" "m_tasks sa = m_tasks s" "m_this sa = m_this s" "io_pipe_open sa"
      "m_fdContexts sa = m_fdContexts s"
    using assms(4) by (auto simp: armed_def split: if_splits)
  then have inv: "iom_inv sa" and fc: "find_context (io_fd c) sa = Inr (Some p)"
    using iom_inv_frame [OF assms(3)] t(3) assms(5) find_context_frame by metis+
  let ?l = "hw_local w" and ?ec = "fiber_waits f (m_this s)"
  define s1 where "s1 = registered p (io_fd c) (io_event c) ?ec sa"
  have p: "p < length (ctxs sa)" by (rule find_context_ptr [OF inv fc])
  have ok: "ctx_ok (ctxs sa ! p)" by (rule iom_inv_ctx_ok [OF inv p])
  have g: "GetThis (tl_fibers ?l) = Inr (f, tl_fibers ?l)" by (rule running_task_GetThis [OF assms(2)])
  obtain fb where "fibers (tl_fibers ?l) f = Some fb" "fiber_st fb = RUNNING"
    using assms(2) by (rule running_taskE)
  moreover have "t_scheduler ?l = Some (m_this s)" using assms(1) by (simp add: on_iom_def)
  ultimately have "addEvent 0 (io_fd c) (io_event c) None sa ?l = Inr (0, s1, ?l)"
    using addEvent_locked_registers [OF inv p assms(7), of None ?l f "tl_fibers ?l" "io_fd c"] g assms(6) fr(1) fc
    by (simp add: addEvent_def fiber_waits_def s1_def)
  moreover obtain fw where fw: "fiber_yield f (tl_fibers ?l) = Inr fw" "parked f fw"
    using running_task_yields [OF assms(2)] by blast
  ultimately have "do_io_try now 0 (- 1) EAGAIN c w = Inr (Park timer, put_fibers fw (put_iom s1 w))"
    using t(1) g on_iom_this [OF assms(1)] by (simp add: do_io_try_def deref_def)
  moreover have "iom_inv s1"
    using iom_inv_registered [OF inv p assms(7), of ?ec "io_fd c"] fr(1) assms(6)
    by (simp add: s1_def fiber_waits_def)
  moreover have "ctx_event (ctxs s1 ! p) = io_event c" "ev_of (io_event c) (ctxs s1 ! p) = ?ec"
    using register_ok(4) [OF ok assms(7), of ?ec] unregister_register(2) [OF ok assms(7), of ?ec] p fr(1) assms(6)
    by (simp_all add: s1_def fiber_waits_def)
  ultimately show ?thesis
    using t(2) fr fw(2) p fc assms(6) find_context_frame [of s1 sa]
    by (intro that [of timer fw s1]) (auto simp: s1_def split: if_splits)
qed

text \<open>A delivered event, when it is all the descriptor is registered for.\<close>

lemma idle_event_fires_single:
  assumes "iom_inv s" and "p < length (ctxs s)" and "ctx_event (ctxs s ! p) = event"
    and "event = READ \<or> event = WRITE" and "io_pipe_open s"
    and "ev_scheduler (ev_of event (ctxs s ! p)) = Some (m_this s)"
    and "ep_data e = Data_ptr p" and "real_events (ep_events e) event = event"
  shows "\<exists>s'. idle_event 0 e s = Inr s' \<and> ctxs s' = (ctxs s)[p := unregister event (ctxs s ! p)]
    \<and> m_tasks s' = m_tasks s @ [event_task (ev_of event (ctxs s ! p))] \<and> io_timers s' = io_timers s"
proof -
  let ?s = "ctl CTL_DEL (ctx_fd (ctxs s ! p)) EPOLLET (Data_ptr p) s"
  have b: "event AND event \<noteq> 0" "event AND NOT event = 0" using assms(4) by auto
  obtain s' where t: "trigger_if True event p ?s = Inr s'" "fired event p ?s s'"
    using trigger_if_fires [of ?s p event] iom_inv_ctx_ok [OF assms(1,2)] assms(2-6) b by auto
  have "trigger_if False ev p s' = Inr s'" for ev s' by (simp add: trigger_if_def)
  then have "idle_event 0 e s = Inr s'"
    using assms(2-4,7,8) t(1) by (auto simp: idle_event_def ctx_at_def Let_def)
  with t(2) show ?thesis by (auto simp: fired_def)
qed

lemma armed_timer_cb:
  "armed (new_timer now ms cb r) s s1 \<Longrightarrow> timer_cb (objs (io_timers s1) ! length (objs (io_timers s))) = cb"
  by (simp add: armed_def new_timer_def)

lemma cancel_timer_frame [simp]:
  "ctxs (cancel_timer t s) = ctxs s" "m_tasks (cancel_timer t s) = m_tasks s"
  by (simp_all add: cancel_timer_def split: option.split)

text \<open>After \<open>timer->cancel()\<close> the timer has no closure to run.\<close>

lemma timer_cancel_clears:
  "i < length (objs M) \<Longrightarrow> timer_cb (objs (snd (timer_cancel i M)) ! i) = None"
  by (auto simp: timer_cancel_def Let_def upd_timer_def split: option.split)

text \<open>The closure of the timer of a call that still waits: the fiber is queued, the call marked.\<close>

lemma run_timeout_closure:
  assumes "hw_iom w = Some s" and "iom_inv s" and "m_tasks s = []" and "io_pipe_open s"
    and "hw_conds w (io_cond c) = Some 0" and "find_context (io_fd c) s = Inr (Some p)"
    and "io_event c = READ \<or> io_event c = WRITE" and "ctx_event (ctxs s ! p) = io_event c"
    and "ev_of (io_event c) (ctxs s ! p) = fiber_waits f (m_this s)"
  shows "\<exists>w1 s1. run_closure other 0 (timeout_closure c q) w = Inr w1 \<and> hw_local w1 = hw_local w
    \<and> hw_iom w1 = Some s1 \<and> m_tasks s1 = [fiber_task (Some f) (- 1)] \<and> ctx_event (ctxs s1 ! p) = 0
    \<and> hw_conds w1 = (hw_conds w)(io_cond c \<mapsto> ETIMEDOUT)"
proof -
  let ?ev = "io_event c"
  have p: "p < length (ctxs s)" by (rule find_context_ptr [OF assms(2,6)])
  obtain sx where sx: "cancelEvent_locked 0 p (io_fd c) ?ev s = Inr (True, unregistered p (io_fd c) ?ev sx)"
      "same_io s sx" "m_tasks sx = [fiber_task (Some f) (- 1)]"
    using cancelEvent_locked_cancels [OF assms(2) p assms(7) _ assms(4), of "io_fd c"] assms(3,7-9)
    by (auto simp: fiber_waits_def event_task_def)
  have "ctx_event (unregister ?ev (ctxs s ! p)) = 0"
    using unregister_ok(4) [OF iom_inv_ctx_ok [OF assms(2) p] assms(7)] assms(7,8) by auto
  moreover have "cancelEvent 0 (io_fd c) ?ev s = Inr (True, unregistered p (io_fd c) ?ev sx)"
    using sx(1) assms(6) by (simp add: cancelEvent_def with_context_def)
  ultimately show ?thesis
    using assms(1,5) sx(2,3) p
    by (simp add: timeout_closure_def OnTimer_def run_io_timeout_def deref_def put_iom_def same_io_def)
qed

section \<open>A turn of the idle fiber\<close>

lemma getNextTimer_snd: "snd (getNextTimer now M) = M\<lparr>m_tickled := False\<rparr>"
  by (simp add: getNextTimer_def Let_def split: list.split)

lemma iom_stopping_snd: "snd (iom_stopping now s) = s\<lparr>io_timers := (io_timers s)\<lparr>m_tickled := False\<rparr>\<rparr>"
  using getNextTimer_snd [of now "io_timers s"] by (auto simp: iom_stopping_def split: prod.split)

lemma idle_timeout_snd: "snd (idle_timeout now s) = s\<lparr>io_timers := (io_timers s)\<lparr>m_tickled := False\<rparr>\<rparr>"
  using getNextTimer_snd [of now "io_timers s"] by (auto simp: idle_timeout_def split: prod.split)

lemma idle_waits:
  assumes "\<not> m_tickled (io_timers s)"
  shows "fold (\<lambda>now s. snd (idle_timeout now s)) waits s = s"
proof -
  have "(io_timers s)\<lparr>m_tickled := False\<rparr> = io_timers s"
    using assms by (cases "io_timers s") simp
  then have "snd (idle_timeout now s) = s" for now
    by (cases s) (simp add: idle_timeout_snd)
  then show ?thesis by (induction waits) simp_all
qed

text \<open>The test of \<open>stopping()\<close> and the waiting only clear \<open>m_tickled\<close>.\<close>

lemma idle_turn_eq:
  assumes "\<not> fst (iom_stopping now0 s)"
  shows "idle_turn now0 waits now1 now2 es s =
    map_option (\<lambda>r. bind_res r (\<lambda>s3. Inr (False, s3)))
      (idle_turn_body now1 now2 es (s\<lparr>io_timers := (io_timers s)\<lparr>m_tickled := False\<rparr>\<rparr>))"
  using assms iom_stopping_snd [of now0 s]
    idle_waits [of "s\<lparr>io_timers := (io_timers s)\<lparr>m_tickled := False\<rparr>\<rparr>" waits]
  by (cases "iom_stopping now0 s") (simp add: idle_turn_def)

section \<open>Properties\<close>

text \<open>A call that reads descriptor 0 of the example, with a timeout of 20 ms.\<close>

definition ex_call :: io_call where
  "ex_call = \<lparr>io_fd = 0, io_event = READ, io_timeout = 20, io_cond = 0\<rparr>"

definition ex_waiting :: hook_world where
  "ex_waiting = ex_hook\<lparr>hw_conds := [0 \<mapsto> 0]\<rparr>"

lemma ex_waiting_facts:
  "on_iom ex_iom ex_waiting" "running_task 1 (tl_fibers (hw_local ex_waiting))"
  "find_context (io_fd ex_call) ex_iom = Inr (Some 0)" "ctx_event (ctxs ex_iom ! 0) = 0"
  "io_event ex_call = READ \<or> io_event ex_call = WRITE" "hw_conds ex_waiting (io_cond ex_call) = Some 0"
  "io_pipe_open ex_iom" "m_tasks ex_iom = []"
  using ex_hook_on find_context_in [of 0 ex_iom 0]
  by (simp_all add: ex_call_def ex_waiting_def on_iom_def)

text \<open>
  C27: a task that sleeps is parked, and its wake-up joins the queue, in the order of the timers,
  as soon as the idle fiber looks at the clock at or after the time asked for, whatever other
  timers there are, unless a timer with exactly the same time is armed already. Then the
  manager's timers are what they were before the call, and nothing will ever wake the fiber.
\<close>

theorem sleeper_is_woken_unless_time_taken:
  assumes "on_iom s w" and "running_task f (tl_fibers (hw_local w))" and "io_pipe_open s"
    and "tm_wf (io_timers s)" and "tp_sub (m_preTime (io_timers s)) (60 * 60 * 1000) \<le> now2"
    and "\<forall>i\<in>set (m_timers (io_timers s)). m_recurring (objs (io_timers s) ! i) \<longrightarrow>
           now1 < tp_add now1 (m_ms (objs (io_timers s) ! i))"
  shows "\<exists>w1 s1 s2. sleep_ms now ms w = Inr (Park None, w1) \<and> parked f (tl_fibers (hw_local w1))
    \<and> hw_iom w1 = Some s1 \<and> idle_expire now1 now2 s1 = Some (Inr s2)
    \<and> m_tasks s2 = m_tasks s @ due_tasks now1 (io_timers s1)
    \<and> (if \<exists>j\<in>set (m_timers (io_timers s)). next_of (io_timers s) j = tp_add now ms
       then m_timers (io_timers s1) = m_timers (io_timers s)
         \<and> due_tasks now1 (io_timers s1) = due_tasks now1 (io_timers s)
       else tp_add now ms \<le> now1 \<longrightarrow>
         cb_task (Some (Schedule_fiber_cb (m_this s) f)) (- 1) \<in> set (due_tasks now1 (io_timers s1)))"
proof -
  let ?M = "io_timers s" and ?n = "length (objs (io_timers s))"
  let ?cb = "Some (Schedule_fiber_cb (m_this s) f)"
  obtain p s1 fw where sl: "iom_addTimer now ms ?cb False s = Inr (p, s1)"
      "sleep_ms now ms w = Inr (Park None, put_fibers fw (put_iom s1 w))" "parked f fw"
    by (rule sleep_ms_ok [OF assms(1-3)])
  have a: "armed (new_timer now ms ?cb False) s s1" using iom_addTimer_armed [OF sl(1)] by simp
  note t = armed_timers [OF assms(4) a]
  have fr: "io_pipe_open s1" "m_tasks s1 = m_tasks s" using a assms(3) by (simp_all add: armed_def)
  have "now1 < tp_add now1 (m_ms (objs (io_timers s1) ! i))"
    if "i \<in> set (due now1 (io_timers s1))" "m_recurring (objs (io_timers s1) ! i)" for i
  proof -
    have "i \<in> set (m_timers (io_timers s1))" using that(1) by (simp add: due_def)
    moreover have "i \<noteq> ?n" using that(2) t(4) by (auto simp: new_timer_def)
    ultimately have i: "i \<in> set (m_timers ?M)" using t(3) by (auto split: if_splits)
    then have "i < ?n" using assms(4) by (simp add: tm_wf_def)
    with i that(2) show ?thesis using t(5) [of i] assms(6) by simp
  qed
  then obtain s2 where s2: "idle_expire now1 now2 s1 = Some (Inr s2)"
      "m_tasks s2 = m_tasks s1 @ due_tasks now1 (io_timers s1)"
    using idle_expire_due [OF t(1) fr(1), of now2 now1] assms(5) t(2) by auto
  have "cb_task ?cb (- 1) \<in> set (due_tasks now1 (io_timers s1))"
    if "\<not> (\<exists>j\<in>set (m_timers ?M). next_of ?M j = tp_add now ms)" "tp_add now ms \<le> now1"
  proof -
    have "?n \<in> set (due now1 (io_timers s1))"
      using that t(3,4) by (auto simp: due_def next_of_def new_timer_def)
    moreover have "valid_task (cb_task ?cb (- 1))" by (simp add: valid_task_def cb_task_def)
    ultimately show ?thesis
      using t(4) by (force simp: due_tasks_def new_timer_def)
  qed
  then show ?thesis
    using sl(2,3) s2 fr(2) armed_time_taken [OF assms(4) a] by auto
qed

theorem sleeper_is_woken_unless_time_taken_witness:
  "\<exists>w1 s1 s2. sleep_ms 0 20 ex_hook = Inr (Park None, w1) \<and> hw_iom w1 = Some s1
     \<and> idle_expire 20000000 0 s1 = Some (Inr s2)
     \<and> cb_task (Some (Schedule_fiber_cb 1 1)) (- 1) \<in> set (m_tasks s2)"
  using sleeper_is_woken_unless_time_taken [OF ex_hook_on, of 0 20000000 0 20]
  by (auto simp: new_manager_def tm_wf_def time_eval)

text \<open>
  C2: a hooked sleep comes back to its caller. When nothing else is queued or armed, the fiber
  that sleeps is parked; the idle fiber, looking at the clock at or after the time asked for,
  queues the closure of the timer; the worker that takes it runs it on a fiber of its own,
  which queues the sleeping fiber; and the worker that takes this task continues the fiber where
  it slept, with nothing queued or armed any more.
\<close>

theorem sleep_returns_to_sleeper:
  assumes "on_iom s w" and "running_task f (tl_fibers (hw_local w))" and "io_pipe_open s"
    and "tm_wf (io_timers s)" and "m_timers (io_timers s) = []" and "m_tasks s = []"
    and "tp_sub (m_preTime (io_timers s)) (60 * 60 * 1000) \<le> now2" and "tp_add now ms \<le> now1"
    and "parked f fw"
  shows "\<exists>w1 s1 s2 w2 w3 s3. sleep_ms now ms w = Inr (Park None, w1) \<and> parked f (tl_fibers (hw_local w1))
    \<and> hw_iom w1 = Some s1 \<and> idle_expire now1 now2 s1 = Some (Inr s2)
    \<and> run_callback other rt tid (put_fibers fw (put_iom s2 w1)) = Inr w2
    \<and> worker_take tid' w2 = Inr (Some (fiber_task (Some f) (- 1)), w3)
    \<and> running_task f (tl_fibers (hw_local w3)) \<and> cur (tl_fibers (hw_local w3)) = On_stack f
    \<and> hw_iom w3 = Some s3 \<and> m_tasks s3 = [] \<and> m_timers (io_timers s3) = []"
proof -
  let ?cb = "Schedule_fiber_cb (m_this s) f"
  obtain p s1 fw1 where sl: "iom_addTimer now ms (Some ?cb) False s = Inr (p, s1)"
      "sleep_ms now ms w = Inr (Park None, put_fibers fw1 (put_iom s1 w))" "parked f fw1"
    by (rule sleep_ms_ok [OF assms(1-3)])
  have a: "armed (new_timer now ms (Some ?cb) False) s s1" using iom_addTimer_armed [OF sl(1)] by simp
  obtain s2 where s2: "idle_expire now1 now2 s1 = Some (Inr s2)" "m_tasks s2 = [cb_task (Some ?cb) (- 1)]"
      "m_this s2 = m_this s" "io_pipe_open s2" "m_timers (io_timers s2) = []"
    using only_timer_fires [OF assms(4,5,3) a assms(7,8), of s1] a assms(3,6)
    by (auto simp: armed_def same_io_def)
  let ?w = "put_fibers fw (put_iom s2 (put_fibers fw1 (put_iom s1 w)))"
  have "\<exists>w2 w3 s3. run_callback other rt tid ?w = Inr w2
      \<and> worker_take tid' w2 = Inr (Some (fiber_task (Some f) (- 1)), w3)
      \<and> running_task f (tl_fibers (hw_local w3)) \<and> cur (tl_fibers (hw_local w3)) = On_stack f
      \<and> hw_iom w3 = Some s3 \<and> m_tasks s3 = [] \<and> m_timers (io_timers s3) = []"
  proof (rule callback_wakes [of _ s2 ?cb])
    show "\<exists>w1 s1. run_closure other rt ?cb (put_fibers fwb (put_iom
          (s2\<lparr>m_tasks := [], m_activeThreadCnt := m_activeThreadCnt s2 + 1\<rparr>) ?w)) = Inr w1
        \<and> tl_fibers (hw_local w1) = fwb \<and> hw_iom w1 = Some s1
        \<and> m_tasks s1 = [fiber_task (Some f) (- 1)] \<and> m_timers (io_timers s1) = []" for fwb
      using run_Schedule_fiber [of "put_fibers fwb (put_iom (s2\<lparr>m_tasks := [],
          m_activeThreadCnt := m_activeThreadCnt s2 + 1\<rparr>) ?w)"
          "s2\<lparr>m_tasks := [], m_activeThreadCnt := m_activeThreadCnt s2 + 1\<rparr>" other rt f] s2(3-5)
      by (auto simp: same_io_def)
  qed (use s2 assms(9) in simp_all)
  then obtain w2 w3 s3 where w3: "run_callback other rt tid ?w = Inr w2"
      "worker_take tid' w2 = Inr (Some (fiber_task (Some f) (- 1)), w3)"
      "running_task f (tl_fibers (hw_local w3))" "cur (tl_fibers (hw_local w3)) = On_stack f"
      "hw_iom w3 = Some s3" "m_tasks s3 = []" "m_timers (io_timers s3) = []" by blast
  have "parked f (tl_fibers (hw_local (put_fibers fw1 (put_iom s1 w))))"
    "hw_iom (put_fibers fw1 (put_iom s1 w)) = Some s1"
    using sl(3) by simp_all
  with sl(2) s2(1) w3 show ?thesis by blast
qed

theorem sleep_returns_to_sleeper_witness:
  "\<exists>w1 w2 w3 fw. sleep_ms 0 20 ex_hook = Inr (Park None, w1)
     \<and> run_callback (\<lambda>_ w. Inr w) 0 7 (put_fibers fw w2) = Inr w3"
proof -
  obtain fw where "parked 1 fw" using running_task_yields [OF ex_task_running] by blast
  then show ?thesis
    using sleep_returns_to_sleeper [OF ex_hook_on, of 0 0 20 20000000 fw "\<lambda>_ w. Inr w" 0 7 7]
    by (auto simp: new_manager_def tm_wf_def time_eval)
qed

text \<open>
  C4: a call that has to wait starts again when its descriptor is ready. Its fiber is registered
  with \<open>epoll\<close>, edge-triggered, and parks. When the event is delivered, the fiber is queued; the
  worker that takes this task continues it where it waited, its timer is cancelled, if it has a
  timeout, nothing is registered any more, and the call goes back to \<open>retry\<close>.
\<close>

theorem waiting_call_retries_when_ready:
  assumes "on_iom s w" and "running_task f (tl_fibers (hw_local w))" and "iom_inv s" and "io_pipe_open s"
    and "find_context (io_fd c) s = Inr (Some p)" and "ctx_event (ctxs s ! p) = 0"
    and "io_event c = READ \<or> io_event c = WRITE" and "hw_conds w (io_cond c) = Some 0"
    and "m_tasks s = []" and "parked f fw"
    and "ep_data e = Data_ptr p" and "real_events (ep_events e) (io_event c) = io_event c"
  shows "\<exists>timer w1 s1 s2 w2 w3 s3. do_io_try now 0 (- 1) EAGAIN c w = Inr (Park timer, w1)
    \<and> parked f (tl_fibers (hw_local w1)) \<and> hw_iom w1 = Some s1
    \<and> io_interest s1 (io_fd c) = Some (EPOLLET OR io_event c, Data_ptr p)
    \<and> idle_event 0 e s1 = Inr s2
    \<and> worker_take tid (put_fibers fw (put_iom s2 w1)) = Inr (Some (fiber_task (Some f) (- 1)), w2)
    \<and> running_task f (tl_fibers (hw_local w2)) \<and> cur (tl_fibers (hw_local w2)) = On_stack f
    \<and> do_io_wake timer c w2 = (Retry, w3) \<and> hw_iom w3 = Some s3 \<and> ctx_event (ctxs s3 ! p) = 0
    \<and> (timer = None \<longleftrightarrow> io_timeout c = - 1)
    \<and> (\<forall>t. timer = Some t \<longrightarrow> timer_cb (objs (io_timers s3) ! t) = None)"
proof -
  let ?ev = "io_event c"
  obtain timer s1 fw1 where d: "do_io_try now 0 (- 1) EAGAIN c w = Inr (Park timer, put_fibers fw1 (put_iom s1 w))"
    "parked f fw1" "iom_inv s1" "m_tasks s1 = m_tasks s" "m_this s1 = m_this s" "io_pipe_open s1"
    "p < length (ctxs s1)" "ctx_event (ctxs s1 ! p) = ?ev" "ev_of ?ev (ctxs s1 ! p) = fiber_waits f (m_this s)"
    "io_interest s1 (io_fd c) = Some (EPOLLET OR ?ev, Data_ptr p)"
    and tm: "if io_timeout c = - 1 then timer = None
     else timer = Some (length (objs (io_timers s))) \<and> (\<exists>sa. io_timers s1 = io_timers sa
       \<and> armed (new_timer now (io_timeout c) (Some (timeout_closure c (m_this s))) False) s sa)"
    by (rule do_io_parks [OF assms(1-7), where now = now])
  obtain s2 where s2: "idle_event 0 e s1 = Inr s2" "m_tasks s2 = [fiber_task (Some f) (- 1)]"
      "ctxs s2 = (ctxs s1)[p := unregister ?ev (ctxs s1 ! p)]" "io_timers s2 = io_timers s1"
    using idle_event_fires_single [OF d(3,7,8) assms(7) d(6) _ assms(11,12)] d(4,5,9) assms(9)
    by (auto simp: fiber_waits_def event_task_def)
  let ?w = "put_fibers fw (put_iom s2 (put_fibers fw1 (put_iom s1 w)))"
  obtain w2 s2' where w2: "worker_take tid ?w = Inr (Some (fiber_task (Some f) (- 1)), w2)"
      "running_task f (tl_fibers (hw_local w2))" "cur (tl_fibers (hw_local w2)) = On_stack f"
      "hw_iom w2 = Some s2'" "io_timers s2' = io_timers s1" "ctxs s2' = ctxs s2" "hw_conds w2 = hw_conds w"
    using worker_resumes [of ?w s2 f tid] s2(2,4) assms(10) by auto
  let ?s3 = "cancel_timer timer s2'"
  have "do_io_wake timer c w2 = (Retry, w2\<lparr>hw_iom := Some ?s3\<rparr>)"
    using w2(4,7) assms(8) by (simp add: do_io_wake_def ETIMEDOUT_def)
  moreover have "ctx_event (ctxs ?s3 ! p) = 0"
    using w2(6) s2(3) unregister_ok(4) [OF iom_inv_ctx_ok [OF d(3,7)] assms(7)] assms(7) d(7,8) by auto
  moreover have "timer = Some t \<longrightarrow> timer_cb (objs (io_timers ?s3) ! t) = None" for t
    using tm w2(5) timer_cancel_clears [of t "io_timers s1"]
    by (auto simp: cancel_timer_def armed_def split: if_splits)
  moreover have "timer = None \<longleftrightarrow> io_timeout c = - 1" using tm by (auto split: if_splits)
  ultimately show ?thesis
    using d(1,2,10) s2(1) w2(1-4)
    by (intro exI [of _ timer] exI [of _ "put_fibers fw1 (put_iom s1 w)"] exI [of _ s1] exI [of _ s2]
        exI [of _ w2] exI [of _ "w2\<lparr>hw_iom := Some ?s3\<rparr>"] exI [of _ ?s3]) simp
qed

theorem waiting_call_retries_when_ready_witness:
  "\<exists>timer w1 s1 s2 w2 w3. do_io_try 0 0 (- 1) EAGAIN ex_call ex_waiting = Inr (Park timer, w1)
     \<and> hw_iom w1 = Some s1 \<and> idle_event 0 \<lparr>ep_events = EPOLLIN, ep_data = Data_ptr 0\<rparr> s1 = Inr s2
     \<and> do_io_wake timer ex_call w2 = (Retry, w3)"
proof -
  obtain fw where fw: "parked 1 fw" using running_task_yields [OF ex_task_running] by blast
  have "real_events EPOLLIN (io_event ex_call) = io_event ex_call"
    by (simp add: real_events_def ex_call_def EPOLLIN_def EPOLLOUT_def EPOLLERR_def EPOLLHUP_def event_defs)
  then show ?thesis
    using waiting_call_retries_when_ready [OF ex_waiting_facts(1,2) ex_iom_inv ex_waiting_facts(7,3-6,8) fw,
        of "\<lparr>ep_events = EPOLLIN, ep_data = Data_ptr 0\<rparr>" 0 7] by simp blast
qed

text \<open>
  C3: a call that has to wait longer than its timeout fails with \<open>ETIMEDOUT\<close>. When the event
  stays away, nothing else is queued or armed, and the idle fiber looks at the clock at or after
  the timeout, the closure of the timer becomes a task; the worker that runs it takes the
  registration back and queues the fiber; the worker that takes the fiber continues it where it
  waited, and the call returns -1 with \<open>errno\<close> set, its \<open>timer_info\<close> gone.
\<close>

theorem waiting_call_times_out:
  assumes "on_iom s w" and "running_task f (tl_fibers (hw_local w))" and "iom_inv s" and "io_pipe_open s"
    and "find_context (io_fd c) s = Inr (Some p)" and "ctx_event (ctxs s ! p) = 0"
    and "io_event c = READ \<or> io_event c = WRITE" and "hw_conds w (io_cond c) = Some 0"
    and "m_tasks s = []" and "parked f fw" and "io_timeout c \<noteq> - 1"
    and "tm_wf (io_timers s)" and "m_timers (io_timers s) = []"
    and "tp_sub (m_preTime (io_timers s)) (60 * 60 * 1000) \<le> now2" and "tp_add now (io_timeout c) \<le> now1"
  shows "\<exists>t w1 s1 s2 w2 w3 w4 s4. do_io_try now 0 (- 1) EAGAIN c w = Inr (Park (Some t), w1)
    \<and> parked f (tl_fibers (hw_local w1)) \<and> hw_iom w1 = Some s1
    \<and> idle_expire now1 now2 s1 = Some (Inr s2)
    \<and> run_callback other 0 tid (put_fibers fw (put_iom s2 w1)) = Inr w2
    \<and> worker_take tid' w2 = Inr (Some (fiber_task (Some f) (- 1)), w3)
    \<and> running_task f (tl_fibers (hw_local w3)) \<and> cur (tl_fibers (hw_local w3)) = On_stack f
    \<and> do_io_wake (Some t) c w3 = (Ret (- 1), w4) \<and> hw_errno w4 = ETIMEDOUT
    \<and> hw_conds w4 (io_cond c) = None \<and> hw_iom w4 = Some s4 \<and> ctx_event (ctxs s4 ! p) = 0"
proof -
  let ?ev = "io_event c" and ?cb = "timeout_closure c (m_this s)" and ?t = "length (objs (io_timers s))"
  obtain timer s1 fw1 sa where d: "do_io_try now 0 (- 1) EAGAIN c w = Inr (Park timer, put_fibers fw1 (put_iom s1 w))"
    "parked f fw1" "iom_inv s1" "m_tasks s1 = m_tasks s" "m_this s1 = m_this s" "io_pipe_open s1"
    "find_context (io_fd c) s1 = Inr (Some p)" "ctx_event (ctxs s1 ! p) = ?ev"
    "ev_of ?ev (ctxs s1 ! p) = fiber_waits f (m_this s)" "timer = Some ?t" "io_timers s1 = io_timers sa"
    "armed (new_timer now (io_timeout c) (Some ?cb) False) s sa"
    by (rule do_io_parks [OF assms(1-7), where now = now]) (use assms(11) in auto)
  obtain s2 where s2: "idle_expire now1 now2 s1 = Some (Inr s2)" "m_tasks s2 = [cb_task (Some ?cb) (- 1)]"
      "same_io (s1\<lparr>io_timers := io_timers s2\<rparr>) s2"
    using only_timer_fires [OF assms(12,13,4) d(12) assms(14,15), of s1] d(4,6,11) assms(9) by auto
  let ?s = "s2\<lparr>m_tasks := [], m_activeThreadCnt := m_activeThreadCnt s2 + 1\<rparr>"
  have c2: "ctxs ?s = ctxs s1" "m_this ?s = m_this s" "io_pipe_open ?s"
      "find_context (io_fd c) ?s = Inr (Some p)" "iom_inv ?s"
    using s2(3) d(5-7) find_context_frame [of ?s s1] iom_inv_frame [OF d(3), of ?s] by (simp_all add: same_io_def)
  let ?w = "put_fibers fw (put_iom s2 (put_fibers fw1 (put_iom s1 w)))"
  have run: "\<exists>w1 s1. run_closure other 0 ?cb (put_fibers fwb (put_iom ?s ?w)) = Inr w1
      \<and> tl_fibers (hw_local w1) = fwb \<and> hw_iom w1 = Some s1 \<and> m_tasks s1 = [fiber_task (Some f) (- 1)]
      \<and> hw_conds w1 (io_cond c) = Some ETIMEDOUT \<and> ctx_event (ctxs s1 ! p) = 0" for fwb
    using run_timeout_closure [of "put_fibers fwb (put_iom ?s ?w)" ?s c p f other "m_this s"]
      c2 assms(7,8) d(8,9) by auto
  obtain w2 w3 s3 where w3: "run_callback other 0 tid ?w = Inr w2"
      "worker_take tid' w2 = Inr (Some (fiber_task (Some f) (- 1)), w3)"
      "running_task f (tl_fibers (hw_local w3))" "cur (tl_fibers (hw_local w3)) = On_stack f"
      "hw_iom w3 = Some s3" "hw_conds w3 (io_cond c) = Some ETIMEDOUT" "ctx_event (ctxs s3 ! p) = 0"
    using callback_wakes [of ?w s2 ?cb f other 0 "\<lambda>h cs T. h (io_cond c) = Some ETIMEDOUT \<and> ctx_event (cs ! p) = 0"
        tid tid'] s2(2) assms(10) run by auto
  obtain w4 where w4: "do_io_wake (Some ?t) c w3 = (Ret (- 1), w4)" "hw_errno w4 = ETIMEDOUT"
      "hw_conds w4 (io_cond c) = None" "hw_iom w4 = Some (cancel_timer (Some ?t) s3)"
    using w3(5,6) by (simp add: do_io_wake_def drop_cond_def)
  show ?thesis
    using d(1,2,10) s2(1) w3 w4
    by (intro exI [of _ ?t] exI [of _ "put_fibers fw1 (put_iom s1 w)"] exI [of _ s1] exI [of _ s2]
        exI [of _ w2] exI [of _ w3] exI [of _ w4] exI [of _ "cancel_timer (Some ?t) s3"]) simp
qed

theorem waiting_call_times_out_witness:
  "\<exists>t w1 s1 s2 w3 w4. do_io_try 0 0 (- 1) EAGAIN ex_call ex_waiting = Inr (Park (Some t), w1)
     \<and> hw_iom w1 = Some s1 \<and> idle_expire 20000000 0 s1 = Some (Inr s2)
     \<and> do_io_wake (Some t) ex_call w3 = (Ret (- 1), w4) \<and> hw_errno w4 = ETIMEDOUT"
proof -
  obtain fw where fw: "parked 1 fw" using running_task_yields [OF ex_task_running] by blast
  have "io_timeout ex_call \<noteq> - 1" "tm_wf (io_timers ex_iom)" "m_timers (io_timers ex_iom) = []"
    "tp_sub (m_preTime (io_timers ex_iom)) (60 * 60 * 1000) \<le> 0" "tp_add 0 (io_timeout ex_call) \<le> 20000000"
    by (simp_all add: ex_call_def new_manager_def tm_wf_def time_eval)
  from waiting_call_times_out [OF ex_waiting_facts(1,2) ex_iom_inv ex_waiting_facts(7,3-6,8) fw this,
      of "\<lambda>_ w. Inr w" 7 7]
  show ?thesis by blast
qed

text \<open>
  C5: one turn of the idle fiber turns all the work that is ready into tasks. Unless the manager is
  stopping, the closures of the timers that are due, earliest first, and then the waiters of all
  delivered events, in the order of \<open>epoll_wait\<close> and reading before writing, each once, are
  appended to the queue; what was delivered is registered no longer.
\<close>

theorem idle_turn_queues_ready_work:
  assumes "iom_inv s" and "io_pipe_open s" and "\<not> fst (iom_stopping now0 s)"
    and "tm_wf (io_timers s)" and "tp_sub (m_preTime (io_timers s)) (60 * 60 * 1000) \<le> now2"
    and "\<forall>i\<in>set (due now1 (io_timers s)). m_recurring (objs (io_timers s) ! i) \<longrightarrow>
           now1 < tp_add now1 (m_ms (objs (io_timers s) ! i))"
    and "distinct (map fst ps)" and "\<forall>(p, ev)\<in>set ps. ready_event s p ev"
  shows "\<exists>s'. idle_turn now0 waits now1 now2 (map (\<lambda>(p, ev). (0, delivery p ev)) ps) s = Some (Inr (False, s'))
    \<and> m_tasks s' = m_tasks s @ due_tasks now1 (io_timers s) @ concat (map (\<lambda>(p, ev). ready_tasks s p ev) ps)
    \<and> (\<forall>(p, ev)\<in>set ps. ctx_event (ctxs s' ! p) =
          ctx_event (ctxs s ! p) AND NOT (real_events ev (ctx_event (ctxs s ! p))))"
proof -
  define s1 where "s1 = s\<lparr>io_timers := (io_timers s)\<lparr>m_tickled := False\<rparr>\<rparr>"
  have d: "due now1 (io_timers s1) = due now1 (io_timers s)" "objs (io_timers s1) = objs (io_timers s)"
      "m_preTime (io_timers s1) = m_preTime (io_timers s)"
    by (simp_all add: s1_def due_def next_of_def)
  have wf: "tm_wf (io_timers s1)" using assms(4) by (simp add: s1_def tm_wf_def next_of_def)
  obtain s2 where s2: "idle_expire now1 now2 s1 = Some (Inr s2)"
      "m_tasks s2 = m_tasks s @ due_tasks now1 (io_timers s)" "same_io (s1\<lparr>io_timers := io_timers s2\<rparr>) s2"
    using idle_expire_due [OF wf, of now2 now1] assms(2,5,6) d by (auto simp: s1_def due_tasks_def)
  have fr: "ctxs s2 = ctxs s" "m_this s2 = m_this s" "io_pipe_open s2" "iom_inv s2"
    using s2(3) assms(2) iom_inv_frame [OF assms(1), of s2] by (simp_all add: same_io_def s1_def)
  then have same: "ready_event s2 p ev = ready_event s p ev" "ready_tasks s2 p ev = ready_tasks s p ev" for p ev
    by (simp_all add: ready_event_def ready_tasks_def)
  obtain s' where s': "idle_events (map (\<lambda>(p, ev). (0, delivery p ev)) ps) s2 = Inr s'"
      "m_tasks s' = m_tasks s2 @ concat (map (\<lambda>(p, ev). ready_tasks s p ev) ps)"
      "\<forall>(p, ev)\<in>set ps. ctx_event (ctxs s' ! p) =
          ctx_event (ctxs s ! p) AND NOT (real_events ev (ctx_event (ctxs s ! p)))"
    using idle_events_fire [OF fr(4,3) assms(7)] assms(8) unfolding same fr(1) by blast
  show ?thesis
    using s'(1,3) s2(1) by (simp add: idle_turn_eq [OF assms(3)] idle_turn_body_def s'(2) s2(2) flip: s1_def)
qed

theorem idle_turn_queues_ready_work_witness:
  "\<exists>s'. idle_turn 0 [0, 1] 2 2 [(0, delivery 1 EPOLLIN)] ex_iom = Some (Inr (False, s'))
     \<and> m_tasks s' = [fiber_task (Some 4) (- 1)]"
proof -
  have r: "real_events EPOLLIN READ = READ"
    by (simp add: real_events_def event_defs EPOLLIN_def EPOLLOUT_def EPOLLERR_def EPOLLHUP_def)
  have c: "ctxs ex_iom ! 1 = register READ \<lparr>ev_scheduler = Some 1, ev_fiber = Some 4, ev_cb = None\<rparr> (new_fd_context 1)"
    by simp
  then have e: "ready_event ex_iom 1 EPOLLIN" "ready_tasks ex_iom 1 EPOLLIN = [fiber_task (Some 4) (- 1)]"
    using r by (simp_all add: ready_event_def ready_tasks_def event_tasks_def event_task_def register_def
        setEventContext_def new_fd_context_def)
  have "\<not> fst (iom_stopping 0 ex_iom)" by (simp add: iom_stopping_def split: prod.split)
  from idle_turn_queues_ready_work [OF ex_iom_inv _ this, of 2 2 "[(1, EPOLLIN)]" "[0, 1]"] e
  show ?thesis by (auto simp: new_manager_def tm_wf_def due_def due_tasks_def time_eval)
qed

end
