(* ===== verification/Example_Server.thy ===== *)
theory Example_Server
  imports Runtime
begin

text \<open>
  \<open>code/main.cpp\<close>: the HTTP server that comes with the library, an acceptor and a handler per
  connection that run as callbacks of an \<open>IOManager\<close> and use the hooked calls. What the system
  answers to \<open>accept\<close>, \<open>recv\<close> and \<open>send\<close>, with \<open>errno\<close>, and to \<open>epoll_ctl\<close> is an argument; the bytes are not modelled.
\<close>

section \<open>The program\<close>

text \<open>The functions of the program as closures: \<open>test_accept\<close>, and the lambda of a connection.\<close>

definition accept_cb :: closure where "accept_cb = User_cb 0"

definition conn_cb :: "int \<Rightarrow> closure" where "conn_cb fd = User_cb (Suc (nat fd))"

text \<open>
  A hooked call with the answer of the original function. \<open>None\<close> when it has to wait, in which
  case it goes on as \<open>Hook\<close> describes.
\<close>

definition hooked_call ::
  "(u32 \<Rightarrow> u32 \<Rightarrow> u32) \<Rightarrow> io_fun \<Rightarrow> int \<Rightarrow> int \<times> int \<Rightarrow> hook_world \<Rightarrow> (int option \<times> hook_world) res"
where
  "hooked_call setfl f fd ans w =
     bind_res (io_enter setfl f fd w) (\<lambda>(r, _, w1).
     case r of
       Raw \<Rightarrow> Inr (Some (fst ans), w1\<lparr>hw_errno := snd ans\<rparr>)
     | Ret n \<Rightarrow> Inr (Some n, w1)
     | Park _ \<Rightarrow> Inr (None, w1)
     | Retry \<Rightarrow> Inr (None, w1))"

text \<open>\<open>IOManager::GetThis()->addEvent(fd, event, cb)\<close>\<close>

definition add_event :: "int \<Rightarrow> int \<Rightarrow> u32 \<Rightarrow> closure \<Rightarrow> hook_world \<Rightarrow> hook_world res" where
  "add_event rt fd event cb w =
     bind_res (deref (this_iom w)) (\<lambda>s.
     bind_res (addEvent rt fd event (Some cb) s (hw_local w)) (\<lambda>(_, s1, l).
     Inr (put_iom s1 (w\<lparr>hw_local := l\<rparr>))))"

text \<open>
  \<open>test_accept\<close>; the result says whether it got past \<open>accept\<close>. \<open>rt1\<close> and \<open>rt2\<close> are what \<open>epoll_ctl\<close>
  answers to the two registrations.
\<close>

definition test_accept ::
  "(u32 \<Rightarrow> u32 \<Rightarrow> u32) \<Rightarrow> int \<Rightarrow> int \<times> int \<Rightarrow> int \<Rightarrow> int \<Rightarrow> hook_world \<Rightarrow> (bool \<times> hook_world) res"
where
  "test_accept setfl sock_listen_fd ans rt1 rt2 w =
     bind_res (hooked_call setfl F_accept sock_listen_fd ans w) (\<lambda>(r, w1).
     case r of
       None \<Rightarrow> Inr (False, w1)
     | Some r \<Rightarrow>
         bind_res (accept_leave setfl r w1) (\<lambda>(fd, w2).
         bind_res (if fd < 0 then Inr w2
                   else bind_res (hook_fcntl setfl fd F_SETFL O_NONBLOCK w2) (\<lambda>(_, w3).
                        add_event rt1 fd READ (conn_cb fd) w3)) (\<lambda>w4.
         bind_res (add_event rt2 sock_listen_fd READ accept_cb w4) (\<lambda>w5. Inr (True, w5)))))"

text \<open>
  The lambda of a connection. \<open>recvs\<close> are the answers to its calls of \<open>recv\<close>, \<open>sent\<close> the one to
  \<open>send\<close>; the loop need not end. \<open>Closed b\<close> says whether the response was sent first.
\<close>

datatype conn_result = Waiting | Closed bool

definition close_conn ::
  "(u32 \<Rightarrow> u32 \<Rightarrow> u32) \<Rightarrow> int \<Rightarrow> int \<Rightarrow> bool \<Rightarrow> hook_world \<Rightarrow> (conn_result \<times> hook_world) res"
where
  "close_conn setfl rt fd answered w =
     bind_res (hook_close setfl rt fd w) (\<lambda>(_, w1). Inr (Closed answered, w1))"

definition answer_conn ::
  "(u32 \<Rightarrow> u32 \<Rightarrow> u32) \<Rightarrow> int \<Rightarrow> int \<times> int \<Rightarrow> int \<Rightarrow> hook_world \<Rightarrow> (conn_result \<times> hook_world) res"
where
  "answer_conn setfl rt sent fd w =
     bind_res (hooked_call setfl F_send fd sent w) (\<lambda>(r, w1).
     if r = None then Inr (Waiting, w1) else close_conn setfl rt fd True w1)"

partial_function (option) serve_loop ::
  "(u32 \<Rightarrow> u32 \<Rightarrow> u32) \<Rightarrow> int \<Rightarrow> (nat \<Rightarrow> int \<times> int) \<Rightarrow> int \<times> int \<Rightarrow> int \<Rightarrow> nat \<Rightarrow> hook_world
   \<Rightarrow> (conn_result \<times> hook_world) res option"
where
  "serve_loop setfl rt recvs sent fd i w =
     (case hooked_call setfl F_recv fd (recvs i) w of
        Inl e \<Rightarrow> Some (Inl e)
      | Inr (None, w1) \<Rightarrow> Some (Inr (Waiting, w1))
      | Inr (Some ret, w1) \<Rightarrow>
          if ret > 0 then Some (answer_conn setfl rt sent fd w1)
          else if ret = 0 \<or> hw_errno w1 \<noteq> EAGAIN then Some (close_conn setfl rt fd False w1)
          else serve_loop setfl rt recvs sent fd (Suc i) w1)"

text \<open>
  \<open>test_iomanager\<close> up to the destruction of \<open>iom\<close>: \<open>None\<close> where \<open>error\<close> ends the process. \<open>sock\<close>,
  \<open>b\<close> and \<open>lst\<close> are the answers to \<open>socket\<close>, \<open>bind\<close> and \<open>listen\<close>; \<open>new_iom\<close> is the construction of \<open>iom\<close>
  as \<open>new_iomanager\<close> has it, with 9 threads and the default of the other arguments.
\<close>

definition SO_REUSEADDR :: int where "SO_REUSEADDR = 2"

definition test_iomanager ::
  "(u32 \<Rightarrow> u32 \<Rightarrow> u32) \<Rightarrow> int \<Rightarrow> int \<Rightarrow> int \<Rightarrow> int
   \<Rightarrow> (u64 \<Rightarrow> bool \<Rightarrow> string \<Rightarrow> thread_locals \<Rightarrow> (iomanager \<times> thread_locals) res)
   \<Rightarrow> hook_world \<Rightarrow> (int \<times> hook_world) option res"
where
  "test_iomanager setfl sock b lst rt new_iom w =
     bind_res (hook_socket setfl sock w) (\<lambda>(sock_listen_fd, w1).
     if sock_listen_fd < 0 then Inr None
     else
       bind_res (hook_setsockopt setfl sock_listen_fd SOL_SOCKET SO_REUSEADDR 0 0 w1) (\<lambda>(_, w2).
       if b < 0 then Inr None
       else if lst < 0 then Inr None
       else
         bind_res (hook_fcntl setfl sock_listen_fd F_SETFL O_NONBLOCK w2) (\<lambda>(_, w3).
         bind_res (new_iom 9 True ''IOManager'' (hw_local w3)) (\<lambda>(iom, l).
         bind_res (addEvent rt sock_listen_fd READ (Some accept_cb) iom l) (\<lambda>(_, iom1, l1).
         Inr (Some (sock_listen_fd, put_iom iom1 (w3\<lparr>hw_local := l1\<rparr>))))))))"

section \<open>Facts\<close>

text \<open>
  A descriptor whose calls are handed to the original functions as they are: one the library does
  not know, or a socket, or one its user made non-blocking.
\<close>

definition forwarded :: "int \<Rightarrow> hook_world \<Rightarrow> bool" where
  "forwarded fd w \<longleftrightarrow> is_hook_enable w
     \<and> (case mgr_look fd w of
          None \<Rightarrow> True
        | Some p \<Rightarrow> \<not> m_isClosed (mgr_ctx p w) \<and> (m_isSocket (mgr_ctx p w) \<or> m_userNonblock (mgr_ctx p w)))"

lemma errno_sel [simp]:
  "is_hook_enable (w\<lparr>hw_errno := e\<rparr>) = is_hook_enable w" "mgr_look fd (w\<lparr>hw_errno := e\<rparr>) = mgr_look fd w"
  "mgr_ctx p (w\<lparr>hw_errno := e\<rparr>) = mgr_ctx p w" "this_iom (w\<lparr>hw_errno := e\<rparr>) = this_iom w"
  "touch_mgr (w\<lparr>hw_errno := e\<rparr>) = (touch_mgr w)\<lparr>hw_errno := e\<rparr>"
  by (simp_all add: is_hook_enable_def mgr_look_def mgr_ctx_def this_iom_def touch_mgr_def
      split: option.splits)

lemma forwarded_same [simp]:
  "forwarded fd (w\<lparr>hw_errno := e\<rparr>) = forwarded fd w" "forwarded fd (touch_mgr w) = forwarded fd w"
  by (simp_all add: forwarded_def split: option.splits)

lemma hooked_call_forwarded:
  "forwarded fd w \<Longrightarrow>
   hooked_call setfl f fd ans w = Inr (Some (fst ans), (touch_mgr w)\<lparr>hw_errno := snd ans\<rparr>)"
  by (auto simp: forwarded_def hooked_call_def io_enter_def do_io_enter_def mgr_get_look Let_def
      case_prod_beta split: option.splits)

text \<open>Registering a callback for reading.\<close>

definition reading :: "closure \<Rightarrow> thread_locals \<Rightarrow> event_context" where
  "reading cb l = \<lparr>ev_scheduler = t_scheduler l, ev_fiber = None, ev_cb = Some cb\<rparr>"

definition unread :: "int \<Rightarrow> ctx_ptr \<Rightarrow> iomanager \<Rightarrow> bool" where
  "unread fd p s \<longleftrightarrow> 0 \<le> fd \<and> nat fd < length (m_fdContexts s) \<and> m_fdContexts s ! nat fd = Some p
     \<and> ctx_event (ctxs s ! p) AND READ = 0"

text \<open>What \<open>addEvent\<close> works on: the manager, with its vector grown when \<open>fd\<close> is past the end.\<close>

definition made_room :: "int \<Rightarrow> iomanager \<Rightarrow> iomanager" where
  "made_room fd s =
     (if nat fd < length (m_fdContexts s) then s else contextResize (nat (fd * 3 div 2)) s)"

lemma fill_contexts_frame: "\<exists>v cs. fill_contexts i n s = s\<lparr>m_fdContexts := v, ctxs := cs\<rparr>"
proof (induction n arbitrary: i s)
  case 0
  show ?case by (intro exI [of _ "m_fdContexts s"] exI [of _ "ctxs s"]) simp
next
  case (Suc n)
  obtain v cs where "fill_contexts (Suc i) n (fill_one i s) = (fill_one i s)\<lparr>m_fdContexts := v, ctxs := cs\<rparr>"
    using Suc by blast
  then show ?case unfolding fill_contexts_Suc by (auto simp: fill_one_def)
qed

lemma contextResize_frame:
  "m_this (contextResize n s) = m_this s" "io_pipe_open (contextResize n s) = io_pipe_open s"
  using fill_contexts_frame [of 0 n "s\<lparr>m_fdContexts := resize_vector n (m_fdContexts s)\<rparr>"]
  by (auto simp: contextResize_def)

lemma fill_contexts_slot:
  "j < length (m_fdContexts s) \<Longrightarrow> m_fdContexts (fill_contexts i n s) ! j = m_fdContexts s ! j
     \<or> (\<exists>q\<ge>length (ctxs s). m_fdContexts (fill_contexts i n s) ! j = Some q)"
proof (induction n arbitrary: i s)
  case (Suc n)
  have j: "j < length (m_fdContexts (fill_one i s))" using Suc.prems by (simp add: fill_one_def)
  have c: "length (ctxs s) \<le> length (ctxs (fill_one i s))" by (simp add: fill_one_def)
  have "m_fdContexts (fill_one i s) ! j = m_fdContexts s ! j
      \<or> m_fdContexts (fill_one i s) ! j = Some (length (ctxs s))"
    using Suc.prems by (cases "i = j") (auto simp: fill_one_def)
  then show ?case
    unfolding fill_contexts_Suc using Suc.IH [OF j, of "Suc i"] c by fastforce
qed simp

text \<open>A place past the end gets a context of its own, with no event.\<close>

lemma contextResize_new:
  assumes "j < n" and "length (m_fdContexts s) \<le> j" and "iom_inv s"
  shows "\<exists>q. m_fdContexts (contextResize n s) ! j = Some q \<and> ctx_event (ctxs (contextResize n s) ! q) = NONE"
proof -
  let ?s0 = "s\<lparr>m_fdContexts := resize_vector n (m_fdContexts s)\<rparr>"
  have none: "m_fdContexts ?s0 ! j = None" using assms(1,2) by (simp add: resize_vector_nth)
  have "m_fdContexts (contextResize n s) ! j \<noteq> None" using contextResize_spec assms(1) by blast
  with none fill_contexts_slot [of j ?s0 0 n] assms(1) obtain q where
    q: "m_fdContexts (contextResize n s) ! j = Some q" "length (ctxs s) \<le> q"
    by (auto simp: contextResize_def)
  obtain cs where cs: "ctxs (contextResize n s) = ctxs s @ cs" "\<forall>c\<in>set cs. \<exists>fd. c = new_fd_context fd"
    using contextResize_spec by blast
  have "iom_inv (contextResize n s)" "length (m_fdContexts (contextResize n s)) = n"
    using contextResize_spec assms(3) by blast+
  then have "q < length (ctxs (contextResize n s))" using q(1) assms(1) by (auto simp: iom_inv_def)
  with cs q(2) have "ctxs (contextResize n s) ! q \<in> set cs" by (simp add: nth_append)
  with cs(2) q(1) show ?thesis by (auto simp: new_fd_context_def)
qed

lemma made_room_frame [simp]:
  "m_this (made_room fd s) = m_this s" "io_pipe_open (made_room fd s) = io_pipe_open s"
  "m_pendingEventCnt (made_room fd s) = m_pendingEventCnt s" "m_tasks (made_room fd s) = m_tasks s"
  using contextResize_spec by (simp_all add: made_room_def contextResize_frame)

lemma made_room_inv: "iom_inv s \<Longrightarrow> iom_inv (made_room fd s)"
  using contextResize_spec by (simp add: made_room_def)

lemma made_room_unread:
  assumes "iom_inv s" and "unread lfd p s" and "2 \<le> fd"
  shows "unread lfd p (made_room fd s)"
proof (cases "nat fd < length (m_fdContexts s)")
  case False
  let ?n = "nat (fd * 3 div 2)"
  have u: "nat lfd < length (m_fdContexts s)" "m_fdContexts s ! nat lfd = Some p" "p < length (ctxs s)"
    using assms(1,2) by (auto simp: unread_def iom_inv_def)
  have "fd < fd * 3 div 2" using assms(3) by presburger
  then have n: "nat lfd < ?n" using False u(1) by linarith
  obtain cs where "ctxs (contextResize ?n s) = ctxs s @ cs" using contextResize_spec by blast
  moreover have "m_fdContexts (contextResize ?n s) ! nat lfd = Some p"
      "length (m_fdContexts (contextResize ?n s)) = ?n"
    using contextResize_spec [of ?n s] n u(1,2) by auto
  ultimately show ?thesis using False n u(3) assms(2) by (simp add: unread_def made_room_def nth_append)
qed (use assms(2) in \<open>simp add: made_room_def\<close>)

text \<open>A descriptor with no event registered, or past the end of the vector.\<close>

definition unregistered_fd :: "int \<Rightarrow> iomanager \<Rightarrow> bool" where
  "unregistered_fd fd s \<longleftrightarrow> (nat fd < length (m_fdContexts s) \<longrightarrow>
     (\<exists>q. m_fdContexts s ! nat fd = Some q \<and> ctx_event (ctxs s ! q) = NONE))"

lemma made_room_slot:
  assumes "iom_inv s" and "2 \<le> fd" and "unregistered_fd fd s"
  obtains q where "unread fd q (made_room fd s)" "ctx_event (ctxs (made_room fd s) ! q) = NONE"
proof (cases "nat fd < length (m_fdContexts s)")
  case True
  then show thesis
    using that assms(2,3) by (auto simp: unregistered_fd_def made_room_def unread_def NONE_def)
next
  case False
  let ?n = "nat (fd * 3 div 2)"
  have "fd < fd * 3 div 2" using assms(2) by presburger
  then have n: "nat fd < ?n" using assms(2) by linarith
  moreover have "length (m_fdContexts (contextResize ?n s)) = ?n" using contextResize_spec by blast
  ultimately show thesis
    using that contextResize_new [OF n _ assms(1)] False assms(2)
    by (auto simp: made_room_def unread_def NONE_def)
qed

text \<open>What \<open>addEvent\<close> leaves, by the answer \<open>rt\<close> of \<open>epoll_ctl\<close>.\<close>

definition add_reading :: "int \<Rightarrow> ctx_ptr \<Rightarrow> int \<Rightarrow> closure \<Rightarrow> thread_locals \<Rightarrow> iomanager \<Rightarrow> iomanager" where
  "add_reading rt p fd cb l s = (if rt = 0 then registered p fd READ (reading cb l) s else s)"

lemma add_event_registers:
  assumes "this_iom w = Some s" and "iom_inv s" and "unread fd p (made_room fd s)"
    and "2 \<le> fd \<or> nat fd < length (m_fdContexts s)"
  shows "add_event rt fd READ cb w =
      Inr (put_iom (add_reading rt p fd cb (hw_local w) (made_room fd s)) w)"
proof -
  let ?s = "made_room fd s"
  have inv: "iom_inv ?s" by (rule made_room_inv [OF assms(2)])
  then have p: "p < length (ctxs ?s)" using assms(3) by (auto simp: iom_inv_def unread_def)
  have u: "0 \<le> fd" "nat fd < length (m_fdContexts ?s)" "m_fdContexts ?s ! nat fd = Some p"
      "ctx_event (ctxs ?s ! p) AND READ = 0"
    using assms(3) by (simp_all add: unread_def)
  have "addEvent_locked rt p fd READ (Some cb) ?s (hw_local w) =
      Inr (if rt = 0 then 0 else - 1, add_reading rt p fd cb (hw_local w) ?s, hw_local w)"
    using addEvent_locked_registers [OF inv p _ u(4), of "Some cb" "hw_local w" _ _ fd] p u(4)
    by (simp add: add_reading_def reading_def) (simp add: addEvent_locked_def ctx_at_def)
  moreover have "addEvent rt fd READ (Some cb) s (hw_local w) =
      addEvent_locked rt p fd READ (Some cb) ?s (hw_local w)"
  proof (cases "nat fd < length (m_fdContexts s)")
    case True
    with u show ?thesis by (simp add: addEvent_def made_room_def find_context_in)
  next
    case False
    then have "\<not> fd < int (length (m_fdContexts s))" using u(1) by linarith
    with False u have "find_context fd s = Inr None" "addEvent_resize fd s = Inr (p, ?s)"
      by (simp_all add: find_context_def addEvent_resize_def Let_def at_res_def made_room_def)
    then show ?thesis by (simp add: addEvent_def)
  qed
  ultimately show ?thesis
    using assms(1) by (simp add: add_event_def deref_def put_iom_def)
qed

lemma add_reading_inv:
  assumes "iom_inv s" and "unread fd p s"
  shows "iom_inv (add_reading rt p fd cb l s)"
proof -
  have "p < length (ctxs s)" "ctx_event (ctxs s ! p) AND READ = 0"
    using assms by (auto simp: iom_inv_def unread_def)
  then have "iom_inv (registered p fd READ (reading cb l) s)"
    by (intro iom_inv_registered [OF assms(1)]) (simp_all add: reading_def)
  then show ?thesis using assms(1) by (simp add: add_reading_def)
qed

lemma add_reading_frame [simp]:
  "m_this (add_reading rt p fd cb l s) = m_this s"
  "io_pipe_open (add_reading rt p fd cb l s) = io_pipe_open s"
  "m_tasks (add_reading rt p fd cb l s) = m_tasks s"
  "m_fdContexts (add_reading rt p fd cb l s) = m_fdContexts s"
  "m_pendingEventCnt (add_reading rt p fd cb l s) = m_pendingEventCnt s + (if rt = 0 then 1 else 0)"
  by (simp_all add: add_reading_def)

lemma registered_reading:
  assumes "iom_inv s" and "unread fd p s"
  shows "ctx_event (register READ (reading cb l) (ctxs s ! p)) AND READ \<noteq> 0"
    and "ctx_read (register READ (reading cb l) (ctxs s ! p)) = reading cb l"
    and "p < length (ctxs s)"
proof -
  show p: "p < length (ctxs s)" using assms by (auto simp: iom_inv_def unread_def)
  have "ctx_event (register READ (reading cb l) (ctxs s ! p)) = ctx_event (ctxs s ! p) OR READ"
    using iom_inv_ctx_ok [OF assms(1) p] assms(2)
    by (intro register_ok(4)) (simp_all add: reading_def unread_def)
  then show "ctx_event (register READ (reading cb l) (ctxs s ! p)) AND READ \<noteq> 0"
    by (simp add: mask_bits)
  show "ctx_read (register READ (reading cb l) (ctxs s ! p)) = reading cb l"
    by (simp add: register_def setEventContext_def)
qed

lemma unread_add_reading:
  assumes "iom_inv s" and "unread fd p s" and "unread fd' q s" and "fd \<noteq> fd'"
  shows "p \<noteq> q" and "unread fd p (add_reading rt q fd' cb l s)"
proof -
  have "ctx_fd (ctxs s ! p) = fd" "ctx_fd (ctxs s ! q) = fd'"
    using assms(1-3) by (auto simp: iom_inv_def unread_def)
  then show "p \<noteq> q" using assms(4) by auto
  then show "unread fd p (add_reading rt q fd' cb l s)"
    using assms(2) by (simp add: unread_def add_reading_def)
qed

text \<open>What becomes of a descriptor that \<open>accept\<close> returned.\<close>

lemma mgr_get_ok:
  assumes "2 \<le> fd"
  shows "\<exists>r w1. mgr_get setfl fd True w = Inr (r, w1)"
proof -
  have "nat fd < nat (fd * 3 div 2)" using assms by linarith
  then show ?thesis
    using assms by (auto simp: mgr_get_def fd_get_def get_create_def grown_table_def past_end_def
        case_prod_beta Let_def split: option.splits)
qed

lemma accepted_descriptor:
  assumes "2 \<le> fd" and "mgr_look fd w = None" and "k_stat (hw_kernel w) fd = Some True"
    and "sets_nonblock setfl" and "is_hook_enable w"
  shows "\<exists>w1 w2. accept_leave setfl fd w = Inr (fd, w1)
    \<and> hook_fcntl setfl fd F_SETFL O_NONBLOCK w1 = Inr (Set_flags, w2)
    \<and> forwarded fd w2 \<and> hw_iom w2 = hw_iom w \<and> hw_local w2 = hw_local w"
proof -
  obtain r w1 where g: "mgr_get setfl fd True w = Inr (r, w1)" using mgr_get_ok [OF assms(1)] by blast
  from mgr_get_create [OF g assms(2)] assms(1) obtain p where
    p: "mgr_look fd w1 = Some p" "mgr_ctx p w1 = fst (new_fd_ctx setfl fd (hw_kernel w))"
      "hw_local w1 = hw_local w" "hw_iom w1 = hw_iom w"
      "p < length (fdc_objs (fst (GetInstance (hw_fdmgr w1))))" by auto
  note n = new_socket_ctx [OF assms(3,4)]
  let ?u = "mgr_upd p (setUserNonblock (O_NONBLOCK AND O_NONBLOCK \<noteq> 0)) (touch_mgr w1)"
  have u: "mgr_look fd ?u = Some p" "mgr_ctx p ?u = setUserNonblock True (mgr_ctx p w1)"
    using p(1,5) by (simp_all add: mgr_look_def mgr_ctx_def mgr_upd_def touch_mgr_def GetInstance_def
        upd_fdc_def fdc_at_def fd_look_eq O_NONBLOCK_def)
  obtain k where f: "fcntl_setfl setfl fd O_NONBLOCK w1 = Inr (?u\<lparr>hw_kernel := k\<rparr>)"
    using p(1,2) n by (auto simp: fcntl_setfl_def mgr_get_look Let_def)
  have "mgr_look fd (?u\<lparr>hw_kernel := k\<rparr>) = Some p"
    using u(1) by (simp add: mgr_look_def fd_look_eq)
  moreover have "mgr_ctx p (?u\<lparr>hw_kernel := k\<rparr>) = setUserNonblock True (mgr_ctx p w1)"
    using u(2) by (simp add: mgr_ctx_def)
  ultimately have "forwarded fd (?u\<lparr>hw_kernel := k\<rparr>)"
    using p n assms(5) by (simp add: forwarded_def setUserNonblock_def is_hook_enable_def mgr_upd_def
        touch_mgr_def)
  then show ?thesis
    using g f p(3,4) assms(1) by (simp add: accept_leave_def hook_fcntl_def mgr_upd_def touch_mgr_def)
qed

text \<open>The handler's loop: it goes on exactly while there is nothing to read yet.\<close>

definition nothing_yet :: "int \<times> int \<Rightarrow> bool" where
  "nothing_yet ans \<longleftrightarrow> fst ans < 0 \<and> snd ans = EAGAIN"

lemma serve_loop_step:
  assumes "forwarded fd w"
  shows "serve_loop setfl rt recvs sent fd i w =
    (if nothing_yet (recvs i)
     then serve_loop setfl rt recvs sent fd (Suc i) ((touch_mgr w)\<lparr>hw_errno := EAGAIN\<rparr>)
     else Some (close_conn setfl rt fd (0 < fst (recvs i))
            ((touch_mgr w)\<lparr>hw_errno := (if 0 < fst (recvs i) then snd sent else snd (recvs i))\<rparr>)))"
  using assms by (subst serve_loop.simps) (auto simp: hooked_call_forwarded nothing_yet_def answer_conn_def)

lemma serve_loop_stops:
  assumes "forwarded fd w" and "\<not> nothing_yet (recvs k)" and "i \<le> k"
    and "\<forall>l. i \<le> l \<longrightarrow> l < k \<longrightarrow> nothing_yet (recvs l)"
  shows "serve_loop setfl rt recvs sent fd i w = Some (close_conn setfl rt fd (0 < fst (recvs k))
    ((touch_mgr w)\<lparr>hw_errno := (if 0 < fst (recvs k) then snd sent else snd (recvs k))\<rparr>))"
  using assms
proof (induction "k - i" arbitrary: i w)
  case 0
  then have "i = k" by simp
  with 0(3) show ?case by (simp add: serve_loop_step [OF 0(2)])
next
  case (Suc n)
  then have "nothing_yet (recvs i)" by simp
  moreover have "serve_loop setfl rt recvs sent fd (Suc i) ((touch_mgr w)\<lparr>hw_errno := EAGAIN\<rparr>) =
      Some (close_conn setfl rt fd (0 < fst (recvs k)) ((touch_mgr ((touch_mgr w)\<lparr>hw_errno := EAGAIN\<rparr>))
        \<lparr>hw_errno := (if 0 < fst (recvs k) then snd sent else snd (recvs k))\<rparr>))"
    using Suc by (intro Suc(1)) auto
  ultimately show ?case by (simp add: serve_loop_step [OF Suc(3)])
qed

lemma serve_loop_Some:
  "serve_loop setfl rt recvs sent fd i w = Some r \<Longrightarrow> forwarded fd w \<longrightarrow> (\<exists>k\<ge>i. \<not> nothing_yet (recvs k))"
proof (induction rule: serve_loop.raw_induct [rotated 1, consumes 1])
  case (1 serve setfl rt recvs sent fd i w r)
  show ?case
  proof (cases "nothing_yet (recvs i)")
    case True
    show ?thesis
    proof
      assume w: "forwarded fd w"
      have "serve setfl rt recvs sent fd (Suc i) ((touch_mgr w)\<lparr>hw_errno := EAGAIN\<rparr>) = Some r"
        using 1(2) True by (simp add: hooked_call_forwarded [OF w] nothing_yet_def)
      then obtain k where "Suc i \<le> k" "\<not> nothing_yet (recvs k)" using 1(1) w by fastforce
      then show "\<exists>k\<ge>i. \<not> nothing_yet (recvs k)" using Suc_leD by blast
    qed
  qed auto
qed

lemma closed_is_forgotten:
  assumes "close_conn setfl rt fd b w = Inr (r, w1)" and "is_hook_enable w"
  shows "r = Closed b \<and> mgr_look fd w1 = None"
proof (cases "mgr_look fd w")
  case None
  with assms show ?thesis
    by (auto simp: close_conn_def hook_close_def mgr_get_look)
next
  case (Some p)
  obtain v where v: "w1 = v\<lparr>hw_fdmgr := map_option (fd_del fd) (hw_fdmgr v)\<rparr>"
      "hw_fdmgr v = hw_fdmgr (touch_mgr w)" and r: "r = Closed b"
    using assms Some by (auto simp: close_conn_def hook_close_def mgr_get_look res_simps put_iom_def
        split: option.splits)
  have "slot fd (m_datas (fd_del fd m)) = None" for m
    using fd_look_closed [of fd fd "(m, undefined)"] by (simp add: fd_look_eq fd_close_def)
  then have "mgr_look fd w1 = None"
    by (simp add: v mgr_look_def fd_look_eq touch_mgr_def GetInstance_def)
  with r show ?thesis by simp
qed

text \<open>The two outcomes of the acceptor, in full.\<close>

lemma made_room_self: "unread fd p s \<Longrightarrow> made_room fd s = s"
  by (simp add: unread_def made_room_def)

lemma on_iom_put: "on_iom s w \<Longrightarrow> m_this s' = m_this s \<Longrightarrow> on_iom s' (put_iom s' w)"
  by (simp add: on_iom_def put_iom_def)

lemma add_event_again:
  assumes "on_iom s w" and "iom_inv s" and "unread fd p s"
  shows "add_event rt fd READ cb w = Inr (put_iom (add_reading rt p fd cb (hw_local w) s) w)"
  using add_event_registers [OF on_iom_this [OF assms(1)] assms(2), of fd p] assms(3)
  by (simp add: made_room_self) (simp add: unread_def)

lemma test_accept_nothing:
  assumes "on_iom s w" and "iom_inv s" and "forwarded lfd w" and "unread lfd p s" and "r < 0"
  shows "\<exists>w1. test_accept setfl lfd (r, e) rt1 rt2 w = Inr (True, w1)
    \<and> on_iom (add_reading rt2 p lfd accept_cb (hw_local w) s) w1"
proof -
  let ?w = "(touch_mgr w)\<lparr>hw_errno := e\<rparr>" and ?s = "add_reading rt2 p lfd accept_cb (hw_local w) s"
  have on: "on_iom s ?w" using assms(1) by (simp add: on_iom_def)
  have "add_event rt2 lfd READ accept_cb ?w = Inr (put_iom ?s ?w)"
    using add_event_again [OF on assms(2,4)] by simp
  moreover have "on_iom ?s (put_iom ?s ?w)" by (rule on_iom_put [OF on]) simp
  ultimately show ?thesis
    using assms(5) by (simp add: test_accept_def hooked_call_forwarded [OF assms(3)] accept_leave_def)
qed

lemma test_accept_connection:
  fixes rt1 rt2 :: int
  assumes "on_iom s w" and "iom_inv s" and "forwarded lfd w" and "unread lfd p s" and "sets_nonblock setfl"
    and "2 \<le> r" and "r \<noteq> lfd" and "unread r q (made_room r s)" and "mgr_look r w = None"
    and "k_stat (hw_kernel w) r = Some True"
  defines "s1 \<equiv> add_reading rt1 q r (conn_cb r) (hw_local w) (made_room r s)"
  defines "s2 \<equiv> add_reading rt2 p lfd accept_cb (hw_local w) s1"
  shows "\<exists>w1. test_accept setfl lfd (r, e) rt1 rt2 w = Inr (True, w1) \<and> on_iom s2 w1 \<and> forwarded r w1"
proof -
  have "is_hook_enable w" using assms(3) by (simp add: forwarded_def)
  then obtain w1 w2 where w2: "accept_leave setfl r ((touch_mgr w)\<lparr>hw_errno := e\<rparr>) = Inr (r, w1)"
      "hook_fcntl setfl r F_SETFL O_NONBLOCK w1 = Inr (Set_flags, w2)" "forwarded r w2"
      "hw_iom w2 = hw_iom w" "hw_local w2 = hw_local w"
    using accepted_descriptor [OF assms(6), of "(touch_mgr w)\<lparr>hw_errno := e\<rparr>" setfl] assms(5,9,10) by auto
  have on: "on_iom s w2" using assms(1) w2(4,5) by (simp add: on_iom_def)
  have on1: "on_iom s1 (put_iom s1 w2)" by (rule on_iom_put [OF on]) (simp add: s1_def)
  have a: "add_event rt1 r READ (conn_cb r) w2 = Inr (put_iom s1 w2)"
    using add_event_registers [OF on_iom_this [OF on] assms(2,8)] assms(6) w2(5) by (simp add: s1_def)
  have room: "iom_inv (made_room r s)" by (rule made_room_inv [OF assms(2)])
  have inv1: "iom_inv s1" unfolding s1_def by (rule add_reading_inv [OF room assms(8)])
  have u: "unread lfd p s1"
    unfolding s1_def
    by (rule unread_add_reading [OF room made_room_unread [OF assms(2,4,6)] assms(8) assms(7) [symmetric]])
  have "add_event rt2 lfd READ accept_cb (put_iom s1 w2) = Inr (put_iom s2 (put_iom s1 w2))"
    using add_event_again [OF on1 inv1 u] w2(5) by (simp add: s2_def put_iom_def)
  then have "test_accept setfl lfd (r, e) rt1 rt2 w = Inr (True, put_iom s2 (put_iom s1 w2))"
    using assms(6) w2(1,2) a by (simp add: test_accept_def hooked_call_forwarded [OF assms(3)])
  moreover have "on_iom s2 (put_iom s2 (put_iom s1 w2))" by (rule on_iom_put [OF on1]) (simp add: s2_def)
  moreover have "forwarded r (put_iom s2 (put_iom s1 w2))"
    using w2(3) by (simp add: put_iom_def forwarded_def is_hook_enable_def
        mgr_look_def mgr_ctx_def split: option.splits)
  ultimately show ?thesis by blast
qed

text \<open>A descriptor registered for reading only, by a thread of this manager, becomes readable.\<close>

lemma readable_runs_callback:
  assumes "iom_inv s" and "io_pipe_open s" and "q < length (ctxs s)" and "ctx_event (ctxs s ! q) = READ"
    and "ctx_read (ctxs s ! q) = reading cb l" and "t_scheduler l = Some (m_this s)"
  shows "\<exists>s'. idle_event 0 (delivery q EPOLLIN) s = Inr s'
    \<and> m_tasks s' = m_tasks s @ [cb_task (Some cb) (- 1)] \<and> (\<forall>p. p \<noteq> q \<longrightarrow> ctxs s' ! p = ctxs s ! p)"
proof -
  have r: "real_events EPOLLIN e = READ" for e
    by (simp add: real_events_def event_defs EPOLLIN_def EPOLLOUT_def EPOLLERR_def EPOLLHUP_def)
  have "READ AND NOT READ = 0" by simp
  then have "ready_event s q EPOLLIN"
    using assms(3-6) by (simp add: ready_event_def r reading_def)
  from idle_event_fires [OF assms(1) this assms(2) r] assms(5) show ?thesis
    by (auto simp: event_tasks_def event_task_def reading_def)
qed

text \<open>The acceptor after its second registration, and the first readiness of a connection.\<close>

lemma add_reading_again:
  assumes "iom_inv s" and "unread fd p s"
  shows "if rt = 0
    then ctx_event (ctxs (add_reading rt p fd cb l s) ! p) AND READ \<noteq> 0
      \<and> ev_cb (ctx_read (ctxs (add_reading rt p fd cb l s) ! p)) = Some cb
    else unread fd p (add_reading rt p fd cb l s)"
  using registered_reading [OF assms] assms(2) by (simp add: add_reading_def) (simp add: reading_def)

lemma connection_ready:
  fixes s :: iomanager
  assumes "on_iom s0 w" and "iom_inv s2" and "io_pipe_open s2" and "iom_inv s" and "unread r q s"
    and "ctx_event (ctxs s ! q) = NONE" and "m_this s2 = m_this s0" and "p \<noteq> q"
    and "ctxs s2 ! q = register READ (reading cb (hw_local w)) (ctxs s ! q)"
    and "length (ctxs s) \<le> length (ctxs s2)"
  shows "\<exists>s3. idle_event 0 (delivery q EPOLLIN) s2 = Inr s3
    \<and> m_tasks s3 = m_tasks s2 @ [cb_task (Some cb) (- 1)] \<and> ctxs s3 ! p = ctxs s2 ! p"
proof -
  note g = registered_reading [OF assms(4,5)]
  have "q < length (ctxs s2)" "ctx_event (ctxs s2 ! q) = READ"
      "ctx_read (ctxs s2 ! q) = reading cb (hw_local w)"
    using g(2,3) assms(6,9,10) by (simp_all add: register_def setEventContext_def)
  from readable_runs_callback [OF assms(2,3) this] assms(1,7,8) show ?thesis
    by (auto simp: on_iom_def)
qed

section \<open>Properties\<close>

text \<open>
  C31: the acceptor stays in place as long as \<open>epoll_ctl\<close> lets it. When it runs, its own registration
  having been used up, it ends with the listening descriptor registered for it again, whether
  \<open>accept\<close> gave a connection or not, unless \<open>epoll_ctl\<close> fails for it (\<open>rt2\<close>): then nobody is
  told, and it is registered no more. A connection, also one for which the vector of contexts has to
  grow, is registered for its handler unless \<open>epoll_ctl\<close> fails for it (\<open>rt1\<close>): as soon as it is
  readable, the idle fiber queues the handler once, and the acceptor's registration stays.
\<close>

theorem acceptor_keeps_listening:
  assumes "on_iom s w" and "iom_inv s" and "forwarded lfd w" and "unread lfd p s"
    and "sets_nonblock setfl" and "io_pipe_open s" and "r < 0 \<or> 2 \<le> r"
    and "0 \<le> r \<Longrightarrow> r \<noteq> lfd \<and> unregistered_fd r s \<and> mgr_look r w = None
           \<and> k_stat (hw_kernel w) r = Some True"
  shows "\<exists>w1 s1. test_accept setfl lfd (r, e) rt1 rt2 w = Inr (True, w1) \<and> on_iom s1 w1 \<and> iom_inv s1
    \<and> (if rt2 = 0
       then ctx_event (ctxs s1 ! p) AND READ \<noteq> 0 \<and> ev_cb (ctx_read (ctxs s1 ! p)) = Some accept_cb
       else unread lfd p s1)
    \<and> m_pendingEventCnt s1 = m_pendingEventCnt s + (if 0 \<le> r \<and> rt1 = 0 then 1 else 0)
        + (if rt2 = 0 then 1 else 0)
    \<and> (0 \<le> r \<longrightarrow> forwarded r w1
        \<and> (rt1 = 0 \<longrightarrow> (\<exists>q s2. m_fdContexts s1 ! nat r = Some q \<and> idle_event 0 (delivery q EPOLLIN) s1 = Inr s2
             \<and> m_tasks s2 = m_tasks s1 @ [cb_task (Some (conn_cb r)) (- 1)] \<and> ctxs s2 ! p = ctxs s1 ! p)))"
proof (cases "r < 0")
  case True
  let ?s1 = "add_reading rt2 p lfd accept_cb (hw_local w) s"
  obtain w1 where "test_accept setfl lfd (r, e) rt1 rt2 w = Inr (True, w1)" "on_iom ?s1 w1"
    using test_accept_nothing [OF assms(1-4) True] by blast
  then show ?thesis
    using True add_reading_inv [OF assms(2,4)] add_reading_again [OF assms(2,4)]
    by (intro exI [of _ w1] exI [of _ ?s1]) simp
next
  case False
  then have r: "2 \<le> r" and q: "r \<noteq> lfd" "unregistered_fd r s" "mgr_look r w = None"
      "k_stat (hw_kernel w) r = Some True"
    using assms(7,8) by auto
  let ?s = "made_room r s"
  obtain q where u: "unread r q ?s" "ctx_event (ctxs ?s ! q) = NONE"
    using made_room_slot [OF assms(2) r q(2)] .
  let ?s1 = "add_reading rt1 q r (conn_cb r) (hw_local w) ?s"
  let ?s2 = "add_reading rt2 p lfd accept_cb (hw_local w) ?s1"
  obtain w1 where w1: "test_accept setfl lfd (r, e) rt1 rt2 w = Inr (True, w1)" "on_iom ?s2 w1" "forwarded r w1"
    using test_accept_connection [OF assms(1-5) r q(1) u(1) q(3,4)] by blast
  have room: "iom_inv ?s" by (rule made_room_inv [OF assms(2)])
  note ul = unread_add_reading [OF room made_room_unread [OF assms(2,4) r] u(1) q(1) [symmetric]]
  have inv1: "iom_inv ?s1" by (rule add_reading_inv [OF room u(1)])
  have inv2: "iom_inv ?s2" by (rule add_reading_inv [OF inv1 ul(2)])
  have "\<exists>s3. idle_event 0 (delivery q EPOLLIN) ?s2 = Inr s3
      \<and> m_tasks s3 = m_tasks ?s2 @ [cb_task (Some (conn_cb r)) (- 1)] \<and> ctxs s3 ! p = ctxs ?s2 ! p"
    if "rt1 = 0"
    using ul(1) assms(6) that registered_reading(3) [OF room u(1)]
    by (intro connection_ready [OF assms(1) inv2 _ room u]) (simp_all add: add_reading_def)
  moreover have "m_fdContexts ?s2 ! nat r = Some q" using u(1) by (simp add: unread_def)
  ultimately show ?thesis
    using w1 inv2 r add_reading_again [OF inv1 ul(2)]
    by (intro exI [of _ w1] exI [of _ ?s2]) simp
qed

lemma ex_hook_server:
  "forwarded 1 ex_hook" "unread 0 0 ex_iom" "mgr_look fd ex_hook = None"
  by (simp_all add: forwarded_def ex_hook_def is_hook_enable_def ex_locals_def mgr_look_def GetInstance_def
      fd_look_eq slot_def new_fd_manager_def unread_def new_fd_context_def)

text \<open>The manager of the example with room for four descriptors.\<close>

definition ex_iom4 :: iomanager where
  "ex_iom4 = contextResize 4 ex_iom"

lemma ex_iom4_sel:
  "m_fdContexts ex_iom4 = [Some 0, Some 1, Some 2, Some 3]"
  "ctxs ex_iom4 = ctxs ex_iom @ [new_fd_context 2, new_fd_context 3]"
  "m_this ex_iom4 = 1" "io_pipe_open ex_iom4" "m_tasks ex_iom4 = []"
  by (simp_all add: ex_iom4_def contextResize_def resize_vector_def eval_nat_numeral)

theorem acceptor_keeps_listening_witness:
  "\<exists>w1 s1 q s2. test_accept (\<lambda>old v. v) 0 (3, 0) 0 0 (put_iom ex_iom4 ex_hook) = Inr (True, w1)
     \<and> hw_iom w1 = Some s1 \<and> idle_event 0 (delivery q EPOLLIN) s1 = Inr s2
     \<and> m_tasks s2 = m_tasks s1 @ [cb_task (Some (conn_cb 3)) (- 1)]"
proof -
  let ?w = "put_iom ex_iom4 ex_hook"
  have on: "on_iom ex_iom4 ?w" and fwd: "forwarded 0 ?w" and look: "mgr_look 3 ?w = None"
    using ex_hook_on(1) ex_hook_server(1,3) ex_iom4_sel(3)
    by (simp_all add: on_iom_def put_iom_def forwarded_def mgr_look_def is_hook_enable_def)
  have inv: "iom_inv ex_iom4"
    unfolding ex_iom4_def using contextResize_spec ex_iom_inv by blast
  have un: "unread 0 0 ex_iom4" "unregistered_fd 3 ex_iom4" "m_fdContexts ex_iom4 ! nat 3 = Some 3"
    by (simp_all add: unread_def unregistered_fd_def ex_iom4_sel new_fd_context_def eval_nat_numeral)
  have "k_stat (hw_kernel ?w) 3 = Some True"
    using ex_hook_facts(4) by (simp add: put_iom_def)
  then show ?thesis
    using acceptor_keeps_listening [OF on inv fwd un(1) ex_hook_facts(1) ex_iom4_sel(4), of 3 0 0 0] un(2,3) look
    by (auto simp: on_iom_def)
qed

text \<open>
  C32: a connection is answered or dropped, and closed once, or its handler never ends. \<open>recv\<close> on it
  never waits, so the handler asks again and again while the answer is \<open>EAGAIN\<close>, without ever
  giving up the thread; at the first other answer it sends the response if there was a request,
  and closes. A closed descriptor is forgotten by the library.
\<close>

theorem connection_closed_once_or_never:
  assumes "forwarded fd w"
  shows "(serve_loop setfl rt recvs sent fd 0 w = None \<longleftrightarrow> (\<forall>k. nothing_yet (recvs k)))
    \<and> (\<forall>k. (\<forall>l<k. nothing_yet (recvs l)) \<and> \<not> nothing_yet (recvs k) \<longrightarrow>
         serve_loop setfl rt recvs sent fd 0 w = Some (close_conn setfl rt fd (0 < fst (recvs k))
           ((touch_mgr w)\<lparr>hw_errno := (if 0 < fst (recvs k) then snd sent else snd (recvs k))\<rparr>)))
    \<and> (\<forall>r w1. serve_loop setfl rt recvs sent fd 0 w = Some (Inr (r, w1)) \<longrightarrow>
         r \<noteq> Waiting \<and> mgr_look fd w1 = None)"
proof -
  have stops: "serve_loop setfl rt recvs sent fd 0 w = Some (close_conn setfl rt fd (0 < fst (recvs k))
       ((touch_mgr w)\<lparr>hw_errno := (if 0 < fst (recvs k) then snd sent else snd (recvs k))\<rparr>))"
    if "\<forall>l<k. nothing_yet (recvs l)" "\<not> nothing_yet (recvs k)" for k
    using serve_loop_stops [where recvs = recvs and k = k and i = 0, OF assms that(2)] that(1) by simp
  have first: "\<exists>k. (\<forall>l<k. nothing_yet (recvs l)) \<and> \<not> nothing_yet (recvs k)"
    if "\<not> (\<forall>k. nothing_yet (recvs k))"
    using that exists_least_iff [of "\<lambda>k. \<not> nothing_yet (recvs k)"] by blast
  have never: "serve_loop setfl rt recvs sent fd 0 w = None" if "\<forall>k. nothing_yet (recvs k)"
    using serve_loop_Some [of setfl rt recvs sent fd 0 w] assms that by (meson not_Some_eq)
  have "r \<noteq> Waiting \<and> mgr_look fd w1 = None"
    if *: "serve_loop setfl rt recvs sent fd 0 w = Some (Inr (r, w1))" for r w1
  proof -
    have "\<not> (\<forall>k. nothing_yet (recvs k))" using never * by auto
    then obtain k where k: "\<forall>l<k. nothing_yet (recvs l)" "\<not> nothing_yet (recvs k)"
      using first by blast
    have "close_conn setfl rt fd (0 < fst (recvs k)) ((touch_mgr w)\<lparr>hw_errno :=
        (if 0 < fst (recvs k) then snd sent else snd (recvs k))\<rparr>) = Inr (r, w1)"
      using stops [OF k] * by simp
    from closed_is_forgotten [OF this] assms show ?thesis by (simp add: forwarded_def)
  qed
  with stops first never show ?thesis by (metis option.distinct(1))
qed

theorem connection_closed_once_or_never_witness:
  "serve_loop (\<lambda>old v. v) 0 (\<lambda>_. (- 1, EAGAIN)) (0, 0) 1 0 ex_hook = None
   \<and> serve_loop (\<lambda>old v. v) 0 (\<lambda>i. if i = 0 then (- 1, EAGAIN) else (5, 0)) (120, 0) 1 0 ex_hook =
       Some (close_conn (\<lambda>old v. v) 0 1 True ((touch_mgr ex_hook)\<lparr>hw_errno := 0\<rparr>))"
proof
  note t = connection_closed_once_or_never [OF ex_hook_server(1), where setfl = "\<lambda>old v. v" and rt = 0]
  show "serve_loop (\<lambda>old v. v) 0 (\<lambda>_. (- 1, EAGAIN)) (0, 0) 1 0 ex_hook = None"
    using t [where recvs = "\<lambda>_. (- 1, EAGAIN)" and sent = "(0, 0)"] by (simp add: nothing_yet_def)
  show "serve_loop (\<lambda>old v. v) 0 (\<lambda>i. if i = 0 then (- 1, EAGAIN) else (5, 0)) (120, 0) 1 0 ex_hook =
      Some (close_conn (\<lambda>old v. v) 0 1 True ((touch_mgr ex_hook)\<lparr>hw_errno := 0\<rparr>))"
    using t [where recvs = "\<lambda>i. if i = 0 then (- 1, EAGAIN) else (5, 0)" and sent = "(120, 0)",
        THEN conjunct2, THEN conjunct1, THEN spec, of 1] by (simp add: nothing_yet_def)
qed

end
