(* ===== verification/Benchmark_Servers.thy ===== *)
theory Benchmark_Servers
  imports Prelude
begin

text \<open>
  \<open>epoll/main.cpp\<close> and \<open>libevent/main.cpp\<close>: the two HTTP servers that the library is compared with.
  They use no part of the library but face the same system. A program is a function of what the
  system and \<open>libevent\<close> answer to its calls, in the order of the calls, and keeps a log of the
  calls it made. \<open>perror\<close> is left out.
\<close>

section \<open>Calls and answers\<close>

datatype event_cb = Accept_conn_cb | Http_read_cb

datatype call =
    C_socket
  | C_setsockopt int
  | C_bind int nat                     \<comment> \<open>with the port\<close>
  | C_listen int nat
  | C_accept int
  | C_read int nat                     \<comment> \<open>at most so many bytes\<close>
  | C_write int string
  | C_recv int nat
  | C_send int string
  | C_close int
  | C_epoll_create
  | C_epoll_add int int                \<comment> \<open>\<open>epoll_ctl(epollFd, EPOLL_CTL_ADD, fd, EPOLLIN)\<close>\<close>
  | C_epoll_del int int
  | C_epoll_wait int nat int
  | C_make_nonblocking int
  | C_event_base_new
  | C_event_new int int "event_cb option"
  | C_event_assign int int int event_cb
  | C_event_add int
  | C_event_free int
  | C_event_base_dispatch int
  | C_event_base_free int

text \<open>What a call returns (pointers as numbers), and the descriptors \<open>epoll_wait\<close> reports.\<close>

record answer =
  ret :: int
  ready :: "int list"

type_synonym answers = "nat \<Rightarrow> answer"

definition sys :: "answers \<Rightarrow> call \<Rightarrow> call list \<Rightarrow> int \<times> call list" where
  "sys ans c l = (ret (ans (length l)), l @ [c])"

definition tell :: "call \<Rightarrow> call list \<Rightarrow> call list" where
  "tell c l = l @ [c]"

section \<open>The responses\<close>

definition crlf :: string where "crlf = [CHR 0x0D, CHR 0x0A]"

definition epoll_response :: string where
  "epoll_response = ''HTTP/1.1 200 OK'' @ crlf @ ''Content-Type: text/plain'' @ crlf
     @ ''Content-Length: 1'' @ crlf @ ''Connection: keep-alive'' @ crlf @ crlf @ ''1''"

definition libevent_response :: string where
  "libevent_response = ''HTTP/1.1 200 OK'' @ crlf @ ''Content-Type: text/plain'' @ crlf
     @ ''Content-Length: 1'' @ crlf @ ''Connection: keep-alive'' @ crlf @ crlf @ ''Hello, World!''"

section \<open>The epoll server\<close>

definition PORT :: nat where "PORT = 8080"
definition MAX_EVENTS :: nat where "MAX_EVENTS = 5000"
definition BUFSIZE :: nat where "BUFSIZE = 1024"

text \<open>\<open>main\<close> up to its loop: \<open>None\<close> where it returns \<open>- 1\<close>, else \<open>listenFd\<close> and \<open>epollFd\<close>.\<close>

definition epoll_setup :: "answers \<Rightarrow> call list \<Rightarrow> (int \<times> int) option \<times> call list" where
  "epoll_setup ans l =
     (let (listenFd, l) = sys ans C_socket l
      in if listenFd = - 1 then (None, l)
         else let (_, l) = sys ans (C_setsockopt listenFd) l;
                  (rt, l) = sys ans (C_bind listenFd PORT) l
         in if rt = - 1 then (None, l)
         else let (rt, l) = sys ans (C_listen listenFd 1024) l
         in if rt = - 1 then (None, l)
         else let (epollFd, l) = sys ans C_epoll_create l
         in if epollFd = - 1 then (None, l)
         else let (rt, l) = sys ans (C_epoll_add epollFd listenFd) l
         in if rt = - 1 then (None, l) else (Some (listenFd, epollFd), l))"

text \<open>One event of the array; \<open>False\<close> where \<open>main\<close> returns \<open>- 1\<close>.\<close>

definition handle_event :: "answers \<Rightarrow> int \<Rightarrow> int \<Rightarrow> int \<Rightarrow> call list \<Rightarrow> bool \<times> call list" where
  "handle_event ans epollFd listenFd fd l =
     (if fd = listenFd then
        let (connFd, l) = sys ans (C_accept listenFd) l
        in if connFd = - 1 then (True, l)
           else let (rt, l) = sys ans (C_epoll_add epollFd connFd) l in (rt \<noteq> - 1, l)
      else
        let (len, l) = sys ans (C_read fd (BUFSIZE - 1)) l
        in if len \<le> 0 then (True, tell (C_close fd) l)
           else (True, tell (C_close fd) (tell (C_epoll_del epollFd fd) (tell (C_write fd epoll_response) l))))"

fun handle_events :: "answers \<Rightarrow> int \<Rightarrow> int \<Rightarrow> int list \<Rightarrow> call list \<Rightarrow> bool \<times> call list" where
  "handle_events ans epollFd listenFd [] l = (True, l)"
| "handle_events ans epollFd listenFd (fd # fds) l =
     (let (ok, l) = handle_event ans epollFd listenFd fd l
      in if ok then handle_events ans epollFd listenFd fds l else (False, l))"

text \<open>One turn of \<open>while (1)\<close>, and the loop, which need not end.\<close>

definition epoll_round :: "answers \<Rightarrow> int \<Rightarrow> int \<Rightarrow> call list \<Rightarrow> bool \<times> call list" where
  "epoll_round ans epollFd listenFd l =
     (let (rt, l1) = sys ans (C_epoll_wait epollFd MAX_EVENTS (- 1)) l
      in if rt = - 1 then (False, l1)
         else handle_events ans epollFd listenFd (take (nat rt) (ready (ans (length l)))) l1)"

partial_function (option) epoll_loop ::
  "answers \<Rightarrow> int \<Rightarrow> int \<Rightarrow> call list \<Rightarrow> (int \<times> call list) option"
where
  "epoll_loop ans epollFd listenFd l =
     (let r = epoll_round ans epollFd listenFd l
      in if fst r then epoll_loop ans epollFd listenFd (snd r) else Some (- 1, snd r))"

definition epoll_main :: "answers \<Rightarrow> (int \<times> call list) option" where
  "epoll_main ans =
     (case epoll_setup ans [] of
        (None, l) \<Rightarrow> Some (- 1, l)
      | (Some (listenFd, epollFd), l) \<Rightarrow> epoll_loop ans epollFd listenFd l)"

section \<open>The libevent server\<close>

definition FD_SETSIZE :: int where "FD_SETSIZE = 1024"

definition http_read_cb :: "answers \<Rightarrow> int \<Rightarrow> int \<Rightarrow> call list \<Rightarrow> call list" where
  "http_read_cb ans fd arg l =
     (let (len, l) = sys ans (C_recv fd (1024 - 1)) l
      in if len \<le> 0 then tell (C_event_free arg) (tell (C_close fd) l)
         else tell (C_event_free arg) (tell (C_close fd) (tell (C_send fd libevent_response) l)))"

definition accept_conn_cb :: "answers \<Rightarrow> int \<Rightarrow> int \<Rightarrow> call list \<Rightarrow> call list" where
  "accept_conn_cb ans listener base l =
     (let (fd, l) = sys ans (C_accept listener) l
      in if fd < 0 then l
         else if fd > FD_SETSIZE then tell (C_close fd) l
         else let (ev, l) = sys ans (C_event_new 0 (- 1) None) l
              in tell (C_event_add ev) (tell (C_event_assign ev base fd Http_read_cb) l))"

text \<open>\<open>main\<close>; \<open>event_base_dispatch\<close> calls the callbacks and may never return.\<close>

definition libevent_setup :: "answers \<Rightarrow> call list \<Rightarrow> (int \<times> int \<times> int) option \<times> call list" where
  "libevent_setup ans l =
     (let (listener, l) = sys ans C_socket l
      in if listener < 0 then (None, l)
         else let l = tell (C_setsockopt listener) (tell (C_make_nonblocking listener) l);
                  (rt, l) = sys ans (C_bind listener PORT) l
         in if rt < 0 then (None, l)
         else let (rt, l) = sys ans (C_listen listener 1024) l
         in if rt < 0 then (None, l)
         else let (base, l) = sys ans C_event_base_new l;
                  (listener_event, l) = sys ans (C_event_new base listener (Some Accept_conn_cb)) l
         in (Some (listener, base, listener_event), tell (C_event_add listener_event) l))"

definition libevent_main :: "answers \<Rightarrow> (call list \<Rightarrow> call list) \<Rightarrow> int \<times> call list" where
  "libevent_main ans dispatch =
     (case libevent_setup ans [] of
        (None, l) \<Rightarrow> (- 1, l)
      | (Some (listener, base, listener_event), l) \<Rightarrow>
          (0, tell (C_close listener) (tell (C_event_base_free base) (tell (C_event_free listener_event)
                (dispatch (tell (C_event_base_dispatch base) l))))))"

section \<open>What the kernel makes of the calls\<close>

text \<open>
  The open descriptors and those \<open>epoll\<close> watches, from the calls and their answers; closing a
  descriptor takes it out of \<open>epoll\<close> as well.
\<close>

type_synonym fd_sets = "int set \<times> int set"

fun effect :: "answer \<Rightarrow> call \<Rightarrow> fd_sets \<Rightarrow> fd_sets" where
  "effect a C_socket (op, wa) = (if ret a = - 1 then (op, wa) else (insert (ret a) op, wa))"
| "effect a C_epoll_create (op, wa) = (if ret a = - 1 then (op, wa) else (insert (ret a) op, wa))"
| "effect a (C_accept _) (op, wa) = (if ret a = - 1 then (op, wa) else (insert (ret a) op, wa))"
| "effect a (C_epoll_add _ fd) (op, wa) = (if ret a = - 1 then (op, wa) else (op, insert fd wa))"
| "effect a (C_epoll_del _ fd) (op, wa) = (if ret a = - 1 then (op, wa) else (op, wa - {fd}))"
| "effect a (C_close fd) (op, wa) = (op - {fd}, wa - {fd})"
| "effect a _ s = s"

definition fds_after :: "answers \<Rightarrow> call list \<Rightarrow> fd_sets" where
  "fds_after ans l = fold (\<lambda>n. effect (ans n) (l ! n)) [0..<length l] ({}, {})"

text \<open>
  What the manual pages promise of the answers: a new descriptor is not one that is open, and
  \<open>epoll_wait\<close> reports watched descriptors, each once.
\<close>

fun answer_ok :: "answer \<Rightarrow> call \<Rightarrow> fd_sets \<Rightarrow> bool" where
  "answer_ok a C_socket (op, wa) = (ret a \<notin> op)"
| "answer_ok a C_epoll_create (op, wa) = (ret a \<notin> op)"
| "answer_ok a (C_accept _) (op, wa) = (ret a \<notin> op)"
| "answer_ok a (C_epoll_wait _ _ _) (op, wa) =
     (let fds = take (nat (ret a)) (ready a) in distinct fds \<and> (\<forall>fd\<in>set fds. fd \<in> wa))"
| "answer_ok a _ s = True"

definition kernel_ok :: "answers \<Rightarrow> call list \<Rightarrow> bool" where
  "kernel_ok ans l \<longleftrightarrow> (\<forall>n < length l. answer_ok (ans n) (l ! n) (fds_after ans (take n l)))"

text \<open>The connections that were accepted and have not been reported by \<open>epoll_wait\<close> since.\<close>

fun track :: "answer \<Rightarrow> call \<Rightarrow> int set \<Rightarrow> int set" where
  "track a (C_accept _) U = (if ret a = - 1 then U else insert (ret a) U)"
| "track a (C_epoll_wait _ _ _) U = U - set (take (nat (ret a)) (ready a))"
| "track a _ U = U"

definition unserved :: "answers \<Rightarrow> call list \<Rightarrow> int set" where
  "unserved ans l = fold (\<lambda>n. track (ans n) (l ! n)) [0..<length l] {}"

lemma fds_after_Nil [simp]: "fds_after ans [] = ({}, {})"
  by (simp add: fds_after_def)

lemma fds_after_snoc [simp]: "fds_after ans (l @ [c]) = effect (ans (length l)) c (fds_after ans l)"
proof -
  have "fold (\<lambda>n. effect (ans n) ((l @ [c]) ! n)) [0..<length l] s = fold (\<lambda>n. effect (ans n) (l ! n)) [0..<length l] s" for s
    by (rule fold_cong) (simp_all add: nth_append)
  then show ?thesis by (simp add: fds_after_def)
qed

lemma unserved_Nil [simp]: "unserved ans [] = {}"
  by (simp add: unserved_def)

lemma unserved_snoc [simp]: "unserved ans (l @ [c]) = track (ans (length l)) c (unserved ans l)"
proof -
  have "fold (\<lambda>n. track (ans n) ((l @ [c]) ! n)) [0..<length l] s = fold (\<lambda>n. track (ans n) (l ! n)) [0..<length l] s" for s
    by (rule fold_cong) (simp_all add: nth_append)
  then show ?thesis by (simp add: unserved_def)
qed

lemma kernel_ok_snoc [simp]:
  "kernel_ok ans (l @ [c]) \<longleftrightarrow> kernel_ok ans l \<and> answer_ok (ans (length l)) c (fds_after ans l)"
  by (auto simp: kernel_ok_def less_Suc_eq nth_append)

lemmas call_defs = sys_def tell_def Let_def

section \<open>The epoll server keeps to its connections\<close>

text \<open>
  Within a turn, with the connections \<open>R\<close> reported and still to be served: \<open>epoll\<close> watches the
  listening descriptor, the unserved connections and those of \<open>R\<close>, and nothing else is open but
  the descriptor of \<open>epoll\<close> itself.
\<close>

definition in_round :: "answers \<Rightarrow> int \<Rightarrow> int \<Rightarrow> int set \<Rightarrow> call list \<Rightarrow> bool" where
  "in_round ans ep lfd R l \<longleftrightarrow> (let S = insert lfd (unserved ans l \<union> R) in
     fds_after ans l = (insert ep S, S) \<and> ep \<notin> S \<and> lfd \<notin> unserved ans l \<union> R \<and> unserved ans l \<inter> R = {})"

lemma handle_event_log:
  "handle_event ans ep lfd fd l = (b, l') \<Longrightarrow> kernel_ok ans l' \<Longrightarrow> kernel_ok ans l"
  by (auto simp: handle_event_def call_defs simp del: append_assoc split: if_splits)

lemma handle_events_log:
  "handle_events ans ep lfd fds l = (b, l') \<Longrightarrow> kernel_ok ans l' \<Longrightarrow> kernel_ok ans l"
proof (induction ans ep lfd fds l rule: handle_events.induct)
  case (2 ans ep lfd fd fds l)
  obtain ok l1 where h: "handle_event ans ep lfd fd l = (ok, l1)" by fastforce
  then have "kernel_ok ans l1" using 2 by (cases ok) auto
  then show ?case by (rule handle_event_log [OF h])
qed simp

lemma served_connection:
  assumes "handle_event ans ep lfd fd l = (True, l')" and "fd \<noteq> lfd" and "fds_after ans l = (op, wa)"
  shows "fds_after ans l' = (op - {fd}, wa - {fd})" and "unserved ans l' = unserved ans l"
  using assms by (auto simp: handle_event_def call_defs simp del: append_assoc split: if_splits)

lemma handle_event_in_round:
  assumes "in_round ans ep lfd R l" and "fd = lfd \<or> fd \<in> R"
    and "handle_event ans ep lfd fd l = (True, l')" and "kernel_ok ans l'"
  shows "in_round ans ep lfd (R - {fd}) l'"
proof (cases "fd = lfd")
  case True
  then have "R - {fd} = R" using assms(1) by (auto simp: in_round_def Let_def)
  with True show ?thesis
    using assms by (cases "ret (ans (length l)) = - 1")
      (auto simp: handle_event_def call_defs in_round_def simp del: append_assoc)
next
  case False
  let ?U = "unserved ans l" and ?S = "insert lfd (unserved ans l \<union> R)"
  have r: "fds_after ans l = (insert ep ?S, ?S)" "ep \<notin> ?S" "lfd \<notin> ?U \<union> R" "?U \<inter> R = {}" "fd \<in> R"
    using assms(1,2) False by (simp_all add: in_round_def Let_def)
  note served = served_connection [OF assms(3) False r(1)]
  moreover have "insert ep ?S - {fd} = insert ep (insert lfd (?U \<union> (R - {fd})))"
      "?S - {fd} = insert lfd (?U \<union> (R - {fd}))"
    using r(2-5) by auto
  ultimately show ?thesis using r(2-4) by (simp add: in_round_def Let_def) blast
qed

lemma handle_events_in_round:
  assumes "in_round ans ep lfd (set fds - {lfd}) l" and "distinct fds"
    and "handle_events ans ep lfd fds l = (True, l')" and "kernel_ok ans l'"
  shows "in_round ans ep lfd {} l'"
  using assms
proof (induction fds arbitrary: l)
  case (Cons fd fds)
  obtain ok l1 where h: "handle_event ans ep lfd fd l = (ok, l1)" by fastforce
  with Cons.prems(3) have "ok" and r: "handle_events ans ep lfd fds l1 = (True, l')" by (auto split: if_splits)
  then have h: "handle_event ans ep lfd fd l = (True, l1)" using h by simp
  have "in_round ans ep lfd (set (fd # fds) - {lfd} - {fd}) l1"
    by (rule handle_event_in_round [OF Cons.prems(1) _ h handle_events_log [OF r Cons.prems(4)]]) auto
  moreover have "set (fd # fds) - {lfd} - {fd} = set fds - {lfd}" using Cons.prems(2) by auto
  ultimately show ?case using Cons.IH [OF _ _ r Cons.prems(4)] Cons.prems(2) by simp
qed simp

lemma epoll_round_in_round:
  assumes "in_round ans ep lfd {} l" and "epoll_round ans ep lfd l = (True, l')" and "kernel_ok ans l'"
  shows "in_round ans ep lfd {} l'"
proof -
  let ?l1 = "l @ [C_epoll_wait ep MAX_EVENTS (- 1)]"
  let ?fds = "take (nat (ret (ans (length l)))) (ready (ans (length l)))"
  have r: "handle_events ans ep lfd ?fds ?l1 = (True, l')"
    using assms(2) by (simp add: epoll_round_def call_defs split: if_splits)
  have "kernel_ok ans ?l1" by (rule handle_events_log [OF r assms(3)])
  then have d: "distinct ?fds" "set ?fds \<subseteq> insert lfd (unserved ans l)"
    using assms(1) by (auto simp: in_round_def Let_def)
  moreover have "lfd \<notin> unserved ans l" using assms(1) by (simp add: in_round_def Let_def)
  ultimately have "unserved ans ?l1 \<union> (set ?fds - {lfd}) = unserved ans l" by auto
  then have "in_round ans ep lfd (set ?fds - {lfd}) ?l1"
    using assms(1) unfolding in_round_def Let_def by auto
  from handle_events_in_round [OF this d(1) r assms(3)] show ?thesis .
qed

text \<open>The server after so many turns of its loop, if it has not returned.\<close>

fun rounds :: "answers \<Rightarrow> int \<Rightarrow> int \<Rightarrow> nat \<Rightarrow> call list \<Rightarrow> call list option" where
  "rounds ans ep lfd 0 l = Some l"
| "rounds ans ep lfd (Suc n) l =
     (let (ok, l1) = epoll_round ans ep lfd l in if ok then rounds ans ep lfd n l1 else None)"

text \<open>The log of one event, and what of it concerns a connection.\<close>

definition serve_log :: "int \<Rightarrow> int \<Rightarrow> int \<Rightarrow> call list" where
  "serve_log ep fd len = C_read fd (BUFSIZE - 1) #
     (if len \<le> 0 then [C_close fd] else [C_write fd epoll_response, C_epoll_del ep fd, C_close fd])"

lemma handle_event_connection:
  "fd \<noteq> lfd \<Longrightarrow> handle_event ans ep lfd fd l = (True, l @ serve_log ep fd (ret (ans (length l))))"
  by (simp add: handle_event_def call_defs serve_log_def)

definition ours :: "int \<Rightarrow> call \<Rightarrow> bool" where
  "ours fd c \<longleftrightarrow> c = C_read fd (BUFSIZE - 1) \<or> c = C_write fd epoll_response \<or> c = C_close fd"

lemma handle_event_other:
  "handle_event ans ep lfd fd l = (b, l') \<Longrightarrow> fd' \<noteq> fd \<Longrightarrow> \<exists>seg. l' = l @ seg \<and> filter (ours fd') seg = []"
  by (auto simp: handle_event_def call_defs ours_def split: if_splits)

lemma handle_events_connection:
  assumes "handle_events ans ep lfd fds l = (True, l')" and "distinct fds" and "lfd \<noteq> fd"
  shows "\<exists>seg. l' = l @ seg \<and> (if fd \<in> set fds
     then \<exists>k. length l \<le> k \<and> k < length l' \<and> l' ! k = C_read fd (BUFSIZE - 1)
       \<and> filter (ours fd) seg = filter (ours fd) (serve_log ep fd (ret (ans k)))
     else filter (ours fd) seg = [])"
  using assms
proof (induction fds arbitrary: l)
  case (Cons g fds)
  obtain ok l1 where h: "handle_event ans ep lfd g l = (ok, l1)" by fastforce
  with Cons.prems(1) have "ok" and r: "handle_events ans ep lfd fds l1 = (True, l')" by (auto split: if_splits)
  obtain seg where seg: "l' = l1 @ seg" "if fd \<in> set fds
     then \<exists>k. length l1 \<le> k \<and> k < length l' \<and> l' ! k = C_read fd (BUFSIZE - 1)
       \<and> filter (ours fd) seg = filter (ours fd) (serve_log ep fd (ret (ans k)))
     else filter (ours fd) seg = []"
    using Cons.IH [OF r] Cons.prems(2,3) by auto
  show ?case
  proof (cases "fd = g")
    case True
    then have l1: "l1 = l @ serve_log ep fd (ret (ans (length l)))"
      using h handle_event_connection [of fd lfd ans ep l] Cons.prems(3) by auto
    have "fd \<notin> set fds" using Cons.prems(2) True by simp
    with seg(2) have "filter (ours fd) seg = []" by simp
    moreover have "l' ! length l = C_read fd (BUFSIZE - 1)" "length l < length l'"
      using seg(1) l1 by (simp_all add: serve_log_def nth_append)
    ultimately show ?thesis
      using True seg(1) l1 by (intro exI [of _ "serve_log ep fd (ret (ans (length l))) @ seg"]) auto
  next
    case False
    then obtain seg1 where "l1 = l @ seg1" "filter (ours fd) seg1 = []"
      using handle_event_other [OF h] by blast
    with seg False show ?thesis
      by (intro exI [of _ "seg1 @ seg"]) (auto split: if_splits dest: add_leD1)
  qed
qed simp

text \<open>
  The calls whose failure \<open>main\<close> must not survive, by what the system answers; and logs without such
  a failure, or with the first one at their end.
\<close>

fun must_succeed :: "call \<Rightarrow> bool" where
  "must_succeed C_socket = True"
| "must_succeed (C_bind _ _) = True"
| "must_succeed (C_listen _ _) = True"
| "must_succeed C_epoll_create = True"
| "must_succeed (C_epoll_add _ _) = True"
| "must_succeed (C_epoll_wait _ _ _) = True"
| "must_succeed _ = False"

definition fatal :: "answer \<Rightarrow> call \<Rightarrow> bool" where
  "fatal a c \<longleftrightarrow> must_succeed c \<and> ret a = - 1"

definition no_failure :: "answers \<Rightarrow> call list \<Rightarrow> bool" where
  "no_failure ans l \<longleftrightarrow> (\<forall>n < length l. \<not> fatal (ans n) (l ! n))"

definition failed_last :: "answers \<Rightarrow> call list \<Rightarrow> bool" where
  "failed_last ans l \<longleftrightarrow> l \<noteq> [] \<and> no_failure ans (butlast l) \<and> fatal (ans (length l - 1)) (last l)"

lemma no_failure_simps [simp]:
  "no_failure ans []"
  "no_failure ans (l @ [c]) \<longleftrightarrow> no_failure ans l \<and> \<not> fatal (ans (length l)) c"
  by (auto simp: no_failure_def less_Suc_eq nth_append)

lemma failed_last_snoc [simp]:
  "failed_last ans (l @ [c]) \<longleftrightarrow> no_failure ans l \<and> fatal (ans (length l)) c"
  by (simp add: failed_last_def)

lemma handle_event_fails:
  assumes "handle_event ans ep lfd fd l = (b, l')" and "no_failure ans l"
  shows "if b then no_failure ans l' else failed_last ans l'"
  using assms by (auto simp: handle_event_def call_defs fatal_def simp del: append_assoc split: if_splits)

lemma handle_events_fails:
  "handle_events ans ep lfd fds l = (b, l') \<Longrightarrow> no_failure ans l \<Longrightarrow>
   if b then no_failure ans l' else failed_last ans l'"
proof (induction ans ep lfd fds l rule: handle_events.induct)
  case (2 ans ep lfd fd fds l)
  obtain ok l1 where h: "handle_event ans ep lfd fd l = (ok, l1)" by fastforce
  show ?case
    using 2 h handle_event_fails [OF h 2(3)] by (cases ok) auto
qed simp

lemma epoll_round_fails:
  assumes "epoll_round ans ep lfd l = (b, l')" and "no_failure ans l"
  shows "if b then no_failure ans l' else failed_last ans l'"
proof (cases "ret (ans (length l)) = - 1")
  case True
  then show ?thesis using assms by (auto simp: epoll_round_def call_defs fatal_def)
next
  case False
  then have "no_failure ans (l @ [C_epoll_wait ep MAX_EVENTS (- 1)])" using assms(2) by (simp add: fatal_def)
  moreover have "handle_events ans ep lfd (take (nat (ret (ans (length l)))) (ready (ans (length l))))
      (l @ [C_epoll_wait ep MAX_EVENTS (- 1)]) = (b, l')"
    using assms(1) False by (simp add: epoll_round_def call_defs)
  ultimately show ?thesis by (rule handle_events_fails [rotated])
qed

lemma epoll_setup_fails:
  "epoll_setup ans [] = (r, l) \<Longrightarrow> if r = None then failed_last ans l else no_failure ans l"
  by (auto simp: epoll_setup_def call_defs fatal_def
      simp del: append_assoc append.simps split: if_splits)

lemma rounds_no_failure:
  "rounds ans ep lfd n l = Some l' \<Longrightarrow> no_failure ans l \<Longrightarrow> no_failure ans l'"
proof (induction n arbitrary: l)
  case (Suc n)
  obtain ok l1 where e: "epoll_round ans ep lfd l = (ok, l1)" by fastforce
  with Suc epoll_round_fails [OF e Suc.prems(2)] show ?case by (auto split: if_splits)
qed simp

text \<open>The loop ends with the turn that fails, and only then.\<close>

lemma epoll_loop_ends:
  "epoll_loop ans ep lfd l = Some r \<Longrightarrow>
   no_failure ans l \<longrightarrow> fst r = - 1 \<and> failed_last ans (snd r) \<and> (\<exists>n. rounds ans ep lfd n l = None)"
proof (induction rule: epoll_loop.raw_induct [rotated 1, consumes 1])
  case (1 loop ans ep lfd l r)
  obtain ok l1 where e: "epoll_round ans ep lfd l = (ok, l1)" by fastforce
  show ?case
  proof
    assume nf: "no_failure ans l"
    note f = epoll_round_fails [OF e nf]
    show "fst r = - 1 \<and> failed_last ans (snd r) \<and> (\<exists>n. rounds ans ep lfd n l = None)"
    proof (cases ok)
      case True
      then have "loop ans ep lfd l1 = Some r" using 1(2) e by simp
      from 1(1) [OF this] True f obtain n where
        n: "rounds ans ep lfd n l1 = None" "fst r = - 1" "failed_last ans (snd r)" by auto
      then have "rounds ans ep lfd (Suc n) l = None" using e True by simp
      then show ?thesis using n(2,3) by blast
    next
      case False
      then have "rounds ans ep lfd (Suc 0) l = None" "r = (- 1, l1)" using 1(2) e by simp_all
      with False f show ?thesis by (metis fst_conv snd_conv)
    qed
  qed
qed

lemma rounds_end: "rounds ans ep lfd n l = None \<Longrightarrow> epoll_loop ans ep lfd l \<noteq> None"
proof (induction n arbitrary: l)
  case (Suc n)
  then show ?case by (subst epoll_loop.simps) (auto simp: Let_def case_prod_beta split: if_splits)
qed simp

lemma epoll_setup_in_round:
  assumes "epoll_setup ans [] = (Some (lfd, ep), l)" and "kernel_ok ans l"
  shows "in_round ans ep lfd {} l"
  using assms by (auto simp: epoll_setup_def call_defs in_round_def simp del: append_assoc append.simps split: if_splits)

lemma epoll_round_log: "epoll_round ans ep lfd l = (b, l') \<Longrightarrow> kernel_ok ans l' \<Longrightarrow> kernel_ok ans l"
  by (auto simp: epoll_round_def call_defs split: if_splits dest!: handle_events_log)

lemma rounds_log: "rounds ans ep lfd n l = Some l' \<Longrightarrow> kernel_ok ans l' \<Longrightarrow> kernel_ok ans l"
proof (induction n arbitrary: l)
  case (Suc n)
  obtain ok l1 where e: "epoll_round ans ep lfd l = (ok, l1)" by fastforce
  with Suc epoll_round_log [OF e] show ?case by (auto split: if_splits)
qed simp

lemma rounds_in_round:
  assumes "in_round ans ep lfd {} l" and "rounds ans ep lfd n l = Some l'" and "kernel_ok ans l'"
  shows "in_round ans ep lfd {} l'"
  using assms
proof (induction n arbitrary: l)
  case (Suc n)
  obtain ok l1 where e: "epoll_round ans ep lfd l = (ok, l1)" by fastforce
  with Suc.prems(2) have r: "rounds ans ep lfd n l1 = Some l'" and "ok" by (auto split: if_splits)
  with e epoll_round_in_round [OF Suc.prems(1) _ rounds_log [OF r Suc.prems(3)]] Suc.IH [OF _ r Suc.prems(3)]
  show ?case by simp
qed simp

section \<open>Framing of the responses\<close>

text \<open>Header and body of a response, and the length its header declares.\<close>

fun body_of :: "string \<Rightarrow> string option" where
  "body_of [] = None"
| "body_of (c # cs) = (if take 4 (c # cs) = crlf @ crlf then Some (drop 4 (c # cs)) else body_of cs)"

fun digits :: "nat \<Rightarrow> string \<Rightarrow> nat" where
  "digits n [] = n"
| "digits n (c # cs) =
     (if 48 \<le> (of_char c :: nat) \<and> (of_char c :: nat) \<le> 57 then digits (10 * n + (of_char c - 48)) cs else n)"

fun declared_length :: "string \<Rightarrow> nat option" where
  "declared_length [] = None"
| "declared_length (c # cs) =
     (let k = ''Content-Length: ''
      in if take (length k) (c # cs) = k then Some (digits 0 (drop (length k) (c # cs))) else declared_length cs)"

text \<open>
  The epoll server declares the length of its body; the libevent server declares one byte and
  sends thirteen.
\<close>

theorem response_lengths:
  "declared_length epoll_response = map_option length (body_of epoll_response)
   \<and> declared_length libevent_response = Some 1
   \<and> map_option length (body_of libevent_response) = Some 13"
  by code_simp

section \<open>The libevent server\<close>

text \<open>
  A connection is read once, answered if something came, closed and freed. An accepted descriptor
  gets its event unless it is greater than \<open>FD_SETSIZE\<close>, so that \<open>FD_SETSIZE\<close> itself, which no
  \<open>fd_set\<close> has room for, gets one.
\<close>

theorem libevent_connection:
  "http_read_cb ans fd ev l = l @ C_recv fd 1023 #
     (if 0 < ret (ans (length l)) then [C_send fd libevent_response] else []) @ [C_close fd, C_event_free ev]"
  by (simp add: http_read_cb_def call_defs)

theorem libevent_accepts_fd_setsize:
  assumes "fd = ret (ans (length l))"
  shows "(\<exists>ev. accept_conn_cb ans s base l = l @ [C_accept s, C_event_new 0 (- 1) None,
        C_event_assign ev base fd Http_read_cb, C_event_add ev]) \<longleftrightarrow> 0 \<le> fd \<and> fd \<le> FD_SETSIZE"
  using assms by (auto simp: accept_conn_cb_def call_defs)

theorem libevent_accepts_fd_setsize_witness:
  "\<exists>ev. accept_conn_cb (\<lambda>n. \<lparr>ret = 1024, ready = []\<rparr>) 3 7 [] = [C_accept 3, C_event_new 0 (- 1) None,
     C_event_assign ev 7 1024 Http_read_cb, C_event_add ev]"
  using libevent_accepts_fd_setsize [OF refl, where ans = "\<lambda>n. \<lparr>ret = 1024, ready = []\<rparr>" and l = "[]" and s = 3 and base = 7]
  by (simp add: FD_SETSIZE_def)

section \<open>Properties\<close>

text \<open>
  C33: The epoll server neither loses a connection nor keeps one too long. After any number of turns
  of its loop, \<open>epoll\<close> watches the listening descriptor and exactly the connections that were
  accepted and that \<open>epoll_wait\<close> has not reported since; and these, with the descriptor of
  \<open>epoll\<close>, are all that is open: a connection that was reported has been closed, and none is
  watched after that.
\<close>

theorem epoll_server_watches_what_is_open:
  assumes "epoll_setup ans [] = (Some (listenFd, epollFd), l0)"
    and "rounds ans epollFd listenFd n l0 = Some l" and "kernel_ok ans l"
  shows "fds_after ans l =
           (insert epollFd (insert listenFd (unserved ans l)), insert listenFd (unserved ans l))
    \<and> epollFd \<notin> insert listenFd (unserved ans l) \<and> listenFd \<notin> unserved ans l"
  using rounds_in_round [OF epoll_setup_in_round [OF assms(1) rounds_log [OF assms(2,3)]] assms(2,3)]
  by (simp add: in_round_def Let_def)

text \<open>Sockets 3, 4 and \<open>epoll\<close> 9; a connection comes and is answered.\<close>

definition ex_answers :: answers where
  "ex_answers n = \<lparr>ret = [3, 0, 0, 0, 9, 0, 1, 4, 0, 1, 80, 154, 0, 0] ! n, ready = if n = 6 then [3] else [4]\<rparr>"

definition ex_log :: "call list" where
  "ex_log = [C_socket, C_setsockopt 3, C_bind 3 PORT, C_listen 3 1024, C_epoll_create, C_epoll_add 9 3]"

lemma ex_setup: "epoll_setup ex_answers [] = (Some (3, 9), ex_log)"
  by (simp add: epoll_setup_def call_defs ex_answers_def ex_log_def numeral_eq_Suc)

lemma ex_rounds:
  "rounds ex_answers 9 3 2 ex_log = Some (ex_log @ [C_epoll_wait 9 MAX_EVENTS (- 1), C_accept 3, C_epoll_add 9 4,
     C_epoll_wait 9 MAX_EVENTS (- 1), C_read 4 1023, C_write 4 epoll_response, C_epoll_del 9 4, C_close 4])"
  by (simp add: eval_nat_numeral epoll_round_def call_defs ex_answers_def ex_log_def handle_event_def BUFSIZE_def)

theorem epoll_server_watches_what_is_open_witness:
  "snd (fds_after ex_answers (the (rounds ex_answers 9 3 2 ex_log)))
     = insert 3 (unserved ex_answers (the (rounds ex_answers 9 3 2 ex_log)))"
proof -
  let ?l = "the (rounds ex_answers 9 3 2 ex_log)"
  have "kernel_ok ex_answers ?l"
    unfolding ex_rounds by (simp add: kernel_ok_def less_Suc_eq ex_log_def ex_answers_def fds_after_def
        eval_nat_numeral upt_rec)
  then show ?thesis
    using epoll_server_watches_what_is_open [OF ex_setup, of 2 ?l] ex_rounds by simp
qed

text \<open>
  Every connection that \<open>epoll\<close> reports is served to its end in the same turn: it is read once,
  answered exactly if there was something to read, and closed once.
\<close>

theorem reported_connection_is_served:
  assumes "handle_events ans epollFd listenFd fds l = (True, l')" and "distinct fds"
    and "fd \<in> set fds" and "fd \<noteq> listenFd"
  shows "\<exists>k seg. l' = l @ seg \<and> length l \<le> k \<and> l' ! k = C_read fd 1023
    \<and> filter (\<lambda>c. c \<in> {C_read fd 1023, C_write fd epoll_response, C_close fd}) seg =
        (if 0 < ret (ans k) then [C_read fd 1023, C_write fd epoll_response, C_close fd]
         else [C_read fd 1023, C_close fd])"
proof -
  have ours: "(\<lambda>c. c \<in> {C_read fd 1023, C_write fd epoll_response, C_close fd}) = ours fd"
    by (auto simp: ours_def BUFSIZE_def)
  obtain seg k where "l' = l @ seg" "length l \<le> k" "l' ! k = C_read fd (BUFSIZE - 1)"
      "filter (ours fd) seg = filter (ours fd) (serve_log epollFd fd (ret (ans k)))"
    using handle_events_connection [OF assms(1,2) assms(4) [symmetric]] assms(3) by auto
  then show ?thesis
    unfolding ours by (intro exI [of _ k] exI [of _ seg]) (auto simp: serve_log_def ours_def BUFSIZE_def)
qed

theorem reported_connection_is_served_witness:
  "\<exists>seg. handle_events ex_answers 9 3 [4] (replicate 10 C_socket) = (True, replicate 10 C_socket @ seg)
     \<and> C_close 4 \<in> set seg"
proof -
  obtain l' where l': "handle_events ex_answers 9 3 [4] (replicate 10 C_socket) = (True, l')"
    by (simp add: handle_event_connection)
  from reported_connection_is_served [OF this, of 4] obtain seg k where seg: "l' = replicate 10 C_socket @ seg"
      "filter (\<lambda>c. c \<in> {C_read 4 1023, C_write 4 epoll_response, C_close 4}) seg =
        (if 0 < ret (ex_answers k) then [C_read 4 1023, C_write 4 epoll_response, C_close 4]
         else [C_read 4 1023, C_close 4])" by auto
  then have "C_close 4 \<in> set (filter (\<lambda>c. c \<in> {C_read 4 1023, C_write 4 epoll_response, C_close 4}) seg)"
    by simp
  then show ?thesis using l' seg(1) by auto
qed

text \<open>
  C34: The epoll server ends with the first failure and never otherwise. If \<open>main\<close> returns, it
  returns \<open>- 1\<close>, and its last call is one of \<open>socket\<close>, \<open>bind\<close>, \<open>listen\<close>, \<open>epoll_create1\<close>, the \<open>epoll_ctl\<close>
  that adds a descriptor, or \<open>epoll_wait\<close> (also an interrupted one), to which the system answered
  \<open>- 1\<close>, as it did to none of these before. It does not return exactly when set-up and every turn
  of the loop complete, with no such answer at all. (Failures of \<open>accept\<close>, \<open>read\<close> and \<open>write\<close>, and of
  the \<open>epoll_ctl\<close> that deletes, do not end it.)
\<close>

theorem epoll_server_ends_on_failure:
  "(\<forall>r l. epoll_main ans = Some (r, l) \<longrightarrow> r = - 1 \<and> l \<noteq> []
       \<and> fatal (ans (length l - 1)) (last l) \<and> (\<forall>n < length l - 1. \<not> fatal (ans n) (l ! n)))
   \<and> (epoll_main ans = None \<longleftrightarrow> (\<exists>listenFd epollFd l0. epoll_setup ans [] = (Some (listenFd, epollFd), l0)
       \<and> (\<forall>n. \<exists>l. rounds ans epollFd listenFd n l0 = Some l \<and> (\<forall>k < length l. \<not> fatal (ans k) (l ! k)))))"
proof -
  have f: "l \<noteq> [] \<and> fatal (ans (length l - 1)) (last l) \<and> (\<forall>n < length l - 1. \<not> fatal (ans n) (l ! n))"
    if "failed_last ans l" for l
    using that by (auto simp: failed_last_def no_failure_def nth_butlast)
  obtain r0 l0 where s: "epoll_setup ans [] = (r0, l0)" by fastforce
  note sf = epoll_setup_fails [OF s]
  show ?thesis
  proof (cases r0)
    case None
    then show ?thesis using s f sf by (auto simp: epoll_main_def)
  next
    case (Some q)
    obtain lfd ep where q: "q = (lfd, ep)" by fastforce
    have m: "epoll_main ans = epoll_loop ans ep lfd l0" using s Some q by (simp add: epoll_main_def)
    have nf: "no_failure ans l0" using sf Some by simp
    have "r = - 1 \<and> failed_last ans l" if "epoll_main ans = Some (r, l)" for r l
      using epoll_loop_ends [OF that [unfolded m]] nf by simp
    moreover have "epoll_main ans = None \<longleftrightarrow> (\<forall>n. rounds ans ep lfd n l0 \<noteq> None)"
      unfolding m using rounds_end epoll_loop_ends nf by (cases "epoll_loop ans ep lfd l0") blast+
    moreover have "rounds ans ep lfd n l0 \<noteq> None \<longleftrightarrow>
        (\<exists>l. rounds ans ep lfd n l0 = Some l \<and> (\<forall>k < length l. \<not> fatal (ans k) (l ! k)))" for n
      using rounds_no_failure [OF _ nf] by (auto simp: no_failure_def)
    ultimately show ?thesis using f s Some q by simp
  qed
qed

theorem epoll_server_ends_on_failure_witness:
  "\<exists>l. epoll_main (\<lambda>n. \<lparr>ret = - 1, ready = []\<rparr>) = Some (- 1, l) \<and> l \<noteq> []"
  using epoll_server_ends_on_failure [of "\<lambda>n. \<lparr>ret = - 1, ready = []\<rparr>"]
  by (simp add: epoll_main_def epoll_setup_def sys_def)

end
