(* ===== verification/Spec2Isabelle.thy ===== *)
theory Spec2Isabelle
  imports Prelude Closures Timers Alarm_Table Fibers Threads Schedulers Worker_Pool Task_Fibers Shared_Fibers Fiber_Pool
    Io_Manager Io_Pool Fd_Manager Hook Runtime Example_Server Benchmark_Servers
begin

text \<open>
  TinyCoroutine (\<open>code/\<close>) is a coroutine library for Linux: fibers on top of \<open>ucontext\<close>, a
  scheduler that runs them on a pool of threads, a scheduler that also waits for timers and
  descriptors with \<open>epoll\<close>, and replacements of the blocking system calls that park the calling
  fiber instead of the thread. This development models these parts and their composition.

  \<^bold>\<open>How the parts fit together.\<close> An application schedules callbacks and fibers on an
  \<open>IOManager\<close>. Its workers run \<open>Scheduler::run\<close>: they take tasks out of the queue, give each
  callback a fiber of its own, and resume the fiber; a worker without a task resumes its idle
  fiber, which waits in \<open>epoll_wait\<close> and turns expired timers and ready descriptors into tasks. A
  hooked call that would block arms a timer or registers its descriptor and yields; the task that
  the timer or the descriptor becomes resumes the fiber. \<open>FdManager\<close> remembers of each descriptor
  whether it is a socket, its modes and its timeouts.

  \<^bold>\<open>The theories.\<close>
  \<^item> \<open>Prelude\<close>: machine integers, faults, sequencing of fallible operations (\<open>bind_res\<close>),
    reachability, the locale of inductive invariants. \<open>Closures\<close>: the \<open>std::function\<close> values.
  \<^item> \<open>Timers\<close> (\<open>timer.h\<close>, \<open>timer.cpp\<close>): \<open>Timer\<close> objects by address, the \<open>std::set\<close> as a list strictly
    ordered by time in which equal times are one element, as its comparator has it; clock
    readings are arguments, and time points are 64-bit counts of nanoseconds. All operations of
    \<open>Timer\<close> and \<open>TimerManager\<close>; \<open>reset\<close> in its two critical sections. Lemmas: order of the set
    under every operation, what expires and what stays, retired timers. \<open>Alarm_Table\<close>: the
    abstract specification of the manager, a map from times to alarms, with the refinement of
    every operation, and the locale \<open>alarm_service\<close> of what users of timers rely on.
  \<^item> \<open>Fibers\<close> (\<open>fiber.h\<close>, \<open>fiber.cpp\<close>): \<open>Fiber\<close> objects, the thread-local pointers and the flow of
    control the thread executes; \<open>swapcontext\<close> saves the flow in one fiber and continues in
    another. Lemmas: the discipline of resuming (\<open>fiber_inv\<close>), exact results of \<open>resume\<close> and \<open>yield\<close>.
  \<^item> \<open>Threads\<close> (\<open>thread.h\<close>, \<open>thread.cpp\<close>): the semaphore, the start-up handshake of constructor and
    new thread as a step relation, \<open>join\<close>, destruction, names.
  \<^item> \<open>Schedulers\<close> (\<open>scheduler.h\<close>, \<open>scheduler.cpp\<close>): tasks, \<open>scheduleLock\<close>, the pieces of \<open>run\<close>, \<open>start\<close>,
    \<open>stop\<close>, construction and destruction; virtual functions are arguments. The locale \<open>task_sink\<close>
    states what users of a queue rely on. \<open>Worker_Pool\<close>: all workers of a pool and the callers of
    \<open>scheduleLock\<close> and \<open>stop\<close> interleaving at the grain of critical sections and atomic counters,
    with the hook flag of each thread, on which it depends whether the sleep of the idle function
    is the hooked one and faults (\<open>idle_sleep\<close>); lemmas on the accounts of tasks, on leaving the loop
    and on shutting down. \<open>Task_Fibers\<close>:
    running and parked fibers, the facts that the blocking calls need of fibers and workers, and the
    thread that calls \<open>stop\<close> and serves as a worker.
  \<^item> \<open>Shared_Fibers\<close>, \<open>Fiber_Pool\<close> (\<open>scheduler.cpp\<close>, \<open>fiber.h\<close>): the fibers of a process shared by the
    threads of a pool, with \<open>Fiber::m_mtx\<close>. Each thread has its own pointers and flow of control, the
    objects are common, and the operations of \<open>Fibers\<close> run on a thread's view. The steps of \<open>run\<close> are
    at the grain of mutex, switch and counter; lemmas: each step of a worker but the hooked sleep in
    the idle function ends without a fault, keeps the books of fibers, mutexes and tasks (\<open>books\<close>),
    and is a step of \<open>Worker_Pool\<close> (\<open>outer_step\<close>), or moves no worker, or takes one further on the way
    of its task through the fiber (\<open>inner_step\<close>).
  \<^item> \<open>Io_Manager\<close> (\<open>ioscheduler.h\<close>, \<open>ioscheduler.cpp\<close>): the record extends the scheduler's; contexts
    by address, the vector of pointers to them, what \<open>epoll\<close> was asked for, the bytes in the
    pipe. Every operation, those with a look-up under one lock and work under another in two
    parts; the idle fiber's turn. Lemmas: the accounts of events (\<open>iom_inv\<close>) under every operation,
    what triggering does. \<open>Io_Pool\<close>: the workers of an \<open>IOManager\<close> at once, with the three readings of
    \<open>stopping()\<close> one by one, the closures between \<open>listExpireCb\<close> and \<open>scheduleLock\<close>, and the operations of
    tasks and other threads in between; lemmas: what every operation keeps, what remains when the
    workers have left (for tasks bound to any thread), and that a turn nobody interrupts is \<open>idle_turn\<close>.
  \<^item> \<open>Fd_Manager\<close> (\<open>fd_manager.h\<close>, \<open>fd_manager.cpp\<close>): the objects, the table, the singleton, with the
    kernel's view of descriptors beside them. The locale \<open>fd_table\<close> states the contract of the table.
  \<^item> \<open>Hook\<close> (\<open>hook.h\<close>, \<open>hook.cpp\<close>): the look-up of the original functions and the hooked calls, each
    cut at its \<open>yield\<close>.
  \<^item> \<open>Runtime\<close>: the bodies of closures, whole turns of a worker and of the idle fiber, and what
    sleeping and waiting promise from end to end.
  \<^item> \<open>Example_Server\<close> (\<open>main.cpp\<close>): the HTTP server that comes with the library, its acceptor and the
    handler of a connection as programs over the hooked calls, for any answers of \<open>epoll_ctl\<close>. \<open>Benchmark_Servers\<close> (\<open>epoll/main.cpp\<close>,
    \<open>libevent/main.cpp\<close>): the two servers the library is compared with, as functions of what the
    system answers that log their calls, and what the kernel makes of the log: which descriptors are
    open (\<open>epoll\<close>'s own among them), which are watched, and which connections wait to be served.

  \<^bold>\<open>Conventions.\<close> An operation that can fail an assertion, dereference a null or dangling pointer,
  index out of bounds, read an uninitialised member or throw has a result in \<open>fault + 'a\<close>. Objects
  that several holders share live in a map or list by address. What the system answers
  (\<open>pthread_create\<close>, \<open>epoll_ctl\<close>, \<open>recv\<close>, clocks, thread ids) is an argument of the operation. Loops
  that need not end (\<open>listExpireCb\<close>, the loop over \<open>EINTR\<close>, the handler of a connection, the loop of the
  epoll server) are
  partial functions into \<open>option\<close>, and theorems say when they end; no fuel is used. Counters have
  their width: 64 bits for ids and counts, 32 bits for event masks and \<open>unsigned int\<close>; a count is
  read as a number only under a bound on the number of objects. Virtual-table dispatch is an
  argument, \<open>dynamic_cast\<close> a test.

  \<^bold>\<open>What the theorems show.\<close> Invariants of all reachable states for timers, fibers, the pool of
  workers and the \<open>IOManager\<close>; the refinement of a table of alarms by the timers, and, as long as no recurring alarm
  is due again at once, delivery of every alarm that nobody takes away; the exact effect of the operations on every branch, errors included; that a fiber
  that has yielded is untouched by others, runs on one worker at a time, may be continued by another
  worker, and is never waited for in vain; that start-up ends, and shut-down can when every task has a worker; round trips
  (registering and unregistering, resuming and yielding, sleeping and waking, setting and using
  options); that shutting down loses no task; and, where the code does not do what it means to, the
  inputs or interleavings that show it: a timer armed right before \<open>stop\<close> that is dropped, timers
  with equal times that displace each other, a condition in \<open>do_io\<close> that is the wrong way round, an
  idle function that crashes on a plain scheduler, wake-ups that are lost, a vector that shrinks, a
  handler that spins, and others.

  \<^bold>\<open>Not modelled.\<close> The bytes that reads and writes move and the addresses sockets have, as no code
  of the library looks at them; logging; memory, but for dangling pointers. The mutexes of
  managers and scheduler appear as the atomicity of steps, that of a fiber as an object. The threads
  of a pool share fibers in \<open>Fiber_Pool\<close>; in \<open>Task_Fibers\<close>, \<open>Hook\<close> and \<open>Runtime\<close> a \<open>fiber_world\<close> is the view of
  one thread. \<open>test/\<close> holds earlier copies of the same files.
\<close>

end
